(* ===== verification/Land_Prelude.thy ===== *)
theory Land_Prelude
  imports Main "HOL-Library.Word"
begin

unbundle bit_operations_syntax

text \<open>
  The prelude of the development of the land transaction service: the machine integer types
  of the Rust sources, the outcome of a call that may panic or may still be waiting, and the
  generic facts about words, integer intervals and lists that the component theories share.

  Integers. \<open>usize\<close>, \<open>u64\<close>, \<open>u32\<close>, \<open>u16\<close> and \<open>u8\<close> are words of their width, so that
  wrap-around, masks and shifts are the machine's. The sequence numbers of the channels are
  \<open>i64\<close> values that start at \<open>-1\<close> and grow by one per event; they are \<open>int\<close> here, since
  the code never reaches the end of the 63-bit range, and every cast of a sequence to
  \<open>usize\<close> is written out as a conversion to a 64-bit word.
\<close>

type_synonym u8 = "8 word"
type_synonym u16 = "16 word"
type_synonym u32 = "32 word"
type_synonym u64 = "64 word"
type_synonym u128 = "128 word"
type_synonym usize = "64 word"
type_synonym i64 = int

text \<open>
  \<open>SocketAddr\<close> of the standard library: the octets of the address, in network order, and the port.
  The flow label and the scope of an IPv6 address are zero throughout.
\<close>

datatype socket_addr = V4 "u8 list" u16 | V6 "u8 list" u16

text \<open>
  The outcome of a call: a failed assertion or an out-of-range access is \<open>Panicked\<close>, an
  unsafe access outside its safety contract is \<open>Undefined\<close>, a spin loop that has consumed
  every observation it was given and is still waiting is \<open>Blocked\<close>, a return is \<open>Done\<close>.
  A Rust \<open>Result\<close> is a sum, with \<open>Inl\<close> the error.
\<close>

datatype 'a run = Panicked | Undefined | Blocked | Done 'a

fun run_bind :: "'a run \<Rightarrow> ('a \<Rightarrow> 'b run) \<Rightarrow> 'b run" where
  "run_bind (Done x) f = f x"
| "run_bind Panicked f = Panicked"
| "run_bind Undefined f = Undefined"
| "run_bind Blocked f = Blocked"

text \<open>An unsafe access: \<open>None\<close> is undefined behaviour.\<close>

definition unsafe_run :: "'a option \<Rightarrow> 'a run" where
  "unsafe_run r = (case r of None \<Rightarrow> Undefined | Some x \<Rightarrow> Done x)"

lemma run_bind_eq_Done: "run_bind m f = Done y \<longleftrightarrow> (\<exists>x. m = Done x \<and> f x = Done y)"
  by (cases m) auto

lemma unsafe_run_eq_Done [simp]: "unsafe_run r = Done x \<longleftrightarrow> r = Some x"
  by (auto simp: unsafe_run_def split: option.splits)

lemma unsafe_run_Some [simp]: "unsafe_run (Some x) = Done x"
  by (simp add: unsafe_run_def)

named_theorems seq_simps \<open>arithmetic of sequences and ring indices\<close>
named_theorems op_defs \<open>definitions of the operations of a component\<close>

section \<open>Words\<close>

text \<open>Rust's \<open>saturating_sub\<close> on an unsigned type.\<close>

definition sat_sub :: "'a::len word \<Rightarrow> 'a word \<Rightarrow> 'a word" where
  "sat_sub a b = (if a < b then 0 else a - b)"

text \<open>Rust's \<open>saturating_add\<close> on an unsigned type.\<close>

definition sat_add :: "'a::len word \<Rightarrow> 'a word \<Rightarrow> 'a word" where
  "sat_add a b = (if 2 ^ LENGTH('a) \<le> unat a + unat b then - 1 else a + b)"

lemma unat_and: "unat (a AND b) = unat a AND unat (b :: 'a::len word)"
  by (rule bit_eqI) (auto simp: bit_simps bit_unsigned_iff)

lemma unat_sat_sub: "unat (sat_sub a b) = unat a - unat b"
  by (auto simp: sat_sub_def unat_sub word_le_nat_alt not_less word_less_nat_alt)

lemma unat_sat_add:
  "unat (sat_add a b) = min (unat a + unat (b :: 'a::len word)) (2 ^ LENGTH('a) - 1)"
proof (cases "2 ^ LENGTH('a) \<le> unat a + unat b")
  case True
  moreover have "unat (- 1 :: 'a word) = 2 ^ LENGTH('a) - 1"
    by (simp add: unsigned_minus_1_eq_mask mask_eq_exp_minus_1)
  ultimately show ?thesis by (simp add: sat_add_def)
next
  case False
  then have "unat (a + b) = unat a + unat b" by (simp add: unat_word_ariths)
  with False show ?thesis by (simp add: sat_add_def)
qed

lemma nat_and_pred_pow2:
  "n \<noteq> 0 \<Longrightarrow> n AND (n - 1) = (0::nat) \<Longrightarrow> \<exists>k. n = 2 ^ k"
proof (induction n rule: less_induct)
  case (less n)
  show ?case
  proof (cases "even n")
    case True
    then obtain m where m: "n = 2 * m" by blast
    with less.prems(1) have m0: "m \<noteq> 0" by simp
    have d: "(2 * m - Suc 0) div 2 = m - Suc 0" using m0 by arith
    have "n AND (n - 1) = 2 * (m AND (m - 1))"
      using m m0 d by (subst and_rec) auto
    with less.prems(2) have "m AND (m - 1) = 0" by simp
    with less.IH[of m] m m0 obtain k where "m = 2 ^ k" by auto
    with m show ?thesis by (metis power_Suc)
  next
    case False
    then obtain m where m: "n = Suc (2 * m)" by (auto elim: oddE)
    have "n AND (n - 1) = 2 * m"
      using m by (subst and_rec) auto
    with less.prems m have "n = 2 ^ 0" by simp
    then show ?thesis ..
  qed
qed

lemma and_pred_eq_0_iff:
  "n \<noteq> 0 \<and> n AND (n - 1) = 0 \<longleftrightarrow> (\<exists>k < 64. (n :: usize) = 2 ^ k)"
proof
  assume p: "n \<noteq> 0 \<and> n AND (n - 1) = 0"
  then have n0: "n \<noteq> 0" and "unat (n AND (n - 1)) = 0" by auto
  then have "unat n AND (unat n - 1) = 0" by (simp add: unat_and unat_minus_one)
  moreover have "unat n \<noteq> 0" using n0 by (simp add: unat_eq_zero)
  ultimately obtain k where k: "unat n = 2 ^ k" using nat_and_pred_pow2 by blast
  have "unat n < 2 ^ 64" using unsigned_less [of n] by simp
  with k have "(2::nat) ^ k < 2 ^ 64" by simp
  then have "k < 64" by (rule power_less_imp_less_exp [rotated]) simp
  moreover have "n = 2 ^ k"
    using k by (metis of_nat_numeral of_nat_power of_nat_unat ucast_id)
  ultimately show "\<exists>k < 64. n = 2 ^ k" by blast
next
  assume "\<exists>k < 64. n = 2 ^ k"
  then obtain k where k: "k < 64" "n = 2 ^ k" by blast
  have "n - 1 = mask k" using k by (simp add: mask_eq_exp_minus_1)
  moreover have "2 ^ k AND mask k = (0 :: usize)"
    by (rule bit_word_eqI) (auto simp: bit_simps)
  moreover have "(2::usize) ^ k \<noteq> 0" using k by (simp add: exp_eq_zero_iff)
  ultimately show "n \<noteq> 0 \<and> n AND (n - 1) = 0" using k by simp
qed

lemma unat_of_int_small:
  assumes "0 \<le> x" "x < 2 ^ LENGTH('a)"
  shows "unat (word_of_int x :: 'a::len word) = nat x"
proof -
  have "uint (word_of_int x :: 'a word) = x"
    using assms by (simp only: uint_word_of_int_eq take_bit_int_eq_self)
  then show ?thesis by (simp only: unat_eq_nat_uint)
qed

lemma uint_pow2: "k < 64 \<Longrightarrow> uint ((2 :: usize) ^ k) = 2 ^ k"
proof -
  assume "k < 64"
  then have "0 < (2::usize) ^ k" by (simp add: word_gt_0)
  then show ?thesis by (rule uint_2p)
qed

lemma unat_pow2: "k < 64 \<Longrightarrow> unat ((2 :: usize) ^ k) = 2 ^ k"
proof -
  assume "k < 64"
  then have "int (unat ((2 :: usize) ^ k)) = int (2 ^ k)"
    using uint_pow2 by (simp only: uint_nat of_nat_power of_nat_numeral)
  then show ?thesis by (simp only: of_nat_eq_iff)
qed

text \<open>Masking with \<open>2 ^ k - 1\<close> is the remainder, also for a negative sequence.\<close>

lemma unat_word_of_int_mask:
  assumes "k < 64"
  shows "unat ((word_of_int s :: usize) AND (2 ^ k - 1)) = nat (s mod 2 ^ k)"
proof -
  have "(word_of_int s :: usize) AND (2 ^ k - 1) = word_of_int (take_bit k s)"
    by (simp add: and_mask_wi flip: mask_eq_exp_minus_1)
  moreover have "(2::int) ^ k < 2 ^ 64"
    by (rule power_strict_increasing) (use assms in simp_all)
  then have "s mod 2 ^ k mod 2 ^ 64 = s mod 2 ^ k"
    by (intro mod_pos_pos_trivial) (simp, meson order_less_trans pos_mod_bound zero_less_numeral zero_less_power)
  ultimately show ?thesis
    by (simp add: take_bit_eq_mod unat_eq_nat_uint uint_word_of_int_eq)
qed

section \<open>Integer intervals and lists\<close>

lemma upto_snoc: "i \<le> j \<Longrightarrow> [i..j] = [i..j - 1] @ [j]"
  by (rule upto_rec2)

lemma upto_split: "i \<le> j \<Longrightarrow> j \<le> k + 1 \<Longrightarrow> [i..k] = [i..j - 1] @ [j..k]"
proof -
  assume a: "i \<le> j" "j \<le> k + 1"
  show ?thesis
  proof (cases "j = k + 1")
    case True
    then show ?thesis by simp
  next
    case False
    with a show ?thesis by (intro upto_split1) auto
  qed
qed

lemma map_upto_cong:
  "(\<And>s. i \<le> s \<Longrightarrow> s \<le> j \<Longrightarrow> f s = g s) \<Longrightarrow> map f [i..j] = map g [i..j]"
  by simp

lemma prefix_take_drop:
  assumes "q = es @ rest" "length es = min n (length q)"
  shows "es = take n q" "rest = drop n q"
proof -
  have "length es = n \<or> (length es < n \<and> rest = [])"
    using assms(2) unfolding assms(1) by (cases rest) (auto simp: min_def split: if_splits)
  then show "es = take n q" "rest = drop n q" unfolding assms(1) by auto
qed

text \<open>Two sequences less than a ring apart have different remainders.\<close>

lemma mod_neq_of_close:
  fixes s t n :: int
  assumes "s < t" "t < s + n" "0 < n"
  shows "s mod n \<noteq> t mod n"
proof
  assume "s mod n = t mod n"
  then have "n dvd t - s" by (metis mod_eq_dvd_iff)
  with assms show False using zdvd_not_zless [of "t - s" n] by simp
qed

end
