(* ===== verification/Ring_Buffer.thy ===== *)
theory Ring_Buffer
  imports Land_Prelude
begin

unbundle bit_operations_syntax

text \<open>
  The pre-allocated ring buffer of \<open>channel/src/ringbuffer.rs\<close>.

  A slot is a \<open>MaybeUninit\<close> cell: \<open>Uninit\<close> before the first write and after its value has
  been moved out, \<open>Init v\<close> while it owns \<open>v\<close>. A sequence number is cast to \<open>usize\<close> and
  masked to find its slot. \<open>ring_get\<close>, \<open>ring_read\<close> and \<open>ring_write_and_drop\<close> return \<open>None\<close>
  where the Rust code would touch an uninitialised cell (undefined behaviour), so that a
  theorem about them shows that the safety contract of the unsafe function holds.

  The lemmas show that the mask is the remainder by the capacity for every sequence, that
  sequences less than a lap apart use different slots, and that a write is visible at its own
  sequence and nowhere else in the window.
\<close>

section \<open>Model\<close>

datatype 'a slot = Uninit | Init 'a

record 'a ring_buffer =
  rb_slots :: "'a slot list"
  rb_mask :: usize
  rb_capacity :: usize

definition is_power_of_two :: "usize \<Rightarrow> bool" where
  "is_power_of_two n \<longleftrightarrow> n \<noteq> 0 \<and> n AND (n - 1) = 0"

definition ring_new :: "usize \<Rightarrow> 'a ring_buffer run" where
  "ring_new capacity =
     (if \<not> is_power_of_two capacity then Panicked
      else Done \<lparr>rb_slots = map (\<lambda>_. Uninit) [0..<unat capacity],
                 rb_mask = capacity - 1, rb_capacity = capacity\<rparr>)"

text \<open>The factory is a closure; \<open>factory i\<close> is the value its \<open>i\<close>-th call returns.\<close>

definition ring_with_factory :: "usize \<Rightarrow> (nat \<Rightarrow> 'a) \<Rightarrow> 'a ring_buffer run" where
  "ring_with_factory capacity factory =
     (if \<not> is_power_of_two capacity then Panicked
      else Done \<lparr>rb_slots = map (\<lambda>i. Init (factory i)) [0..<unat capacity],
                 rb_mask = capacity - 1, rb_capacity = capacity\<rparr>)"

definition ring_index :: "'a ring_buffer \<Rightarrow> i64 \<Rightarrow> nat" where
  "ring_index rb sequence = unat ((word_of_int sequence :: usize) AND rb_mask rb)"

text \<open>\<open>get_ptr\<close> and \<open>get_ptr_mut\<close>: the cell of a sequence.\<close>

definition ring_slot :: "'a ring_buffer \<Rightarrow> i64 \<Rightarrow> 'a slot" where
  "ring_slot rb sequence = rb_slots rb ! ring_index rb sequence"

definition ring_write :: "'a ring_buffer \<Rightarrow> i64 \<Rightarrow> 'a \<Rightarrow> 'a ring_buffer" where
  "ring_write rb sequence event =
     rb\<lparr>rb_slots := (rb_slots rb)[ring_index rb sequence := Init event]\<rparr>"

text \<open>Dropping the old value first; the dropped value is returned beside the new buffer.\<close>

definition ring_write_and_drop ::
    "'a ring_buffer \<Rightarrow> i64 \<Rightarrow> 'a \<Rightarrow> ('a \<times> 'a ring_buffer) option" where
  "ring_write_and_drop rb sequence event =
     (case ring_slot rb sequence of
        Uninit \<Rightarrow> None
      | Init old \<Rightarrow> Some (old, ring_write rb sequence event))"

definition ring_get :: "'a ring_buffer \<Rightarrow> i64 \<Rightarrow> 'a option" where
  "ring_get rb sequence =
     (case ring_slot rb sequence of Uninit \<Rightarrow> None | Init v \<Rightarrow> Some v)"

text \<open>Moving the value out leaves the cell uninitialised.\<close>

definition ring_read :: "'a ring_buffer \<Rightarrow> i64 \<Rightarrow> ('a \<times> 'a ring_buffer) option" where
  "ring_read rb sequence =
     (case ring_slot rb sequence of
        Uninit \<Rightarrow> None
      | Init v \<Rightarrow>
          Some (v, rb\<lparr>rb_slots := (rb_slots rb)[ring_index rb sequence := Uninit]\<rparr>))"

definition ring_free_slots :: "'a ring_buffer \<Rightarrow> i64 \<Rightarrow> i64 \<Rightarrow> usize" where
  "ring_free_slots rb producer_seq consumer_seq =
     (let pending = producer_seq - consumer_seq in
      if pending < 0 then rb_capacity rb
      else rb_capacity rb - word_of_int pending)"

section \<open>Well-formed buffers and their indices\<close>

abbreviation ring_size :: "'a ring_buffer \<Rightarrow> int" where
  "ring_size rb \<equiv> uint (rb_capacity rb)"

definition ring_wf :: "'a ring_buffer \<Rightarrow> bool" where
  "ring_wf rb \<longleftrightarrow>
     is_power_of_two (rb_capacity rb) \<and> rb_mask rb = rb_capacity rb - 1 \<and>
     length (rb_slots rb) = unat (rb_capacity rb)"

lemma is_power_of_two_iff: "is_power_of_two n \<longleftrightarrow> (\<exists>k < 64. n = 2 ^ k)"
  unfolding is_power_of_two_def by (rule and_pred_eq_0_iff)

lemma sint_pow2: "k < 63 \<Longrightarrow> sint ((2 :: usize) ^ k) = 2 ^ k"
proof -
  assume k: "k < 63"
  then have "(2::int) ^ k < 2 ^ 63" by (intro power_strict_increasing) simp_all
  moreover have "uint ((2 :: usize) ^ k) = 2 ^ k" using k by (intro uint_pow2) simp
  moreover have "- ((2::int) ^ 63) \<le> 2 ^ k" by (rule order_trans [of _ 0]) simp_all
  ultimately show ?thesis
    using signed_take_bit_int_eq_self [of 63 "2 ^ k"] by (simp add: sint_uint)
qed

lemma ring_wf_size_pos: "ring_wf rb \<Longrightarrow> 0 < ring_size rb"
  by (auto simp: ring_wf_def is_power_of_two_iff uint_pow2)

lemma ring_index_mod: "ring_wf rb \<Longrightarrow> ring_index rb s = nat (s mod ring_size rb)"
  by (auto simp: ring_wf_def ring_index_def is_power_of_two_iff unat_word_of_int_mask uint_pow2)

lemma ring_index_less: "ring_wf rb \<Longrightarrow> ring_index rb s < length (rb_slots rb)"
proof -
  assume wf: "ring_wf rb"
  have "s mod ring_size rb < ring_size rb"
    using ring_wf_size_pos [OF wf] by (intro pos_mod_bound) simp
  then have "nat (s mod ring_size rb) < nat (ring_size rb)"
    using ring_wf_size_pos [OF wf] by (subst nat_less_eq_zless) simp_all
  with wf show ?thesis by (simp add: ring_index_mod) (simp add: ring_wf_def)
qed

lemma ring_index_eq_iff:
  "ring_wf rb \<Longrightarrow> ring_index rb s = ring_index rb t \<longleftrightarrow> s mod ring_size rb = t mod ring_size rb"
  using ring_wf_size_pos [of rb] by (simp add: ring_index_mod eq_nat_nat_iff)

lemma ring_index_neq [seq_simps]:
  assumes "ring_wf rb" "s < t" "t < s + ring_size rb"
  shows "ring_index rb s \<noteq> ring_index rb t" "ring_index rb t \<noteq> ring_index rb s"
  using mod_neq_of_close [OF assms(2,3)] ring_wf_size_pos [OF assms(1)] assms(1)
  by (simp_all add: ring_index_eq_iff)

lemma ring_index_lap: "ring_wf rb \<Longrightarrow> ring_index rb (s + ring_size rb) = ring_index rb s"
  by (simp add: ring_index_eq_iff)

lemma ring_new_wf: "ring_new c = Done rb \<Longrightarrow> ring_wf rb"
  by (auto simp: ring_new_def ring_wf_def split: if_splits)

lemma ring_new_capacity: "ring_new c = Done rb \<Longrightarrow> rb_capacity rb = c"
  by (auto simp: ring_new_def split: if_splits)

lemma ring_with_factory_wf: "ring_with_factory c f = Done rb \<Longrightarrow> ring_wf rb"
  by (auto simp: ring_with_factory_def ring_wf_def split: if_splits)

lemma ring_write_simps [simp]:
  "ring_wf (ring_write rb s v) = ring_wf rb"
  "rb_capacity (ring_write rb s v) = rb_capacity rb"
  "rb_mask (ring_write rb s v) = rb_mask rb"
  "ring_index (ring_write rb s v) t = ring_index rb t"
  by (simp_all add: ring_write_def ring_wf_def ring_index_def)

lemma ring_slot_write:
  "ring_wf rb \<Longrightarrow> ring_slot (ring_write rb s v) t =
     (if ring_index rb s = ring_index rb t then Init v else ring_slot rb t)"
  using ring_index_less [of rb s]
  by (simp add: ring_slot_def nth_list_update) (simp add: ring_write_def ring_slot_def)

lemma ring_read_Some:
  assumes "ring_read rb s = Some (v, rb')"
  shows "ring_slot rb s = Init v"
    "rb' = rb\<lparr>rb_slots := (rb_slots rb)[ring_index rb s := Uninit]\<rparr>"
  using assms by (auto simp: ring_read_def split: slot.splits)

lemma ring_read_frame:
  assumes "ring_read rb s = Some (v, rb')"
  shows "ring_wf rb' = ring_wf rb" "rb_capacity rb' = rb_capacity rb"
    "ring_index rb' t = ring_index rb t"
  using ring_read_Some [OF assms] by (simp_all add: ring_wf_def ring_index_def)

lemma ring_slot_read:
  assumes "ring_wf rb" "ring_read rb s = Some (v, rb')"
  shows "ring_slot rb' t = (if ring_index rb s = ring_index rb t then Uninit else ring_slot rb t)"
  using ring_read_Some [OF assms(2)] ring_index_less [OF assms(1), of s]
    ring_read_frame(3) [OF assms(2), of t]
  by (simp add: ring_slot_def nth_list_update)

lemma ring_get_Some [simp]: "ring_get rb s = Some v \<longleftrightarrow> ring_slot rb s = Init v"
  by (auto simp: ring_get_def split: slot.splits)

lemma ring_get_Init [simp]: "ring_slot rb s = Init v \<Longrightarrow> ring_get rb s = Some v"
  by simp

section \<open>The window of live events\<close>

text \<open>
  The events of the sequences \<open>i, \<dots>, j - 1\<close>. Every channel over the ring buffer keeps
  such a window between its consumer and its producer, never wider than the capacity.
\<close>

definition ring_init :: "'a ring_buffer \<Rightarrow> i64 \<Rightarrow> i64 \<Rightarrow> bool" where
  "ring_init rb i j \<longleftrightarrow> (\<forall>s \<in> {i..<j}. ring_slot rb s \<noteq> Uninit)"

definition ring_contents :: "'a ring_buffer \<Rightarrow> i64 \<Rightarrow> i64 \<Rightarrow> 'a list" where
  "ring_contents rb i j = map (\<lambda>s. the (ring_get rb s)) [i..j - 1]"

lemma ring_init_code [code]:
  "ring_init rb i j \<longleftrightarrow> (if j \<le> i then True else ring_slot rb i \<noteq> Uninit \<and> ring_init rb (i + 1) j)"
proof (cases "j \<le> i")
  case False
  then have "{i..<j} = insert i {i + 1..<j}" by auto
  with False show ?thesis by (simp add: ring_init_def)
qed (simp add: ring_init_def)

lemma ring_contents_code [code]:
  "ring_contents rb i j = (if j \<le> i then [] else the (ring_get rb i) # ring_contents rb (i + 1) j)"
  by (simp add: ring_contents_def upto_rec1)

lemma length_ring_contents [simp]: "length (ring_contents rb i j) = nat (j - i)"
  by (simp add: ring_contents_def)

lemma ring_contents_empty [simp]: "j \<le> i \<Longrightarrow> ring_contents rb i j = []"
  by (simp add: ring_contents_def)

lemma ring_contents_eq_Nil [simp]: "ring_contents rb i j = [] \<longleftrightarrow> j \<le> i"
  by (auto simp: ring_contents_def)

lemma ring_init_empty [simp]: "j \<le> i \<Longrightarrow> ring_init rb i j"
  by (simp add: ring_init_def)

lemma ring_slot_write_other:
  "ring_wf rb \<Longrightarrow> i \<le> s \<Longrightarrow> s < j \<Longrightarrow> j < i + ring_size rb \<Longrightarrow>
     ring_slot (ring_write rb j v) s = ring_slot rb s"
  using ring_index_neq [of rb s j] by (simp add: ring_slot_write)

lemma ring_init_write:
  "ring_wf rb \<Longrightarrow> ring_init rb i j \<Longrightarrow> j < i + ring_size rb \<Longrightarrow>
     ring_init (ring_write rb j v) i (j + 1)"
  using ring_slot_write_other [of rb i _ j v]
  by (auto simp: ring_init_def ring_slot_write)

lemma ring_contents_write:
  assumes "ring_wf rb" "i \<le> j" "j < i + ring_size rb"
  shows "ring_contents (ring_write rb j v) i (j + 1) = ring_contents rb i j @ [v]"
proof -
  have "map (\<lambda>s. the (ring_get (ring_write rb j v) s)) [i..j - 1] =
      map (\<lambda>s. the (ring_get rb s)) [i..j - 1]"
    using ring_slot_write_other [OF assms(1) _ _ assms(3)]
    by (intro map_upto_cong) (simp add: ring_get_def)
  then show ?thesis
    using assms by (simp add: ring_contents_def upto_snoc ring_get_def ring_slot_write)
qed

lemma ring_read_other:
  assumes "ring_wf rb" "ring_read rb i = Some (v, rb')" "i < s" "s < i + ring_size rb"
  shows "ring_slot rb' s = ring_slot rb s"
  using ring_slot_read [OF assms(1,2), of s] ring_index_neq [OF assms(1,3,4)] by simp

lemma ring_init_read:
  assumes "ring_wf rb" "ring_read rb i = Some (v, rb')" "ring_init rb i j" "j \<le> i + ring_size rb"
  shows "ring_init rb' (i + 1) j"
  using ring_read_other [OF assms(1,2)] assms(3,4) by (auto simp: ring_init_def)

lemma ring_contents_read:
  assumes "ring_wf rb" "ring_read rb i = Some (v, rb')" "i < j" "j \<le> i + ring_size rb"
  shows "ring_contents rb i j = v # ring_contents rb' (i + 1) j"
proof -
  have "map (\<lambda>s. the (ring_get rb s)) [i + 1..j - 1] = map (\<lambda>s. the (ring_get rb' s)) [i + 1..j - 1]"
    using ring_read_other [OF assms(1,2)] assms(4)
    by (intro map_upto_cong) (simp add: ring_get_def)
  moreover have "the (ring_get rb i) = v"
    using ring_read_Some [OF assms(2)] by (simp add: ring_get_def)
  ultimately show ?thesis using assms(3) by (simp add: ring_contents_def upto_rec1)
qed

lemma ring_read_init:
  "ring_init rb i j \<Longrightarrow> i \<le> s \<Longrightarrow> s < j \<Longrightarrow> \<exists>v rb'. ring_read rb s = Some (v, rb')"
  by (auto simp: ring_init_def ring_read_def split: slot.splits)

text \<open>Moving out \<open>n\<close> consecutive events, as the batch receives do.\<close>

fun ring_read_n :: "'a ring_buffer \<Rightarrow> i64 \<Rightarrow> nat \<Rightarrow> ('a list \<times> 'a ring_buffer) option" where
  "ring_read_n rb s 0 = Some ([], rb)"
| "ring_read_n rb s (Suc n) =
     (case ring_read rb s of
        None \<Rightarrow> None
      | Some (v, rb1) \<Rightarrow>
          (case ring_read_n rb1 (s + 1) n of
             None \<Rightarrow> None
           | Some (vs, rb2) \<Rightarrow> Some (v # vs, rb2)))"

lemma ring_read_n_window:
  "ring_wf rb \<Longrightarrow> ring_init rb i j \<Longrightarrow> i + int n \<le> j \<Longrightarrow> j \<le> i + ring_size rb \<Longrightarrow>
   \<exists>vs rb'. ring_read_n rb i n = Some (vs, rb') \<and> ring_wf rb' \<and> rb_capacity rb' = rb_capacity rb \<and>
     ring_init rb' (i + int n) j \<and> ring_contents rb i j = vs @ ring_contents rb' (i + int n) j \<and>
     length vs = n"
proof (induction n arbitrary: rb i)
  case 0
  then show ?case by simp
next
  case (Suc n)
  obtain v rb1 where r: "ring_read rb i = Some (v, rb1)"
    using ring_read_init [OF Suc.prems(2), of i] Suc.prems(3) by auto
  have "ring_init rb1 (i + 1) j" using ring_init_read [OF Suc.prems(1) r Suc.prems(2,4)] .
  then obtain vs rb2 where IH: "ring_read_n rb1 (i + 1) n = Some (vs, rb2)" "ring_wf rb2"
      "rb_capacity rb2 = rb_capacity rb" "ring_init rb2 (i + 1 + int n) j"
      "ring_contents rb1 (i + 1) j = vs @ ring_contents rb2 (i + 1 + int n) j" "length vs = n"
    using Suc.IH [of rb1 "i + 1"] Suc.prems ring_read_frame [OF r] by auto
  moreover have "ring_contents rb i j = v # ring_contents rb1 (i + 1) j"
    using ring_contents_read [OF Suc.prems(1) r] Suc.prems(3,4) by simp
  ultimately show ?case using r by (simp add: algebra_simps)
qed

text \<open>
  The \<open>poll\<close> of a consumer borrows each event and calls the handler with it, its sequence and the end-of-batch
  flag; the model returns the list of calls.
\<close>

fun poll_calls :: "'a ring_buffer \<Rightarrow> i64 \<Rightarrow> nat \<Rightarrow> ('a \<times> i64 \<times> bool) list run" where
  "poll_calls rb s 0 = Done []"
| "poll_calls rb s (Suc n) =
     run_bind (unsafe_run (ring_get rb s))
       (\<lambda>event. run_bind (poll_calls rb (s + 1) n) (\<lambda>calls. Done ((event, s, n = 0) # calls)))"

lemma poll_calls_spec:
  "ring_init rb s (s + int n) \<Longrightarrow>
     \<exists>calls. poll_calls rb s n = Done calls \<and> map fst calls = ring_contents rb s (s + int n) \<and>
       map (fst \<circ> snd) calls = [s..s + int n - 1] \<and>
       map (snd \<circ> snd) calls = map (\<lambda>i. Suc i = n) [0..<n]"
proof (induction n arbitrary: s)
  case 0
  then show ?case by simp
next
  case (Suc n)
  have "ring_slot rb s \<noteq> Uninit" using Suc.prems by (auto simp: ring_init_def)
  then obtain v where v: "ring_get rb s = Some v" by (cases "ring_slot rb s") auto
  have "ring_init rb (s + 1) (s + 1 + int n)"
    using Suc.prems by (auto simp: ring_init_def)
  from Suc.IH [OF this] obtain calls where IH: "poll_calls rb (s + 1) n = Done calls"
    "map fst calls = ring_contents rb (s + 1) (s + 1 + int n)"
    "map (fst \<circ> snd) calls = [s + 1..s + 1 + int n - 1]"
    "map (snd \<circ> snd) calls = map (\<lambda>i. Suc i = n) [0..<n]" by blast
  have "ring_contents rb s (s + int (Suc n)) = v # ring_contents rb (s + 1) (s + 1 + int n)"
    using v by (simp add: ring_contents_def upto_rec1 algebra_simps ring_get_def)
  moreover have "[s..s + int (Suc n) - 1] = s # [s + 1..s + 1 + int n - 1]"
    by (simp add: upto_rec1 algebra_simps)
  moreover have "map (\<lambda>i. Suc i = Suc n) [0..<Suc n] = (n = 0) # map (\<lambda>i. Suc i = n) [0..<n]"
    using map_upt_Suc [of "\<lambda>i. Suc i = Suc n" n] by auto
  moreover have "poll_calls rb s (Suc n) = Done ((v, s, n = 0) # calls)" using v IH(1) by simp
  ultimately show ?case
    using IH(2-4) unfolding o_def
    by (intro exI [of _ "(v, s, n = 0) # calls"]) (simp only: list.map fst_conv snd_conv simp_thms)
qed

end
