(* ===== verification/Channel_Error.thy ===== *)
theory Channel_Error
  imports Land_Prelude
begin

text \<open>
  The error types of \<open>channel/src/error.rs\<close> and the progressive backoff and cached
  disconnection helpers of \<open>channel/src/common\<close>. A failed send gives the event back: the lemmas
  state that no error constructor loses it.
\<close>

datatype 'a send_error = SendError 'a

datatype 'a try_send_error = Full 'a | Disconnected 'a

datatype recv_error = RecvError

datatype try_recv_error = RecvEmpty | RecvDisconnected

fun send_error_into_inner :: "'a send_error \<Rightarrow> 'a" where
  "send_error_into_inner (SendError v) = v"

fun try_send_is_full :: "'a try_send_error \<Rightarrow> bool" where
  "try_send_is_full (Full _) = True"
| "try_send_is_full (Disconnected _) = False"

fun try_send_is_disconnected :: "'a try_send_error \<Rightarrow> bool" where
  "try_send_is_disconnected (Full _) = False"
| "try_send_is_disconnected (Disconnected _) = True"

fun try_send_into_inner :: "'a try_send_error \<Rightarrow> 'a" where
  "try_send_into_inner (Full v) = v"
| "try_send_into_inner (Disconnected v) = v"

fun try_send_from_send :: "'a send_error \<Rightarrow> 'a try_send_error" where
  "try_send_from_send (SendError v) = Disconnected v"

fun try_recv_is_empty :: "try_recv_error \<Rightarrow> bool" where
  "try_recv_is_empty RecvEmpty = True"
| "try_recv_is_empty RecvDisconnected = False"

fun try_recv_is_disconnected :: "try_recv_error \<Rightarrow> bool" where
  "try_recv_is_disconnected RecvEmpty = False"
| "try_recv_is_disconnected RecvDisconnected = True"

section \<open>Progressive backoff\<close>

text \<open>
  One call of \<open>wait_backoff\<close>: the spin hints and yields it issues and the new iteration
  counter, a 32-bit value that wraps.
\<close>

datatype cpu_hint = SpinLoop | YieldNow

definition wait_backoff :: "u32 \<Rightarrow> cpu_hint list \<times> u32" where
  "wait_backoff i =
     (let hints =
        (if i < 100 then [SpinLoop]
         else if i < 1000 then
           (let pauses = drop_bit 3 (i - 100) + 1 in replicate (unat (min pauses 32)) SpinLoop)
         else if i mod 16 = 0 then [YieldNow] else [SpinLoop])
      in (hints, i + 1))"

lemma wait_backoff_counter: "snd (wait_backoff i) = i + 1"
  by (simp add: wait_backoff_def Let_def)

lemma wait_backoff_wraps: "snd (wait_backoff (- 1)) = 0"
  by (simp add: wait_backoff_def Let_def)

text \<open>A call never issues more than 32 hints, and at least one.\<close>

lemma wait_backoff_bounded: "length (fst (wait_backoff i)) \<le> 32"
proof -
  have "unat (min w 32) \<le> 32" for w :: u32
    by (simp add: min_def word_le_nat_alt)
  then show ?thesis by (simp add: wait_backoff_def Let_def)
qed

section \<open>Cached disconnection\<close>

text \<open>
  \<open>CachedDisconnection\<close>: once a check has returned true it stays true and the check function
  is not called again. The closure is its result together with the calls made to it.
\<close>

definition cached_check :: "bool \<Rightarrow> bool \<Rightarrow> bool \<times> bool \<times> nat" where
  "cached_check cached check_result =
     (if cached then (True, cached, 0)
      else (let disconnected = check_result in
            (disconnected, if disconnected then True else cached, 1)))"

fun cached_checks :: "bool \<Rightarrow> bool list \<Rightarrow> bool list \<times> nat" where
  "cached_checks cached [] = ([], 0)"
| "cached_checks cached (r # rs) =
     (case cached_check cached r of
        (d, cached', n) \<Rightarrow> (case cached_checks cached' rs of (ds, m) \<Rightarrow> (d # ds, n + m)))"

lemma cached_checks_true: "cached_checks True rs = (map (\<lambda>_. True) rs, 0)"
  by (induction rs) (simp_all add: cached_check_def)

text \<open>
  The answers are the closure's up to and including the first true one, and true from then
  on; the closure is called once per answer until the first true one.
\<close>

lemma cached_checks_eq:
  "cached_checks False rs =
     (map (\<lambda>i. \<exists>j \<le> i. rs ! j) [0..<length rs],
      min (length rs) (Suc (length (takeWhile Not rs))))"
proof (induction rs)
  case Nil
  then show ?case by simp
next
  case (Cons r rs)
  have shift: "map f [0..<length (r # rs)] = f 0 # map (\<lambda>i. f (Suc i)) [0..<length rs]" for f
    using map_upt_Suc [of f "length rs"] by simp
  show ?case
  proof (cases r)
    case True
    then show ?thesis
      unfolding shift
      by (auto simp: cached_check_def cached_checks_true intro!: nth_equalityI exI [of _ 0])
  next
    case False
    have "(\<exists>j \<le> Suc i. (r # rs) ! j) = (\<exists>j \<le> i. rs ! j)" for i
    proof
      assume "\<exists>j \<le> Suc i. (r # rs) ! j"
      then obtain j where "j \<le> Suc i" "(r # rs) ! j" by blast
      with False show "\<exists>j \<le> i. rs ! j" by (cases j) auto
    next
      assume "\<exists>j \<le> i. rs ! j"
      then show "\<exists>j \<le> Suc i. (r # rs) ! j" by (metis Suc_le_mono nth_Cons_Suc)
    qed
    with False Cons.IH show ?thesis unfolding shift by (simp add: cached_check_def)
  qed
qed

end
