(* ===== verification/Fifo_Spec.thy ===== *)
theory Fifo_Spec
  imports Main
begin

text \<open>
  The contract of a bounded queue, as the users of the channels and of the transaction queue
  rely on it: a push is refused exactly when the queue is full, a pop is refused exactly when
  it is empty, and the accepted elements leave in the order in which they came.

  \<open>fifo_run\<close> drives a queue by a list of requests and records what was accepted and what was
  delivered. The theorem of the interface, proved once inside the locale, is that nothing is
  lost, duplicated or reordered by any such run.
\<close>

datatype 'a fifo_op = Push 'a | Pop

fun fifo_run ::
    "('a \<Rightarrow> 's \<Rightarrow> bool \<times> 's) \<Rightarrow> ('s \<Rightarrow> 'a option \<times> 's) \<Rightarrow> 's \<Rightarrow> 'a fifo_op list \<Rightarrow>
     'a list \<times> 'a list \<times> 's" where
  "fifo_run push pop s [] = ([], [], s)"
| "fifo_run push pop s (Push x # ops) =
     (case push x s of
        (ok, s1) \<Rightarrow>
          (case fifo_run push pop s1 ops of
             (acc, out, s') \<Rightarrow> (if ok then x # acc else acc, out, s')))"
| "fifo_run push pop s (Pop # ops) =
     (case pop s of
        (r, s1) \<Rightarrow>
          (case fifo_run push pop s1 ops of
             (acc, out, s') \<Rightarrow> (acc, case r of None \<Rightarrow> out | Some y \<Rightarrow> y # out, s')))"

locale bounded_fifo =
  fixes queue :: "'s \<Rightarrow> 'a list"
    and invar :: "'s \<Rightarrow> bool"
    and limit :: "'s \<Rightarrow> nat"
    and push :: "'a \<Rightarrow> 's \<Rightarrow> bool \<times> 's"
    and pop :: "'s \<Rightarrow> 'a option \<times> 's"
  assumes bounded: "invar s \<Longrightarrow> length (queue s) \<le> limit s"
    and push_invar: "invar s \<Longrightarrow> push x s = (ok, s') \<Longrightarrow> invar s' \<and> limit s' = limit s"
    and push_queue: "invar s \<Longrightarrow> push x s = (ok, s') \<Longrightarrow>
          (ok \<longleftrightarrow> length (queue s) < limit s) \<and>
          queue s' = (if ok then queue s @ [x] else queue s)"
    and pop_invar: "invar s \<Longrightarrow> pop s = (r, s') \<Longrightarrow> invar s' \<and> limit s' = limit s"
    and pop_queue: "invar s \<Longrightarrow> pop s = (r, s') \<Longrightarrow>
          queue s = (case r of None \<Rightarrow> [] | Some y \<Rightarrow> y # queue s') \<and>
          (r = None \<longrightarrow> queue s' = [])"
begin

lemma run_order:
  "invar s \<Longrightarrow> fifo_run push pop s ops = (acc, out, s') \<Longrightarrow>
     invar s' \<and> limit s' = limit s \<and> queue s @ acc = out @ queue s'"
proof (induction ops arbitrary: s acc out s')
  case Nil
  then show ?case by simp
next
  case (Cons opn ops)
  show ?case
  proof (cases opn)
    case (Push x)
    obtain ok s1 where p: "push x s = (ok, s1)" by (cases "push x s")
    obtain acc1 out1 s2 where r: "fifo_run push pop s1 ops = (acc1, out1, s2)"
      using prod_cases3 by blast
    have "invar s1" "limit s1 = limit s" "queue s1 = (if ok then queue s @ [x] else queue s)"
      using push_invar push_queue Cons.prems(1) p by blast+
    with Cons.IH [OF _ r] Cons.prems(2) Push p r show ?thesis by (auto split: if_splits)
  next
    case Pop
    obtain y s1 where p: "pop s = (y, s1)" by (cases "pop s")
    obtain acc1 out1 s2 where r: "fifo_run push pop s1 ops = (acc1, out1, s2)"
      using prod_cases3 by blast
    have "invar s1" "limit s1 = limit s"
      "queue s = (case y of None \<Rightarrow> [] | Some v \<Rightarrow> v # queue s1)" "y = None \<longrightarrow> queue s1 = []"
      using pop_invar pop_queue Cons.prems(1) p by blast+
    with Cons.IH [OF _ r] Cons.prems(2) Pop p r show ?thesis by (auto split: option.splits)
  qed
qed

lemma run_bounded:
  "invar s \<Longrightarrow> fifo_run push pop s ops = (acc, out, s') \<Longrightarrow>
     length (queue s) + length acc \<le> length out + limit s"
proof -
  assume a: "invar s" "fifo_run push pop s ops = (acc, out, s')"
  note r = run_order [OF a]
  then have "length (queue s) + length acc = length out + length (queue s')"
    by (metis length_append)
  with r bounded [of s'] show ?thesis by simp
qed

lemma run_append:
  "fifo_run push pop s (ops @ ops') =
     (case fifo_run push pop s ops of
        (acc, out, s1) \<Rightarrow>
          (case fifo_run push pop s1 ops' of (acc', out', s2) \<Rightarrow> (acc @ acc', out @ out', s2)))"
proof (induction ops arbitrary: s)
  case Nil
  then show ?case by (simp split: prod.splits)
next
  case (Cons opn ops)
  then show ?case by (cases opn) (auto split: prod.splits option.splits)
qed

text \<open>As many pops as there are elements empty the queue and deliver all of it, in order.\<close>

lemma run_drain:
  "invar s \<Longrightarrow> fifo_run push pop s (replicate (length (queue s)) Pop) = (acc, out, s') \<Longrightarrow>
     acc = [] \<and> out = queue s \<and> queue s' = []"
proof (induction "queue s" arbitrary: s acc out s')
  case Nil
  then show ?case by simp
next
  case (Cons y ys)
  obtain r s1 where p: "pop s = (r, s1)" by (cases "pop s")
  then have q: "r = Some y" "queue s1 = ys" "invar s1"
    using pop_queue [OF Cons.prems(1) p] pop_invar [OF Cons.prems(1) p] Cons.hyps(2)
    by (auto split: option.splits)
  have l: "length (queue s) = Suc (length (queue s1))" using Cons.hyps(2) [symmetric] q by simp
  obtain acc1 out1 s2 where
    r: "fifo_run push pop s1 (replicate (length (queue s1)) Pop) = (acc1, out1, s2)"
    using prod_cases3 by blast
  have "acc1 = [] \<and> out1 = queue s1 \<and> queue s2 = []"
    using Cons.hyps(1) q r by blast
  with Cons.prems(2) Cons.hyps(2) [symmetric] l p q r show ?case by simp
qed

end

end
