(* ===== verification/Spsc_Channel.thy ===== *)
theory Spsc_Channel
  imports Ring_Buffer Channel_Error Fifo_Spec
begin

text \<open>
  The single-producer single-consumer channel of \<open>channel/src/spsc\<close>: the shared state, the
  producer and consumer handles and every operation of both, with the batch handle.

  Each operation is a function of the handle and of the shared state it observes. A spinning
  operation takes the list of the shared states its successive loads observe, since the other
  side may run between two loads; it is \<open>Blocked\<close> when the list ends before the loop does, and
  it goes on in the last state it observed. The \<open>Arc\<close> that both handles hold is its strong
  count; the barrier of the consumer is a pointer to the producer cursor.

  The lemmas are about the window of published events: the invariant \<open>spsc_inv\<close>, that each
  operation keeps it, and what it does to the queue \<open>spsc_queue\<close> of events in flight.
\<close>

section \<open>Shared state and handles\<close>

record 'a spsc_shared =
  sh_buffer :: "'a ring_buffer"
  producer_cursor :: i64
  consumer_cursor :: i64
  sh_closed :: bool
  strong_count :: nat

record spsc_producer =
  cached_consumer :: i64
  tx_next_sequence :: i64
  tx_capacity :: i64
  tx_claimed :: bool
  tx_cached_disconnected :: bool

record spsc_consumer =
  rx_next_sequence :: i64
  rx_cached_disconnected :: bool

definition spsc_handles ::
    "usize \<Rightarrow> 'a ring_buffer \<Rightarrow> 'a spsc_shared \<times> spsc_producer \<times> spsc_consumer" where
  "spsc_handles capacity buffer =
     (\<lparr>sh_buffer = buffer, producer_cursor = - 1, consumer_cursor = - 1,
       sh_closed = False, strong_count = 2\<rparr>,
      \<lparr>cached_consumer = - 1, tx_next_sequence = 0, tx_capacity = sint capacity,
       tx_claimed = False, tx_cached_disconnected = False\<rparr>,
      \<lparr>rx_next_sequence = 0, rx_cached_disconnected = False\<rparr>)"

definition spsc_channel_with_wait ::
    "usize \<Rightarrow> ('a spsc_shared \<times> spsc_producer \<times> spsc_consumer) run" where
  "spsc_channel_with_wait capacity =
     run_bind (ring_new capacity) (\<lambda>buffer. Done (spsc_handles capacity buffer))"

definition spsc_channel_with_factory ::
    "usize \<Rightarrow> (nat \<Rightarrow> 'a) \<Rightarrow> ('a spsc_shared \<times> spsc_producer \<times> spsc_consumer) run" where
  "spsc_channel_with_factory capacity factory =
     run_bind (ring_with_factory capacity factory) (\<lambda>buffer. Done (spsc_handles capacity buffer))"

text \<open>
  Dropping the shared state drops the unconsumed events; a \<open>None\<close> in the result would be the
  drop of an uninitialised cell.
\<close>

definition spsc_shared_drop :: "'a spsc_shared \<Rightarrow> 'a option list" where
  "spsc_shared_drop sh =
     (let consumer_seq = consumer_cursor sh; producer_seq = producer_cursor sh in
      if producer_seq > consumer_seq
      then map (ring_get (sh_buffer sh)) [consumer_seq + 1..producer_seq]
      else [])"

section \<open>Producer\<close>

definition tx_is_disconnected :: "'a spsc_shared \<Rightarrow> spsc_producer \<Rightarrow> bool \<times> spsc_producer" where
  "tx_is_disconnected sh p =
     (if tx_cached_disconnected p then (True, p)
      else (let disconnected = sh_closed sh \<or> strong_count sh = 1 in
            (disconnected, if disconnected then p\<lparr>tx_cached_disconnected := True\<rparr> else p)))"

fun tx_wait_loop ::
    "i64 \<Rightarrow> 'a spsc_shared list \<Rightarrow> spsc_producer \<Rightarrow>
     ((unit send_error + unit) \<times> spsc_producer \<times> 'a spsc_shared) run" where
  "tx_wait_loop wrap_point [] p = Blocked"
| "tx_wait_loop wrap_point (sh # obs) p =
     (let p1 = p\<lparr>cached_consumer := consumer_cursor sh\<rparr> in
      if cached_consumer p1 \<ge> wrap_point then Done (Inr (), p1, sh)
      else (case tx_is_disconnected sh p1 of
              (True, p2) \<Rightarrow> Done (Inl (SendError ()), p2, sh)
            | (False, p2) \<Rightarrow> tx_wait_loop wrap_point obs p2))"

definition tx_wait_for_space_n ::
    "i64 \<Rightarrow> 'a spsc_shared \<Rightarrow> 'a spsc_shared list \<Rightarrow> spsc_producer \<Rightarrow>
     ((unit send_error + unit) \<times> spsc_producer \<times> 'a spsc_shared) run" where
  "tx_wait_for_space_n n sh obs p =
     (let wrap_point = tx_next_sequence p + n - 1 - tx_capacity p in
      if cached_consumer p \<ge> wrap_point then Done (Inr (), p, sh)
      else tx_wait_loop wrap_point obs p)"

text \<open>The write of the event and the publication of its sequence, shared by both sends.\<close>

definition tx_write_publish ::
    "'a \<Rightarrow> 'a spsc_shared \<Rightarrow> spsc_producer \<Rightarrow> spsc_producer \<times> 'a spsc_shared" where
  "tx_write_publish event sh p =
     (p\<lparr>tx_next_sequence := tx_next_sequence p + 1\<rparr>,
      sh\<lparr>sh_buffer := ring_write (sh_buffer sh) (tx_next_sequence p) event,
         producer_cursor := tx_next_sequence p\<rparr>)"

definition tx_send ::
    "'a \<Rightarrow> 'a spsc_shared \<Rightarrow> 'a spsc_shared list \<Rightarrow> spsc_producer \<Rightarrow>
     (('a send_error + unit) \<times> spsc_producer \<times> 'a spsc_shared) run" where
  "tx_send event sh obs p =
     (if tx_claimed p then Panicked
      else (case tx_is_disconnected sh p of
              (True, p1) \<Rightarrow> Done (Inl (SendError event), p1, sh)
            | (False, p1) \<Rightarrow>
                run_bind (tx_wait_for_space_n 1 sh obs p1)
                  (\<lambda>(r, p2, sh2).
                     case r of
                       Inl _ \<Rightarrow> Done (Inl (SendError event), p2, sh2)
                     | Inr _ \<Rightarrow>
                         (case tx_write_publish event sh2 p2 of
                            (p3, sh3) \<Rightarrow> Done (Inr (), p3, sh3)))))"

text \<open>The double-checked space test of the non-blocking operations.\<close>

definition tx_has_space :: "'a spsc_shared \<Rightarrow> spsc_producer \<Rightarrow> bool \<times> spsc_producer" where
  "tx_has_space sh p =
     (let wrap_point = tx_next_sequence p - tx_capacity p in
      if cached_consumer p < wrap_point
      then (let p1 = p\<lparr>cached_consumer := consumer_cursor sh\<rparr> in
            (\<not> cached_consumer p1 < wrap_point, p1))
      else (True, p))"

definition tx_try_send ::
    "'a \<Rightarrow> 'a spsc_shared \<Rightarrow> spsc_producer \<Rightarrow>
     (('a try_send_error + unit) \<times> spsc_producer \<times> 'a spsc_shared) run" where
  "tx_try_send event sh p =
     (if tx_claimed p then Panicked
      else (case tx_is_disconnected sh p of
              (True, p1) \<Rightarrow> Done (Inl (Disconnected event), p1, sh)
            | (False, p1) \<Rightarrow>
                (case tx_has_space sh p1 of
                   (False, p2) \<Rightarrow> Done (Inl (Full event), p2, sh)
                 | (True, p2) \<Rightarrow>
                     (case tx_write_publish event sh p2 of
                        (p3, sh3) \<Rightarrow> Done (Inr (), p3, sh3)))))"

text \<open>
  A claim returns a reference to the next cell: the value the cell holds, or \<open>None\<close> for a
  reference to an uninitialised cell.
\<close>

definition tx_claim ::
    "'a spsc_shared \<Rightarrow> 'a spsc_shared list \<Rightarrow> spsc_producer \<Rightarrow>
     ((unit send_error + 'a option) \<times> spsc_producer \<times> 'a spsc_shared) run" where
  "tx_claim sh obs p =
     (if tx_claimed p then Panicked
      else (case tx_is_disconnected sh p of
              (True, p1) \<Rightarrow> Done (Inl (SendError ()), p1, sh)
            | (False, p1) \<Rightarrow>
                run_bind (tx_wait_for_space_n 1 sh obs p1)
                  (\<lambda>(r, p2, sh2).
                     case r of
                       Inl _ \<Rightarrow> Done (Inl (SendError ()), p2, sh2)
                     | Inr _ \<Rightarrow>
                         Done (Inr (ring_get (sh_buffer sh2) (tx_next_sequence p2)),
                               p2\<lparr>tx_claimed := True\<rparr>, sh2))))"

definition tx_try_claim ::
    "'a spsc_shared \<Rightarrow> spsc_producer \<Rightarrow>
     ((unit try_send_error + 'a option) \<times> spsc_producer \<times> 'a spsc_shared) run" where
  "tx_try_claim sh p =
     (if tx_claimed p then Panicked
      else (case tx_is_disconnected sh p of
              (True, p1) \<Rightarrow> Done (Inl (Disconnected ()), p1, sh)
            | (False, p1) \<Rightarrow>
                (case tx_has_space sh p1 of
                   (False, p2) \<Rightarrow> Done (Inl (Full ()), p2, sh)
                 | (True, p2) \<Rightarrow>
                     Done (Inr (ring_get (sh_buffer sh) (tx_next_sequence p2)),
                           p2\<lparr>tx_claimed := True\<rparr>, sh))))"

text \<open>
  The caller's assignment through the claimed reference. An assignment through \<open>&mut T\<close> drops
  the value that was there, which is returned, so it is undefined on an uninitialised cell.
\<close>

definition tx_claimed_write ::
    "'a \<Rightarrow> 'a spsc_shared \<Rightarrow> spsc_producer \<Rightarrow> ('a \<times> 'a spsc_shared) run" where
  "tx_claimed_write event sh p =
     run_bind (unsafe_run (ring_write_and_drop (sh_buffer sh) (tx_next_sequence p) event))
       (\<lambda>(old, buffer). Done (old, sh\<lparr>sh_buffer := buffer\<rparr>))"

definition tx_publish ::
    "'a spsc_shared \<Rightarrow> spsc_producer \<Rightarrow> (spsc_producer \<times> 'a spsc_shared) run" where
  "tx_publish sh p =
     (if \<not> tx_claimed p then Panicked
      else Done (p\<lparr>tx_next_sequence := tx_next_sequence p + 1, tx_claimed := False\<rparr>,
                 sh\<lparr>producer_cursor := tx_next_sequence p\<rparr>))"

definition tx_close :: "'a spsc_shared \<Rightarrow> 'a spsc_shared" where
  "tx_close sh = sh\<lparr>sh_closed := True\<rparr>"

definition tx_available_slots :: "'a spsc_shared \<Rightarrow> spsc_producer \<Rightarrow> usize" where
  "tx_available_slots sh p =
     (let pending = tx_next_sequence p - consumer_cursor sh - 1 in
      if pending < 0 then word_of_int (tx_capacity p)
      else sat_sub (word_of_int (tx_capacity p)) (word_of_int pending))"

text \<open>Dropping a handle closes the channel and releases its share of the \<open>Arc\<close>.\<close>

definition tx_drop :: "'a spsc_shared \<Rightarrow> 'a spsc_shared" where
  "tx_drop sh = (tx_close sh)\<lparr>strong_count := strong_count sh - 1\<rparr>"

section \<open>Batches\<close>

record batch_slots =
  batch_start :: i64
  batch_count :: nat
  batch_published :: bool

definition tx_claim_batch ::
    "nat \<Rightarrow> 'a spsc_shared \<Rightarrow> 'a spsc_shared list \<Rightarrow> spsc_producer \<Rightarrow>
     ((unit send_error + batch_slots) \<times> spsc_producer \<times> 'a spsc_shared) run" where
  "tx_claim_batch n sh obs p =
     (if tx_claimed p \<or> n = 0 \<or> \<not> int n \<le> tx_capacity p then Panicked
      else (case tx_is_disconnected sh p of
              (True, p1) \<Rightarrow> Done (Inl (SendError ()), p1, sh)
            | (False, p1) \<Rightarrow>
                run_bind (tx_wait_for_space_n (int n) sh obs p1)
                  (\<lambda>(r, p2, sh2).
                     case r of
                       Inl e \<Rightarrow> Done (Inl e, p2, sh2)
                     | Inr _ \<Rightarrow>
                         (let start = tx_next_sequence p2 in
                          Done (Inr \<lparr>batch_start = start, batch_count = n, batch_published = False\<rparr>,
                                p2\<lparr>tx_next_sequence := tx_next_sequence p2 + int n\<rparr>, sh2)))))"

definition tx_try_claim_batch ::
    "nat \<Rightarrow> 'a spsc_shared \<Rightarrow> spsc_producer \<Rightarrow>
     ((unit try_send_error + batch_slots) \<times> spsc_producer \<times> 'a spsc_shared) run" where
  "tx_try_claim_batch n sh p =
     (if tx_claimed p \<or> n = 0 \<or> \<not> int n \<le> tx_capacity p then Panicked
      else (case tx_is_disconnected sh p of
              (True, p1) \<Rightarrow> Done (Inl (Disconnected ()), p1, sh)
            | (False, p1) \<Rightarrow>
                (let wrap_point = tx_next_sequence p1 + int n - 1 - tx_capacity p1;
                     p2 = p1\<lparr>cached_consumer := consumer_cursor sh\<rparr> in
                 if cached_consumer p2 < wrap_point then Done (Inl (Full ()), p2, sh)
                 else (let start = tx_next_sequence p2 in
                       Done (Inr \<lparr>batch_start = start, batch_count = n, batch_published = False\<rparr>,
                             p2\<lparr>tx_next_sequence := tx_next_sequence p2 + int n\<rparr>, sh)))))"

text \<open>
  \<open>get_mut\<close> and the caller's assignment through it, with the value it drops; \<open>get\<close> reads the
  cell. Both are undefined on an uninitialised cell.
\<close>

definition batch_set ::
    "batch_slots \<Rightarrow> nat \<Rightarrow> 'a \<Rightarrow> 'a spsc_shared \<Rightarrow> ('a \<times> 'a spsc_shared) run" where
  "batch_set b i event sh =
     (if \<not> i < batch_count b then Panicked
      else run_bind (unsafe_run (ring_write_and_drop (sh_buffer sh) (batch_start b + int i) event))
             (\<lambda>(old, buffer). Done (old, sh\<lparr>sh_buffer := buffer\<rparr>)))"

definition batch_get :: "batch_slots \<Rightarrow> nat \<Rightarrow> 'a spsc_shared \<Rightarrow> 'a run" where
  "batch_get b i sh =
     (if \<not> i < batch_count b then Panicked
      else unsafe_run (ring_get (sh_buffer sh) (batch_start b + int i)))"

definition batch_do_publish :: "batch_slots \<Rightarrow> 'a spsc_shared \<Rightarrow> batch_slots \<times> 'a spsc_shared" where
  "batch_do_publish b sh =
     (if \<not> batch_published b
      then (b\<lparr>batch_published := True\<rparr>,
            sh\<lparr>producer_cursor := batch_start b + int (batch_count b) - 1\<rparr>)
      else (b, sh))"

text \<open>The iterator over the cells of a batch: its state is the current and the end sequence.\<close>

fun batch_iter_next :: "i64 \<times> i64 \<Rightarrow> i64 option \<times> i64 \<times> i64" where
  "batch_iter_next (current, end) =
     (if current < end then (Some current, current + 1, end) else (None, current, end))"

section \<open>Consumer\<close>

definition rx_is_disconnected :: "'a spsc_shared \<Rightarrow> spsc_consumer \<Rightarrow> bool \<times> spsc_consumer" where
  "rx_is_disconnected sh c =
     (if rx_cached_disconnected c then (True, c)
      else (let disconnected = sh_closed sh \<or> strong_count sh = 1 in
            (disconnected, if disconnected then c\<lparr>rx_cached_disconnected := True\<rparr> else c)))"

text \<open>The move of the next event out of the buffer and the consumer cursor update.\<close>

definition rx_take ::
    "'a spsc_shared \<Rightarrow> spsc_consumer \<Rightarrow> ('a \<times> spsc_consumer \<times> 'a spsc_shared) run" where
  "rx_take sh c =
     run_bind (unsafe_run (ring_read (sh_buffer sh) (rx_next_sequence c)))
       (\<lambda>(event, buffer).
          Done (event, c\<lparr>rx_next_sequence := rx_next_sequence c + 1\<rparr>,
                sh\<lparr>sh_buffer := buffer, consumer_cursor := rx_next_sequence c\<rparr>))"

text \<open>
  The loads of one round of \<open>recv\<close>, in order: the relaxed poll of the cursor, the
  disconnection check, the final check of the cursor after it, and the loads of the wait
  strategy, which spins on the cursor alone.
\<close>

datatype recv_phase = Poll | CheckClosed | FinalCheck | Waiting

fun rx_recv_loop ::
    "recv_phase \<Rightarrow> 'a spsc_shared list \<Rightarrow> spsc_consumer \<Rightarrow>
     ((recv_error + 'a) \<times> spsc_consumer \<times> 'a spsc_shared) run" where
  "rx_recv_loop ph [] c = Blocked"
| "rx_recv_loop Poll (sh # obs) c =
     (if producer_cursor sh \<ge> rx_next_sequence c
      then run_bind (rx_take sh c) (\<lambda>(event, c', sh'). Done (Inr event, c', sh'))
      else rx_recv_loop CheckClosed obs c)"
| "rx_recv_loop CheckClosed (sh # obs) c =
     (case rx_is_disconnected sh c of
        (True, c') \<Rightarrow> rx_recv_loop FinalCheck obs c'
      | (False, c') \<Rightarrow> rx_recv_loop Waiting obs c')"
| "rx_recv_loop FinalCheck (sh # obs) c =
     (if producer_cursor sh \<ge> rx_next_sequence c then rx_recv_loop Poll obs c
      else Done (Inl RecvError, c, sh))"
| "rx_recv_loop Waiting (sh # obs) c =
     (if producer_cursor sh \<ge> rx_next_sequence c then rx_recv_loop Poll obs c
      else rx_recv_loop Waiting obs c)"

definition rx_recv ::
    "'a spsc_shared list \<Rightarrow> spsc_consumer \<Rightarrow>
     ((recv_error + 'a) \<times> spsc_consumer \<times> 'a spsc_shared) run" where
  "rx_recv obs c = rx_recv_loop Poll obs c"

text \<open>
  \<open>try_recv\<close> and \<open>peek\<close> observe the cursor first (state \<open>sh\<close>) and, when nothing is available,
  the closed flag and the strong count (state \<open>sh2\<close>).
\<close>

definition rx_not_available ::
    "'a spsc_shared \<Rightarrow> spsc_consumer \<Rightarrow> try_recv_error \<times> spsc_consumer" where
  "rx_not_available sh2 c =
     (case rx_is_disconnected sh2 c of
        (True, c') \<Rightarrow> (RecvDisconnected, c')
      | (False, c') \<Rightarrow> (RecvEmpty, c'))"

definition rx_try_recv ::
    "'a spsc_shared \<Rightarrow> 'a spsc_shared \<Rightarrow> spsc_consumer \<Rightarrow>
     ((try_recv_error + 'a) \<times> spsc_consumer \<times> 'a spsc_shared) run" where
  "rx_try_recv sh sh2 c =
     (if \<not> producer_cursor sh \<ge> rx_next_sequence c
      then (case rx_not_available sh2 c of (e, c') \<Rightarrow> Done (Inl e, c', sh2))
      else run_bind (rx_take sh c) (\<lambda>(event, c', sh'). Done (Inr event, c', sh')))"

definition rx_peek ::
    "'a spsc_shared \<Rightarrow> 'a spsc_shared \<Rightarrow> spsc_consumer \<Rightarrow>
     ((try_recv_error + 'a) \<times> spsc_consumer) run" where
  "rx_peek sh sh2 c =
     (if \<not> producer_cursor sh \<ge> rx_next_sequence c
      then (case rx_not_available sh2 c of (e, c') \<Rightarrow> Done (Inl e, c'))
      else run_bind (unsafe_run (ring_get (sh_buffer sh) (rx_next_sequence c)))
             (\<lambda>event. Done (Inr event, c)))"

definition rx_close :: "'a spsc_shared \<Rightarrow> 'a spsc_shared" where
  "rx_close sh = sh\<lparr>sh_closed := True\<rparr>"

definition rx_pending :: "'a spsc_shared \<Rightarrow> spsc_consumer \<Rightarrow> nat" where
  "rx_pending sh c =
     (let diff = producer_cursor sh - rx_next_sequence c + 1 in
      if diff < 0 then 0 else nat diff)"

definition rx_has_pending :: "'a spsc_shared \<Rightarrow> spsc_consumer \<Rightarrow> bool" where
  "rx_has_pending sh c \<longleftrightarrow> producer_cursor sh \<ge> rx_next_sequence c"

definition rx_poll ::
    "'a spsc_shared \<Rightarrow> spsc_consumer \<Rightarrow>
     (('a \<times> i64 \<times> bool) list \<times> nat \<times> spsc_consumer \<times> 'a spsc_shared) run" where
  "rx_poll sh c =
     (let available = producer_cursor sh in
      if available < rx_next_sequence c then Done ([], 0, c, sh)
      else (let count = nat (available - rx_next_sequence c + 1) in
            run_bind (poll_calls (sh_buffer sh) (rx_next_sequence c) count)
              (\<lambda>calls.
                 let last_seq = rx_next_sequence c + int count - 1 in
                 Done (calls, count, c\<lparr>rx_next_sequence := rx_next_sequence c + int count\<rparr>,
                       sh\<lparr>consumer_cursor := last_seq\<rparr>))))"

text \<open>The body of the batch receives: \<open>count\<close> moves and one cursor update.\<close>

definition rx_take_n ::
    "nat \<Rightarrow> 'a spsc_shared \<Rightarrow> spsc_consumer \<Rightarrow> ('a list \<times> spsc_consumer \<times> 'a spsc_shared) run" where
  "rx_take_n count sh c =
     run_bind (unsafe_run (ring_read_n (sh_buffer sh) (rx_next_sequence c) count))
       (\<lambda>(events, buffer).
          let last_seq = rx_next_sequence c + int count - 1 in
          Done (events, c\<lparr>rx_next_sequence := rx_next_sequence c + int count\<rparr>,
                sh\<lparr>sh_buffer := buffer, consumer_cursor := last_seq\<rparr>))"

definition rx_try_recv_batch ::
    "nat \<Rightarrow> 'a spsc_shared \<Rightarrow> 'a spsc_shared \<Rightarrow> spsc_consumer \<Rightarrow>
     ((try_recv_error + 'a list) \<times> spsc_consumer \<times> 'a spsc_shared) run" where
  "rx_try_recv_batch out_len sh sh2 c =
     (if out_len = 0 then Done (Inr [], c, sh)
      else (let available = producer_cursor sh in
            if available < rx_next_sequence c
            then (case rx_not_available sh2 c of (e, c') \<Rightarrow> Done (Inl e, c', sh2))
            else (let available_count = nat (available - rx_next_sequence c + 1);
                      count = min out_len available_count in
                  run_bind (rx_take_n count sh c)
                    (\<lambda>(events, c', sh'). Done (Inr events, c', sh')))))"

text \<open>
  \<open>recv_batch\<close> and \<open>recv_all\<close> share the waiting rounds of \<open>recv\<close>; they differ in how many
  of the available events they take.
\<close>

fun rx_recv_many_loop ::
    "(nat \<Rightarrow> nat) \<Rightarrow> recv_phase \<Rightarrow> 'a spsc_shared list \<Rightarrow> spsc_consumer \<Rightarrow>
     ((recv_error + 'a list) \<times> spsc_consumer \<times> 'a spsc_shared) run" where
  "rx_recv_many_loop quota ph [] c = Blocked"
| "rx_recv_many_loop quota Poll (sh # obs) c =
     (if producer_cursor sh \<ge> rx_next_sequence c
      then (let available_count = nat (producer_cursor sh - rx_next_sequence c + 1) in
            run_bind (rx_take_n (quota available_count) sh c)
              (\<lambda>(events, c', sh'). Done (Inr events, c', sh')))
      else rx_recv_many_loop quota CheckClosed obs c)"
| "rx_recv_many_loop quota CheckClosed (sh # obs) c =
     (case rx_is_disconnected sh c of
        (True, c') \<Rightarrow> rx_recv_many_loop quota FinalCheck obs c'
      | (False, c') \<Rightarrow> rx_recv_many_loop quota Waiting obs c')"
| "rx_recv_many_loop quota FinalCheck (sh # obs) c =
     (if producer_cursor sh \<ge> rx_next_sequence c then rx_recv_many_loop quota Poll obs c
      else Done (Inl RecvError, c, sh))"
| "rx_recv_many_loop quota Waiting (sh # obs) c =
     (if producer_cursor sh \<ge> rx_next_sequence c then rx_recv_many_loop quota Poll obs c
      else rx_recv_many_loop quota Waiting obs c)"

definition rx_recv_batch ::
    "nat \<Rightarrow> 'a spsc_shared \<Rightarrow> 'a spsc_shared list \<Rightarrow> spsc_consumer \<Rightarrow>
     ((recv_error + 'a list) \<times> spsc_consumer \<times> 'a spsc_shared) run" where
  "rx_recv_batch out_len sh obs c =
     (if out_len = 0 then Done (Inr [], c, sh)
      else rx_recv_many_loop (min out_len) Poll obs c)"

definition rx_recv_all ::
    "'a spsc_shared list \<Rightarrow> spsc_consumer \<Rightarrow>
     ((recv_error + 'a list) \<times> spsc_consumer \<times> 'a spsc_shared) run" where
  "rx_recv_all obs c = rx_recv_many_loop (\<lambda>n. n) Poll obs c"

definition rx_drop :: "'a spsc_shared \<Rightarrow> 'a spsc_shared" where
  "rx_drop sh = (rx_close sh)\<lparr>strong_count := strong_count sh - 1\<rparr>"

section \<open>Invariant\<close>

text \<open>
  The published events are the sequences from the consumer's next one to the producer cursor;
  their cells are initialised. The producer may have claimed further sequences, never more
  than a lap beyond the consumer, and its cached copy of the consumer cursor is a past value.
\<close>

definition spsc_inv :: "'a spsc_shared \<Rightarrow> spsc_producer \<Rightarrow> spsc_consumer \<Rightarrow> bool" where
  "spsc_inv sh p c \<longleftrightarrow>
     ring_wf (sh_buffer sh) \<and> tx_capacity p = ring_size (sh_buffer sh) \<and>
     consumer_cursor sh = rx_next_sequence c - 1 \<and> cached_consumer p \<le> consumer_cursor sh \<and>
     0 \<le> rx_next_sequence c \<and> rx_next_sequence c \<le> producer_cursor sh + 1 \<and>
     producer_cursor sh < tx_next_sequence p \<and>
     tx_next_sequence p \<le> rx_next_sequence c + tx_capacity p \<and>
     ring_init (sh_buffer sh) (rx_next_sequence c) (producer_cursor sh + 1)"

text \<open>No batch is outstanding: every claimed sequence has been published.\<close>

definition spsc_settled :: "'a spsc_shared \<Rightarrow> spsc_producer \<Rightarrow> bool" where
  "spsc_settled sh p \<longleftrightarrow> producer_cursor sh + 1 = tx_next_sequence p"

definition spsc_queue :: "'a spsc_shared \<Rightarrow> spsc_consumer \<Rightarrow> 'a list" where
  "spsc_queue sh c =
     ring_contents (sh_buffer sh) (rx_next_sequence c) (producer_cursor sh + 1)"

text \<open>Both handles are alive, nobody has closed the channel and no claim is open.\<close>

definition spsc_open :: "'a spsc_shared \<Rightarrow> spsc_producer \<Rightarrow> spsc_consumer \<Rightarrow> bool" where
  "spsc_open sh p c \<longleftrightarrow>
     \<not> sh_closed sh \<and> strong_count sh = 2 \<and> \<not> tx_cached_disconnected p \<and>
     \<not> rx_cached_disconnected c \<and> \<not> tx_claimed p"

lemmas spsc_defs = spsc_inv_def spsc_settled_def spsc_queue_def

text \<open>
  The capacity is cast to \<open>i64\<close>; a buffer of \<open>2 ^ 63\<close> slots cannot be allocated, so the cast
  is exact.
\<close>

lemma spsc_handles_inv:
  assumes "ring_wf rb" "rb_capacity rb = capacity" "capacity \<noteq> 2 ^ 63"
    "spsc_handles capacity rb = (sh, p, c)"
  shows "spsc_inv sh p c" "spsc_settled sh p" "spsc_queue sh c = []" "spsc_open sh p c"
    "sh_buffer sh = rb"
proof -
  obtain k where k: "k < 64" "capacity = 2 ^ k"
    using assms(1,2) by (auto simp: ring_wf_def is_power_of_two_iff)
  have "k \<noteq> 63" using assms(3) k(2) by auto
  with k(1) have "k < 63" by simp
  with k have "sint capacity = uint capacity" by (simp add: sint_pow2 uint_pow2)
  then show "spsc_inv sh p c" "spsc_settled sh p" "spsc_queue sh c = []" "spsc_open sh p c"
    "sh_buffer sh = rb"
    using assms ring_wf_size_pos [OF assms(1)]
    by (auto simp: spsc_handles_def spsc_defs spsc_open_def)
qed

lemma spsc_handle_flags [simp]:
  "spsc_inv sh (p\<lparr>tx_cached_disconnected := d\<rparr>) c = spsc_inv sh p c"
  "spsc_settled sh (p\<lparr>tx_cached_disconnected := d\<rparr>) = spsc_settled sh p"
  "spsc_inv sh (p\<lparr>tx_claimed := b\<rparr>) c = spsc_inv sh p c"
  "spsc_settled sh (p\<lparr>tx_claimed := b\<rparr>) = spsc_settled sh p"
  "spsc_inv sh p (c\<lparr>rx_cached_disconnected := d\<rparr>) = spsc_inv sh p c"
  "spsc_queue sh (c\<lparr>rx_cached_disconnected := d\<rparr>) = spsc_queue sh c"
  by (simp_all add: spsc_defs)

lemma spsc_inv_init: "spsc_inv sh p c \<Longrightarrow> ring_wf (sh_buffer sh)"
  by (simp add: spsc_inv_def)

lemma length_spsc_queue:
  "length (spsc_queue sh c) = nat (producer_cursor sh + 1 - rx_next_sequence c)"
  by (simp add: spsc_queue_def)

lemma spsc_queue_bounded:
  "spsc_inv sh p c \<Longrightarrow> length (spsc_queue sh c) \<le> unat (rb_capacity (sh_buffer sh))"
  by (simp add: spsc_defs nat_le_iff)

section \<open>Producer operations\<close>

lemma tx_is_disconnected_cases:
  assumes "tx_is_disconnected sh p = (d, p')"
  shows "d \<longleftrightarrow> tx_cached_disconnected p \<or> sh_closed sh \<or> strong_count sh = 1"
    "p' = p\<lparr>tx_cached_disconnected := d\<rparr>"
  using assms by (auto simp: tx_is_disconnected_def Let_def split: if_splits)

lemma tx_write_publish_spec:
  assumes "spsc_inv sh p c" "spsc_settled sh p" "tx_next_sequence p - tx_capacity p \<le> consumer_cursor sh"
    "tx_write_publish e sh p = (p', sh')"
  shows "spsc_inv sh' p' c" "spsc_settled sh' p'" "spsc_queue sh' c = spsc_queue sh c @ [e]"
    "p' = p\<lparr>tx_next_sequence := tx_next_sequence p + 1\<rparr>"
    "sh_closed sh' = sh_closed sh" "strong_count sh' = strong_count sh"
    "consumer_cursor sh' = consumer_cursor sh"
    "rb_capacity (sh_buffer sh') = rb_capacity (sh_buffer sh)"
proof -
  let ?rb = "sh_buffer sh" and ?i = "rx_next_sequence c" and ?j = "tx_next_sequence p"
  have j: "producer_cursor sh + 1 = ?j" using assms(2) by (simp add: spsc_settled_def)
  have w: "ring_wf ?rb" "ring_init ?rb ?i ?j" "?i \<le> ?j" "?j < ?i + ring_size ?rb"
    using assms(1,3) j by (auto simp: spsc_inv_def)
  note c = ring_init_write [OF w(1,2,4), of e] ring_contents_write [OF w(1,3,4), of e]
  show "spsc_inv sh' p' c" "spsc_settled sh' p'" "spsc_queue sh' c = spsc_queue sh c @ [e]"
    "p' = p\<lparr>tx_next_sequence := tx_next_sequence p + 1\<rparr>"
    "sh_closed sh' = sh_closed sh" "strong_count sh' = strong_count sh"
    "consumer_cursor sh' = consumer_cursor sh"
    "rb_capacity (sh_buffer sh') = rb_capacity (sh_buffer sh)"
    using assms c w j by (auto simp: tx_write_publish_def spsc_defs)
qed

lemma spsc_room:
  "spsc_inv sh p c \<Longrightarrow> spsc_settled sh p \<Longrightarrow>
     length (spsc_queue sh c) < unat (rb_capacity (sh_buffer sh)) \<longleftrightarrow>
     tx_next_sequence p - tx_capacity p \<le> consumer_cursor sh"
  by (auto simp: spsc_defs nat_less_iff)

text \<open>The non-blocking space test is exact: it says full only when the queue is full.\<close>

lemma tx_has_space_spec:
  assumes "spsc_inv sh p c" "spsc_settled sh p" "tx_has_space sh p = (ok, p')"
  shows "spsc_inv sh p' c" "spsc_settled sh p'"
    "ok \<longleftrightarrow> length (spsc_queue sh c) < unat (rb_capacity (sh_buffer sh))"
    "ok \<Longrightarrow> tx_next_sequence p' - tx_capacity p' \<le> consumer_cursor sh"
    "p' = p\<lparr>cached_consumer := cached_consumer p'\<rparr>"
proof -
  note spsc_room [OF assms(1,2)]
  then show "spsc_inv sh p' c" "spsc_settled sh p'"
    "ok \<longleftrightarrow> length (spsc_queue sh c) < unat (rb_capacity (sh_buffer sh))"
    "ok \<Longrightarrow> tx_next_sequence p' - tx_capacity p' \<le> consumer_cursor sh"
    "p' = p\<lparr>cached_consumer := cached_consumer p'\<rparr>"
    using assms by (auto simp: tx_has_space_def Let_def spsc_inv_def spsc_settled_def split: if_splits)
qed

text \<open>What \<open>try_send\<close> answers: disconnected first, then full, and otherwise it appends.\<close>

lemma tx_try_send_spec:
  assumes "spsc_inv sh p c" "spsc_settled sh p" "\<not> tx_claimed p"
  obtains r p' sh' where "tx_try_send e sh p = Done (r, p', sh')" "spsc_inv sh' p' c"
    "spsc_settled sh' p'" "\<not> tx_claimed p'"
    "rb_capacity (sh_buffer sh') = rb_capacity (sh_buffer sh)"
    "sh_closed sh' = sh_closed sh" "strong_count sh' = strong_count sh"
    "consumer_cursor sh' = consumer_cursor sh"
    "tx_cached_disconnected p' \<longleftrightarrow> tx_cached_disconnected p \<or> sh_closed sh \<or> strong_count sh = 1"
    "r = (if tx_cached_disconnected p' then Inl (Disconnected e)
          else if length (spsc_queue sh c) = unat (rb_capacity (sh_buffer sh)) then Inl (Full e)
          else Inr ())"
    "spsc_queue sh' c = (if r = Inr () then spsc_queue sh c @ [e] else spsc_queue sh c)"
proof -
  obtain d p1 where d: "tx_is_disconnected sh p = (d, p1)" by (cases "tx_is_disconnected sh p")
  note dd = tx_is_disconnected_cases [OF d]
  have p1: "spsc_inv sh p1 c" "spsc_settled sh p1"
    using assms(1,2) dd(2) by simp_all
  show thesis
  proof (cases d)
    case True
    with assms d dd p1 show ?thesis
      by (intro that [of "Inl (Disconnected e)" p1 sh]) (auto simp: tx_try_send_def)
  next
    case False
    obtain ok p2 where h: "tx_has_space sh p1 = (ok, p2)" by (cases "tx_has_space sh p1")
    note hh = tx_has_space_spec [OF p1 h]
    obtain p3 sh3 where w: "tx_write_publish e sh p2 = (p3, sh3)"
      by (cases "tx_write_publish e sh p2")
    have p2: "\<not> tx_claimed p2" "\<not> tx_cached_disconnected p2"
      using False assms(3) dd(2) by (subst hh(5), simp)+
    note le = spsc_queue_bounded [OF hh(1)]
    show ?thesis
    proof (cases ok)
      case True
      note ww = tx_write_publish_spec [OF hh(1,2) hh(4) [OF True] w]
      have p3: "\<not> tx_claimed p3" "\<not> tx_cached_disconnected p3"
        using p2 by (subst ww(4), simp)+
      have nf: "length (spsc_queue sh c) < unat (rb_capacity (sh_buffer sh))" using True hh(3) by simp
      show ?thesis
        by (rule that [of "Inr ()" p3 sh3])
          (use ww p3 nf True False assms(3) d dd h w in \<open>auto simp: tx_try_send_def\<close>)
    next
      case nok: False
      then have "length (spsc_queue sh c) = unat (rb_capacity (sh_buffer sh))" using hh(3) le by simp
      then show ?thesis
        by (intro that [of "Inl (Full e)" p2 sh])
          (use p2 nok False assms(3) d dd h hh in \<open>auto simp: tx_try_send_def\<close>)
    qed
  qed
qed

text \<open>
  The spin loop returns in a state it observed, with the space it asked for or with the
  channel disconnected.
\<close>

lemma tx_wait_loop_Done:
  "tx_wait_loop wp obs p = Done (r, p', sh') \<Longrightarrow>
     sh' \<in> set obs \<and>
     p' = p\<lparr>cached_consumer := consumer_cursor sh', tx_cached_disconnected := tx_cached_disconnected p'\<rparr> \<and>
     (r = Inr () \<longrightarrow> wp \<le> consumer_cursor sh' \<and> tx_cached_disconnected p' = tx_cached_disconnected p) \<and>
     (r \<noteq> Inr () \<longrightarrow> consumer_cursor sh' < wp \<and> tx_cached_disconnected p' \<and>
        (tx_cached_disconnected p \<or> sh_closed sh' \<or> strong_count sh' = 1))"
proof (induction wp obs p rule: tx_wait_loop.induct)
  case (1 wp p)
  then show ?case by simp
next
  case (2 wp sh obs p)
  let ?p1 = "p\<lparr>cached_consumer := consumer_cursor sh\<rparr>"
  obtain d p2 where d: "tx_is_disconnected sh ?p1 = (d, p2)" by (cases "tx_is_disconnected sh ?p1")
  note dd = tx_is_disconnected_cases [OF d]
  consider (space) "wp \<le> consumer_cursor sh" | (disc) "consumer_cursor sh < wp" d
    | (loop) "consumer_cursor sh < wp" "\<not> d" by linarith
  then show ?case
  proof cases
    case space
    with 2(2) show ?thesis by (auto simp: Let_def)
  next
    case disc
    with 2(2) d dd show ?thesis by (auto simp: Let_def)
  next
    case loop
    have IH: "tx_wait_loop wp obs p2 = Done (r, p', sh')" using 2(2) loop d by (simp add: Let_def)
    have "\<not> tx_cached_disconnected p" using dd loop by simp
    with 2(1) [of ?p1 d p2] IH loop d dd show ?thesis by (auto simp: Let_def)
  qed
qed

lemma tx_wait_for_space_Done:
  assumes "tx_wait_for_space_n n sh obs p = Done (r, p', sh')"
  shows "sh' \<in> insert sh (set obs)"
    "p' = p\<lparr>cached_consumer := cached_consumer p', tx_cached_disconnected := tx_cached_disconnected p'\<rparr>"
    "cached_consumer p' = cached_consumer p \<or> cached_consumer p' = consumer_cursor sh'"
    "r = Inr () \<Longrightarrow> tx_next_sequence p + n - 1 - tx_capacity p \<le> cached_consumer p' \<and>
        tx_cached_disconnected p' = tx_cached_disconnected p"
    "r \<noteq> Inr () \<Longrightarrow> tx_cached_disconnected p' \<and>
        (tx_cached_disconnected p \<or> sh_closed sh' \<or> strong_count sh' = 1)"
proof -
  let ?wp = "tx_next_sequence p + n - 1 - tx_capacity p"
  have "if ?wp \<le> cached_consumer p then r = Inr () \<and> p' = p \<and> sh' = sh
        else tx_wait_loop ?wp obs p = Done (r, p', sh')"
    using assms by (auto simp: tx_wait_for_space_n_def Let_def split: if_splits)
  then show "sh' \<in> insert sh (set obs)"
    "p' = p\<lparr>cached_consumer := cached_consumer p', tx_cached_disconnected := tx_cached_disconnected p'\<rparr>"
    "cached_consumer p' = cached_consumer p \<or> cached_consumer p' = consumer_cursor sh'"
    "r = Inr () \<Longrightarrow> tx_next_sequence p + n - 1 - tx_capacity p \<le> cached_consumer p' \<and>
        tx_cached_disconnected p' = tx_cached_disconnected p"
    "r \<noteq> Inr () \<Longrightarrow> tx_cached_disconnected p' \<and>
        (tx_cached_disconnected p \<or> sh_closed sh' \<or> strong_count sh' = 1)"
    using tx_wait_loop_Done [of ?wp obs p r p' sh']
    by (auto split: if_splits)
qed

text \<open>
  The loop does end: as soon as an observed state has room or is disconnected, the wait has
  returned.
\<close>

lemma tx_wait_loop_returns:
  "(\<exists>sh \<in> set obs. wp \<le> consumer_cursor sh \<or> sh_closed sh \<or> strong_count sh = 1) \<Longrightarrow>
     \<exists>r p' sh'. tx_wait_loop wp obs p = Done (r, p', sh')"
proof (induction wp obs p rule: tx_wait_loop.induct)
  case (2 wp sh obs p)
  let ?p1 = "p\<lparr>cached_consumer := consumer_cursor sh\<rparr>"
  obtain d p2 where d: "tx_is_disconnected sh ?p1 = (d, p2)" by (cases "tx_is_disconnected sh ?p1")
  show ?case
  proof (cases "wp \<le> consumer_cursor sh \<or> d")
    case True
    with d show ?thesis by (auto simp: Let_def)
  next
    case False
    then have "\<exists>sh \<in> set obs. wp \<le> consumer_cursor sh \<or> sh_closed sh \<or> strong_count sh = 1"
      using 2(2) tx_is_disconnected_cases(1) [OF d] by auto
    with 2(1) [of ?p1 d p2] False d show ?thesis by (auto simp: Let_def)
  qed
qed simp

text \<open>
  What a blocking \<open>send\<close> does when it returns: it appends the event in the last state it
  observed, or it hands the event back because the channel is disconnected.
\<close>

lemma spsc_inv_wait:
  assumes "tx_wait_for_space_n n sh obs p = Done (r, p', sh')" "spsc_inv sh' p c" "spsc_settled sh' p"
  shows "spsc_inv sh' p' c" "spsc_settled sh' p'"
    "r = Inr () \<Longrightarrow> tx_next_sequence p' + n - 1 - tx_capacity p' \<le> consumer_cursor sh'"
proof -
  note w = tx_wait_for_space_Done [OF assms(1)]
  have f: "tx_next_sequence p' = tx_next_sequence p" "tx_capacity p' = tx_capacity p"
    by (subst w(2), simp)+
  have "cached_consumer p' \<le> consumer_cursor sh'" using w(3) assms(2) by (auto simp: spsc_inv_def)
  with f w(4) assms(2,3) show "spsc_inv sh' p' c" "spsc_settled sh' p'"
    "r = Inr () \<Longrightarrow> tx_next_sequence p' + n - 1 - tx_capacity p' \<le> consumer_cursor sh'"
    by (auto simp: spsc_inv_def spsc_settled_def)
qed

lemma tx_send_spec:
  assumes "tx_send e sh obs p = Done (r, p', sh')"
    and "\<And>s. s \<in> insert sh (set obs) \<Longrightarrow> spsc_settled s p \<and> spsc_inv s p (reader s)"
  obtains s where "s \<in> insert sh (set obs)" "spsc_inv sh' p' (reader s)" "spsc_settled sh' p'"
    "r = Inr () \<Longrightarrow> spsc_queue sh' (reader s) = spsc_queue s (reader s) @ [e]"
    "r \<noteq> Inr () \<Longrightarrow> r = Inl (SendError e) \<and> sh' = s \<and>
       (tx_cached_disconnected p \<or> sh_closed s \<or> strong_count s = 1)"
proof -
  obtain d p1 where d: "tx_is_disconnected sh p = (d, p1)" by (cases "tx_is_disconnected sh p")
  note dd = tx_is_disconnected_cases [OF d]
  have p1: "spsc_settled s p1 \<and> spsc_inv s p1 (reader s)" if "s \<in> insert sh (set obs)" for s
    using assms(2) [OF that] dd(2) by simp
  show thesis
  proof (cases d)
    case True
    with assms(1) d dd p1 [of sh] show ?thesis
      by (intro that [of sh]) (auto simp: tx_send_def split: if_splits)
  next
    case False
    obtain r2 p2 s where w: "tx_wait_for_space_n 1 sh obs p1 = Done (r2, p2, s)"
      using assms(1) d False by (auto simp: tx_send_def run_bind_eq_Done split: if_splits)
    note ww = tx_wait_for_space_Done [OF w]
    note s = ww(1) and ps = p1 [OF ww(1)]
    note wi = spsc_inv_wait [OF w]
    show ?thesis
    proof (cases r2)
      case (Inl x)
      with assms(1) d False w have "r = Inl (SendError e)" "p' = p2" "sh' = s"
        by (auto simp: tx_send_def split: if_splits)
      with Inl False ww(5) wi ps dd s show ?thesis by (intro that [of s]) auto
    next
      case (Inr x)
      obtain p3 sh3 where pub: "tx_write_publish e s p2 = (p3, sh3)"
        by (cases "tx_write_publish e s p2")
      with assms(1) d False w Inr have "r = Inr ()" "p' = p3" "sh' = sh3"
        by (auto simp: tx_send_def split: if_splits)
      moreover have sp: "tx_next_sequence p2 - tx_capacity p2 \<le> consumer_cursor s"
        using wi(3) Inr ps by auto
      ultimately show ?thesis
        using tx_write_publish_spec [OF _ _ sp pub, of "reader s"] wi(1,2) [of "reader s"] ps s
        by (intro that [of s]) auto
    qed
  qed
qed

lemma tx_send_returns:
  assumes "\<not> tx_claimed p" "spsc_inv sh p c"
    and "\<exists>s \<in> set obs. tx_next_sequence p - tx_capacity p \<le> consumer_cursor s \<or> sh_closed s \<or> strong_count s = 1"
  shows "\<exists>r p' sh'. tx_send e sh obs p = Done (r, p', sh')"
proof -
  obtain d p1 where d: "tx_is_disconnected sh p = (d, p1)" by (cases "tx_is_disconnected sh p")
  note dd = tx_is_disconnected_cases [OF d]
  have "\<exists>r p' sh'. tx_wait_for_space_n 1 sh obs p1 = Done (r, p', sh')"
    using tx_wait_loop_returns [of obs "tx_next_sequence p - tx_capacity p" p1] assms(3) dd(2)
    by (auto simp: tx_wait_for_space_n_def Let_def)
  then obtain r p2 s where w: "tx_wait_for_space_n 1 sh obs p1 = Done (r, p2, s)" by blast
  with assms(1) d show ?thesis
    by (cases d; cases r) (auto simp: tx_send_def split: prod.splits)
qed

text \<open>
  The zero-copy path: a claim followed by a write through the reference and a publish is a
  send. A claim leaves the queue alone.
\<close>

lemma tx_try_claim_Inr:
  assumes "tx_try_claim sh p = Done (Inr r, p1, sh1)"
  obtains p0 where "\<not> tx_claimed p0" "p1 = p0\<lparr>tx_claimed := True\<rparr>" "sh1 = sh"
    "r = ring_get (sh_buffer sh) (tx_next_sequence p0)"
    "tx_try_send e sh p = (case tx_write_publish e sh p0 of (p3, sh3) \<Rightarrow> Done (Inr (), p3, sh3))"
proof -
  obtain d p2 where d: "tx_is_disconnected sh p = (d, p2)" by (cases "tx_is_disconnected sh p")
  obtain ok p0 where h: "tx_has_space sh p2 = (ok, p0)" by (cases "tx_has_space sh p2")
  have "tx_claimed p2 = tx_claimed p" using tx_is_disconnected_cases(2) [OF d] by simp
  moreover have "tx_claimed p0 = tx_claimed p2"
    using h by (auto simp: tx_has_space_def Let_def split: if_splits)
  ultimately show thesis
    using assms d h by (intro that [of p0]) (auto simp: tx_try_claim_def tx_try_send_def split: if_splits bool.splits)
qed

lemma tx_try_claim_publish:
  assumes "tx_try_claim sh p = Done (Inr r, p1, sh1)"
  shows "case r of
           None \<Rightarrow> tx_claimed_write e sh1 p1 = Undefined
         | Some old \<Rightarrow> \<exists>sh2. tx_claimed_write e sh1 p1 = Done (old, sh2) \<and>
             tx_try_send e sh p = run_bind (tx_publish sh2 p1) (\<lambda>(p2, sh3). Done (Inr (), p2, sh3))"
proof -
  obtain p0 where p0: "\<not> tx_claimed p0" "p1 = p0\<lparr>tx_claimed := True\<rparr>" "sh1 = sh"
    "r = ring_get (sh_buffer sh) (tx_next_sequence p0)"
    "tx_try_send e sh p = (case tx_write_publish e sh p0 of (p3, sh3) \<Rightarrow> Done (Inr (), p3, sh3))"
    using tx_try_claim_Inr [OF assms] by metis
  moreover have "p0\<lparr>tx_next_sequence := n, tx_claimed := False\<rparr> = p0\<lparr>tx_next_sequence := n\<rparr>" for n
    using p0(1) by simp
  ultimately show ?thesis
    by (cases "ring_slot (sh_buffer sh) (tx_next_sequence p0)")
      (simp_all add: tx_publish_def tx_claimed_write_def tx_write_publish_def ring_get_def
        ring_write_and_drop_def unsafe_run_def)
qed

text \<open>
  A batch: the claim reserves the sequences without changing the queue, and the publish after
  the cells have been assigned appends the whole batch. The assignments drop the old values of
  the cells; the first uninitialised cell makes them undefined.
\<close>

fun batch_fill ::
    "batch_slots \<Rightarrow> nat \<Rightarrow> 'a list \<Rightarrow> 'a spsc_shared \<Rightarrow> ('a list \<times> 'a spsc_shared) run" where
  "batch_fill b i [] sh = Done ([], sh)"
| "batch_fill b i (e # es) sh =
     run_bind (batch_set b i e sh)
       (\<lambda>(old, sh1). run_bind (batch_fill b (Suc i) es sh1) (\<lambda>(olds, sh2). Done (old # olds, sh2)))"

lemma batch_set_Init:
  assumes "i < batch_count b" "ring_slot (sh_buffer sh) (batch_start b + int i) = Init old"
  shows "batch_set b i e sh =
    Done (old, sh\<lparr>sh_buffer := ring_write (sh_buffer sh) (batch_start b + int i) e\<rparr>)"
  using assms by (simp add: batch_set_def ring_write_and_drop_def)

lemma batch_set_Uninit:
  assumes "i < batch_count b" "ring_slot (sh_buffer sh) (batch_start b + int i) = Uninit"
  shows "batch_set b i e sh = Undefined"
  using assms by (simp add: batch_set_def ring_write_and_drop_def unsafe_run_def)

lemma ring_write_later:
  assumes "ring_wf rb" "j < s" "s < j + ring_size rb"
  shows "ring_slot (ring_write rb j v) s = ring_slot rb s"
  using ring_index_neq [OF assms] by (simp add: ring_slot_write [OF assms(1)])

lemma ring_contents_write_later:
  assumes "ring_wf rb" "j < i" "k \<le> j + ring_size rb"
  shows "ring_contents (ring_write rb j v) i k = ring_contents rb i k"
  using ring_write_later [OF assms(1), of j _ v] assms(2,3)
  by (simp add: ring_contents_def ring_get_def)

lemma ring_init_write_later:
  assumes "ring_wf rb" "j < i" "k \<le> j + ring_size rb"
  shows "ring_init (ring_write rb j v) i k = ring_init rb i k"
  using ring_write_later [OF assms(1), of j _ v] assms(2,3)
  by (auto simp: ring_init_def)

lemma batch_fill_Undefined:
  "ring_wf (sh_buffer sh) \<Longrightarrow> i + length es = batch_count b \<Longrightarrow>
   int (batch_count b) \<le> ring_size (sh_buffer sh) \<Longrightarrow>
   \<not> ring_init (sh_buffer sh) (batch_start b + int i) (batch_start b + int (batch_count b)) \<Longrightarrow>
   batch_fill b i es sh = Undefined"
proof (induction es arbitrary: i sh)
  case Nil
  then show ?case by simp
next
  case (Cons e es)
  let ?s = "batch_start b + int i" and ?e = "batch_start b + int (batch_count b)"
  have lt: "i < batch_count b" using Cons.prems(2) by simp
  show ?case
  proof (cases "ring_slot (sh_buffer sh) ?s")
    case Uninit
    with lt show ?thesis by (simp add: batch_set_Uninit)
  next
    case (Init old)
    let ?sh1 = "sh\<lparr>sh_buffer := ring_write (sh_buffer sh) ?s e\<rparr>"
    have "\<not> ring_init (sh_buffer sh) (?s + 1) ?e"
      using Cons.prems(4) Init lt ring_init_code [of "sh_buffer sh" ?s ?e] by simp
    then have "\<not> ring_init (sh_buffer ?sh1) (batch_start b + int (Suc i)) ?e"
      using ring_init_write_later [OF Cons.prems(1), of ?s "?s + 1" ?e e] Cons.prems(3)
      by (simp add: algebra_simps)
    with Cons.IH [of ?sh1 "Suc i"] Cons.prems have "batch_fill b (Suc i) es ?sh1 = Undefined" by simp
    with Init lt show ?thesis by (simp add: batch_set_Init)
  qed
qed

lemma batch_fill_spec:
  "ring_wf (sh_buffer sh) \<Longrightarrow> rx \<le> batch_start b + int i \<Longrightarrow> i + length es = batch_count b \<Longrightarrow>
   batch_start b + int (batch_count b) \<le> rx + ring_size (sh_buffer sh) \<Longrightarrow>
   ring_init (sh_buffer sh) rx (batch_start b + int (batch_count b)) \<Longrightarrow>
   \<exists>rb. batch_fill b i es sh =
       Done (ring_contents (sh_buffer sh) (batch_start b + int i) (batch_start b + int (batch_count b)),
             sh\<lparr>sh_buffer := rb\<rparr>) \<and>
     ring_wf rb \<and> rb_capacity rb = rb_capacity (sh_buffer sh) \<and>
     ring_init rb rx (batch_start b + int (batch_count b)) \<and>
     ring_contents rb rx (batch_start b + int (batch_count b)) =
       ring_contents (sh_buffer sh) rx (batch_start b + int i) @ es"
proof (induction es arbitrary: i sh)
  case Nil
  then have "i = batch_count b" by simp
  with Nil show ?case by (intro exI [of _ "sh_buffer sh"]) auto
next
  case (Cons e es)
  let ?s = "batch_start b + int i" and ?e = "batch_start b + int (batch_count b)"
  let ?rb = "sh_buffer sh" and ?rb1 = "ring_write (sh_buffer sh) (batch_start b + int i) e"
  have lt: "i < batch_count b" using Cons.prems(3) by simp
  then have sp: "?s < rx + ring_size ?rb" "?e \<le> ?s + ring_size ?rb" using Cons.prems(2,4) by linarith+
  obtain old where old: "ring_slot ?rb ?s = Init old"
    using Cons.prems(2,5) lt by (cases "ring_slot ?rb ?s") (auto simp: ring_init_def)
  have "ring_init ?rb rx ?s" using Cons.prems(5) lt by (auto simp: ring_init_def)
  then have "ring_init ?rb1 rx (?s + 1)" using ring_init_write [OF Cons.prems(1) _ sp(1)] by blast
  moreover have "ring_init ?rb1 (?s + 1) ?e"
    using ring_init_write_later [OF Cons.prems(1), of ?s "?s + 1" ?e e] sp(2) Cons.prems(2,5)
    by (auto simp: ring_init_def)
  ultimately have "ring_init ?rb1 rx ?e" by (fastforce simp: ring_init_def not_less)
  with Cons.IH [of "sh\<lparr>sh_buffer := ?rb1\<rparr>" "Suc i"] Cons.prems obtain rb where rb:
    "batch_fill b (Suc i) es (sh\<lparr>sh_buffer := ?rb1\<rparr>) = Done (ring_contents ?rb1 (?s + 1) ?e, sh\<lparr>sh_buffer := rb\<rparr>)"
    "ring_wf rb" "rb_capacity rb = rb_capacity ?rb" "ring_init rb rx ?e"
    "ring_contents rb rx ?e = ring_contents ?rb1 rx (?s + 1) @ es"
    by (auto simp: algebra_simps)
  have "ring_contents ?rb1 rx (?s + 1) = ring_contents ?rb rx ?s @ [e]"
    using ring_contents_write [OF Cons.prems(1,2) sp(1), of e] .
  moreover have "ring_contents ?rb ?s ?e = old # ring_contents ?rb1 (?s + 1) ?e"
    using ring_contents_write_later [OF Cons.prems(1), of ?s "?s + 1" ?e e] sp(2) lt old
      ring_contents_code [of ?rb ?s ?e] by simp
  ultimately show ?case using rb lt old by (intro exI [of _ rb]) (simp add: batch_set_Init)
qed

lemma tx_try_claim_batch_Inr:
  assumes "tx_try_claim_batch n sh p = Done (Inr b, p1, sh1)" "spsc_inv sh p c" "spsc_settled sh p"
  shows "sh1 = sh" "b = \<lparr>batch_start = tx_next_sequence p, batch_count = n, batch_published = False\<rparr>"
    "spsc_inv sh p1 c" "tx_next_sequence p1 = tx_next_sequence p + int n" "tx_claimed p1 = tx_claimed p"
    "tx_next_sequence p1 \<le> rx_next_sequence c + tx_capacity p" "n \<noteq> 0"
proof -
  obtain d p2 where d: "tx_is_disconnected sh p = (d, p2)" by (cases "tx_is_disconnected sh p")
  have "p2 = p\<lparr>tx_cached_disconnected := d\<rparr>" using tx_is_disconnected_cases [OF d] by simp
  then show "sh1 = sh" "b = \<lparr>batch_start = tx_next_sequence p, batch_count = n, batch_published = False\<rparr>"
    "spsc_inv sh p1 c" "tx_next_sequence p1 = tx_next_sequence p + int n" "tx_claimed p1 = tx_claimed p"
    "tx_next_sequence p1 \<le> rx_next_sequence c + tx_capacity p" "n \<noteq> 0"
    using assms d
    by (auto simp: tx_try_claim_batch_def Let_def spsc_inv_def spsc_settled_def
        split: if_splits bool.splits)
qed

lemma ring_contents_append:
  "i \<le> j \<Longrightarrow> j \<le> k \<Longrightarrow> ring_contents rb i k = ring_contents rb i j @ ring_contents rb j k"
  using upto_split1 [of i j "k - 1"] by (cases "j = k") (simp_all add: ring_contents_def)

lemma batch_publish_spec:
  assumes claim: "tx_try_claim_batch (length es) sh p = Done (Inr b, p1, sh1)"
    and inv: "spsc_inv sh p c" "spsc_settled sh p"
    and cells: "ring_init (sh_buffer sh) (tx_next_sequence p) (tx_next_sequence p + int (length es))"
  shows "\<exists>sh2 sh3 b'. batch_fill b 0 es sh1 =
       Done (ring_contents (sh_buffer sh) (tx_next_sequence p) (tx_next_sequence p + int (length es)), sh2) \<and>
     spsc_queue sh2 c = spsc_queue sh c \<and> batch_do_publish b sh2 = (b', sh3) \<and>
     spsc_inv sh3 p1 c \<and> spsc_settled sh3 p1 \<and> spsc_queue sh3 c = spsc_queue sh c @ es"
proof -
  note b = tx_try_claim_batch_Inr [OF claim inv]
  let ?t = "tx_next_sequence p" and ?r = "rx_next_sequence c"
  have st: "producer_cursor sh + 1 = ?t" using inv(2) by (simp add: spsc_settled_def)
  have "ring_init (sh_buffer sh) ?r (?t + int (length es))"
    using cells inv(1) st by (fastforce simp: spsc_inv_def ring_init_def not_less)
  then obtain rb where rb: "batch_fill b 0 es sh1 =
      Done (ring_contents (sh_buffer sh) ?t (?t + int (length es)), sh\<lparr>sh_buffer := rb\<rparr>)" "ring_wf rb"
    "rb_capacity rb = rb_capacity (sh_buffer sh)" "ring_init rb ?r (?t + int (length es))"
    "ring_contents rb ?r (?t + int (length es)) = ring_contents (sh_buffer sh) ?r ?t @ es"
    using batch_fill_spec [of sh ?r b 0 es] b inv st
    by (auto simp: spsc_inv_def)
  let ?sh3 = "sh\<lparr>sh_buffer := rb, producer_cursor := ?t + int (length es) - 1\<rparr>"
  have "batch_do_publish b (sh\<lparr>sh_buffer := rb\<rparr>) = (b\<lparr>batch_published := True\<rparr>, ?sh3)"
    using b by (simp add: batch_do_publish_def)
  moreover have "ring_contents rb ?r ?t = ring_contents (sh_buffer sh) ?r ?t"
    using ring_contents_append [of ?r ?t "?t + int (length es)" rb] rb(5) inv(1) st
    by (simp add: spsc_inv_def)
  moreover have "spsc_inv ?sh3 p1 c" "spsc_settled ?sh3 p1" "spsc_queue ?sh3 c = spsc_queue sh c @ es"
    using b inv(1) rb st by (auto simp: spsc_defs)
  ultimately show ?thesis using rb(1) st
    by (intro exI [of _ "sh\<lparr>sh_buffer := rb\<rparr>"] exI [of _ ?sh3] exI [of _ "b\<lparr>batch_published := True\<rparr>"])
      (simp add: spsc_queue_def)
qed

section \<open>Consumer operations\<close>

lemma rx_is_disconnected_cases:
  assumes "rx_is_disconnected sh c = (d, c')"
  shows "d \<longleftrightarrow> rx_cached_disconnected c \<or> sh_closed sh \<or> strong_count sh = 1"
    "c' = c\<lparr>rx_cached_disconnected := d\<rparr>"
  using assms by (auto simp: rx_is_disconnected_def Let_def split: if_splits)

lemma rx_take_n_spec:
  assumes "spsc_inv sh p c" "0 < n" "n \<le> length (spsc_queue sh c)"
  obtains es c' sh' where "rx_take_n n sh c = Done (es, c', sh')" "spsc_inv sh' p c'"
    "spsc_queue sh c = es @ spsc_queue sh' c'" "length es = n"
    "c' = c\<lparr>rx_next_sequence := rx_next_sequence c + int n\<rparr>"
    "sh_closed sh' = sh_closed sh" "strong_count sh' = strong_count sh"
    "producer_cursor sh' = producer_cursor sh"
    "rb_capacity (sh_buffer sh') = rb_capacity (sh_buffer sh)"
proof -
  let ?i = "rx_next_sequence c" and ?j = "producer_cursor sh + 1"
  have n: "?i + int n \<le> ?j" using assms(2,3) by (simp add: length_spsc_queue)
  have w: "ring_wf (sh_buffer sh)" "ring_init (sh_buffer sh) ?i ?j" "?j \<le> ?i + ring_size (sh_buffer sh)"
    using assms(1) by (auto simp: spsc_inv_def)
  obtain es rb where r: "ring_read_n (sh_buffer sh) ?i n = Some (es, rb)" "ring_wf rb"
    "rb_capacity rb = rb_capacity (sh_buffer sh)" "ring_init rb (?i + int n) ?j"
    "ring_contents (sh_buffer sh) ?i ?j = es @ ring_contents rb (?i + int n) ?j" "length es = n"
    using ring_read_n_window [OF w(1,2) n w(3)] by blast
  show thesis
    by (rule that [of es "c\<lparr>rx_next_sequence := ?i + int n\<rparr>"
          "sh\<lparr>sh_buffer := rb, consumer_cursor := ?i + int n - 1\<rparr>"])
      (use r n assms(1) in \<open>auto simp: rx_take_n_def spsc_defs\<close>)
qed

lemma rx_take_eq:
  "rx_take sh c = run_bind (rx_take_n 1 sh c) (\<lambda>(es, c', sh'). Done (hd es, c', sh'))"
  by (cases "ring_read (sh_buffer sh) (rx_next_sequence c)")
    (auto simp: rx_take_def rx_take_n_def unsafe_run_def)

lemma rx_take_spec:
  assumes "spsc_inv sh p c" "rx_next_sequence c \<le> producer_cursor sh"
  obtains e c' sh' where "rx_take sh c = Done (e, c', sh')" "spsc_inv sh' p c'"
    "spsc_queue sh c = e # spsc_queue sh' c'"
    "c' = c\<lparr>rx_next_sequence := rx_next_sequence c + 1\<rparr>"
    "sh_closed sh' = sh_closed sh" "strong_count sh' = strong_count sh"
    "producer_cursor sh' = producer_cursor sh"
    "rb_capacity (sh_buffer sh') = rb_capacity (sh_buffer sh)"
proof -
  have "1 \<le> length (spsc_queue sh c)" using assms(2) by (simp add: length_spsc_queue nat_le_iff)
  from rx_take_n_spec [OF assms(1) _ this] obtain es c' sh' where
    r: "rx_take_n 1 sh c = Done (es, c', sh')" "spsc_inv sh' p c'"
    "spsc_queue sh c = es @ spsc_queue sh' c'" "length es = 1"
    "c' = c\<lparr>rx_next_sequence := rx_next_sequence c + 1\<rparr>"
    "sh_closed sh' = sh_closed sh" "strong_count sh' = strong_count sh"
    "producer_cursor sh' = producer_cursor sh"
    "rb_capacity (sh_buffer sh') = rb_capacity (sh_buffer sh)"
    by auto
  then obtain e where "es = [e]" by (cases es) auto
  with r show thesis by (intro that [of e c' sh']) (auto simp: rx_take_eq)
qed

lemma spsc_queue_empty_iff: "spsc_queue sh c = [] \<longleftrightarrow> producer_cursor sh < rx_next_sequence c"
  by (auto simp: spsc_queue_def)

text \<open>\<open>recv\<close> takes a batch of one: the three blocking receives are one loop.\<close>

lemma rx_recv_loop_eq:
  "rx_recv_loop ph obs c =
     run_bind (rx_recv_many_loop (\<lambda>_. 1) ph obs c)
       (\<lambda>(r, c', sh'). Done (map_sum id hd r, c', sh'))"
proof (induction ph obs c rule: rx_recv_loop.induct)
  case (2 sh obs c)
  then show ?case
    by (cases "rx_take_n 1 sh c") (auto simp: rx_take_eq)
qed (auto split: prod.splits bool.splits)

text \<open>
  Every way in which a blocking receive can return: it delivers the first events of the queue
  of a state it observed, or it reports an error in an observed state whose queue is empty,
  after it saw the channel disconnected.
\<close>

lemma rx_recv_many_loop_Inr:
  assumes "rx_recv_many_loop quota ph obs c = Done (Inr es, c', sh')"
    and "\<And>s. s \<in> set obs \<Longrightarrow> spsc_inv s (writer s) c"
    and quota: "\<And>n. 0 < n \<Longrightarrow> 0 < quota n \<and> quota n \<le> n"
  shows "\<exists>s \<in> set obs. spsc_queue s c = es @ spsc_queue sh' c' \<and>
     length es = quota (length (spsc_queue s c)) \<and> spsc_queue s c \<noteq> [] \<and>
     spsc_inv sh' (writer s) c'"
  using assms(1,2)
proof (induction obs arbitrary: ph c)
  case Nil
  then show ?case by simp
next
  case (Cons sh obs)
  have inv: "spsc_inv sh (writer sh) c" using Cons.prems(2) by simp
  obtain d c1 where d: "rx_is_disconnected sh c = (d, c1)" by (cases "rx_is_disconnected sh c")
  note dd = rx_is_disconnected_cases(2) [OF d]
  show ?case
  proof (cases "ph = Poll \<and> rx_next_sequence c \<le> producer_cursor sh")
    case True
    let ?n = "nat (producer_cursor sh - rx_next_sequence c + 1)"
    have n: "length (spsc_queue sh c) = ?n" by (simp add: length_spsc_queue)
    then have "0 < quota ?n" "quota ?n \<le> length (spsc_queue sh c)" using True quota [of ?n] by auto
    from rx_take_n_spec [OF inv this] obtain vs c2 sh2 where
      t: "rx_take_n (quota ?n) sh c = Done (vs, c2, sh2)" "spsc_inv sh2 (writer sh) c2"
      "spsc_queue sh c = vs @ spsc_queue sh2 c2" "length vs = quota ?n" by metis
    then have "es = vs" "c' = c2" "sh' = sh2" using Cons.prems(1) True by simp_all
    moreover have "spsc_queue sh c \<noteq> []" using True by (simp add: spsc_queue_empty_iff)
    ultimately show ?thesis using t n by (intro bexI [of _ sh]) auto
  next
    case False
    then obtain ph' b where
      "rx_recv_many_loop quota ph' obs (c\<lparr>rx_cached_disconnected := b\<rparr>) = Done (Inr es, c', sh')"
      using Cons.prems(1) d dd that [of _ "rx_cached_disconnected c"]
      by (cases ph) (auto split: if_splits bool.splits)
    from Cons.IH [OF this] Cons.prems(2) show ?thesis by fastforce
  qed
qed

lemma rx_recv_many_loop_Inl:
  assumes "rx_recv_many_loop quota ph obs c = Done (Inl e, c', sh')"
    and "ph = FinalCheck \<Longrightarrow> rx_cached_disconnected c"
  shows "sh' \<in> set obs \<and> spsc_queue sh' c = [] \<and> rx_cached_disconnected c' \<and>
     (rx_cached_disconnected c \<or> (\<exists>t \<in> set obs. sh_closed t \<or> strong_count t = 1))"
  using assms
proof (induction quota ph obs c rule: rx_recv_many_loop.induct)
  case (2 quota sh obs c)
  then show ?case by (auto simp: run_bind_eq_Done Let_def split: if_splits)
next
  case (3 quota sh obs c)
  obtain d c1 where d: "rx_is_disconnected sh c = (d, c1)" by (cases "rx_is_disconnected sh c")
  with 3 rx_is_disconnected_cases [OF d] show ?case
    by (cases d) (auto simp: spsc_queue_empty_iff)
next
  case (4 quota sh obs c)
  then show ?case by (auto simp: spsc_queue_empty_iff split: if_splits)
next
  case (5 quota sh obs c)
  then show ?case by (auto split: if_splits)
qed simp

text \<open>
  A blocking receive does return once events are available: three more observations are
  enough to leave the phase it is in and to take them.
\<close>

lemma rx_recv_many_take:
  assumes "spsc_inv sh p c" "spsc_queue sh c \<noteq> []"
    and quota: "\<And>n. 0 < n \<Longrightarrow> 0 < quota n \<and> quota n \<le> n"
  shows "\<exists>r. rx_recv_many_loop quota Poll (sh # obs) c = Done r"
proof -
  let ?n = "nat (producer_cursor sh - rx_next_sequence c + 1)"
  have le: "rx_next_sequence c \<le> producer_cursor sh" using assms(2) by (simp add: spsc_queue_empty_iff)
  have "length (spsc_queue sh c) = ?n" by (simp add: length_spsc_queue)
  then have "0 < quota ?n" "quota ?n \<le> length (spsc_queue sh c)" using le quota [of ?n] by auto
  from rx_take_n_spec [OF assms(1) this] obtain vs c2 sh2 where
    "rx_take_n (quota ?n) sh c = Done (vs, c2, sh2)" by metis
  with le show ?thesis by simp
qed

lemma rx_recv_many_returns:
  assumes "\<And>s. s \<in> set (pre @ suf) \<Longrightarrow> spsc_inv s (writer s) c"
    and "\<And>s. s \<in> set suf \<Longrightarrow> spsc_queue s c \<noteq> []" "3 \<le> length suf"
    and quota: "\<And>n. 0 < n \<Longrightarrow> 0 < quota n \<and> quota n \<le> n"
  shows "\<exists>r. rx_recv_many_loop quota ph (pre @ suf) c = Done r"
  using assms(1,2)
proof (induction pre arbitrary: ph c)
  case Nil
  obtain s1 s2 s3 obs where suf: "suf = s1 # s2 # s3 # obs"
    using assms(3) by (cases suf; cases "tl suf"; cases "tl (tl suf)") auto
  obtain d c1 where d: "rx_is_disconnected s1 c = (d, c1)" by (cases "rx_is_disconnected s1 c")
  have c1: "c1 = c\<lparr>rx_cached_disconnected := d\<rparr>" using rx_is_disconnected_cases [OF d] by simp
  have inv: "spsc_inv s (writer s) c" "spsc_queue s c \<noteq> []" if "s \<in> {s1, s2, s3}" for s
    using Nil that suf by auto
  then have le: "rx_next_sequence c \<le> producer_cursor s" if "s \<in> {s1, s2, s3}" for s
    using that by (simp add: spsc_queue_empty_iff not_less)
  have "\<exists>r. rx_recv_many_loop quota Poll (s # obs') (c\<lparr>rx_cached_disconnected := b\<rparr>) = Done r"
    if "s \<in> {s1, s2, s3}" for s obs' b
    using inv [OF that] by (intro rx_recv_many_take [where p = "writer s"] quota) simp_all
  from this [of s1 "s2 # s3 # obs" "rx_cached_disconnected c"] this [of s3 obs d]
    this [of s2 "s3 # obs" "rx_cached_disconnected c"]
  have "\<exists>r. rx_recv_many_loop quota Poll (s1 # s2 # s3 # obs) c = Done r"
    "\<exists>r. rx_recv_many_loop quota Poll (s2 # s3 # obs) c = Done r"
    "\<exists>r. rx_recv_many_loop quota Poll (s3 # obs) c1 = Done r"
    unfolding c1 by simp_all
  with suf d c1 le show ?case by (cases ph; cases d) simp_all
next
  case (Cons s pre)
  have inv: "spsc_inv s (writer s) c" using Cons.prems(1) by simp
  show ?case
  proof (cases "ph = Poll \<and> spsc_queue s c \<noteq> []")
    case True
    with rx_recv_many_take [OF inv _ quota] show ?thesis by simp
  next
    case False
    obtain d c1 where d: "rx_is_disconnected s c = (d, c1)" by (cases "rx_is_disconnected s c")
    have c1: "c1 = c\<lparr>rx_cached_disconnected := d\<rparr>" using rx_is_disconnected_cases [OF d] by simp
    have IH: "\<exists>r. rx_recv_many_loop quota ph' (pre @ suf) (c\<lparr>rx_cached_disconnected := b\<rparr>) = Done r"
      for ph' b using Cons.IH Cons.prems by simp
    show ?thesis
      using False IH d c1 IH [of _ "rx_cached_disconnected c"]
      by (cases ph; cases d) (simp_all add: spsc_queue_empty_iff)
  qed
qed

text \<open>
  A blocking receive that has seen an open, empty channel spins on the producer cursor alone:
  it stays blocked through every later state in which nothing more is published, also when the
  channel has been closed in the meantime.
\<close>

lemma rx_recv_many_waiting:
  "(\<forall>s \<in> set obs. spsc_queue s c = []) \<Longrightarrow> rx_recv_many_loop quota Waiting obs c = Blocked"
  by (induction obs) (auto simp: spsc_queue_empty_iff)

section \<open>The channel as a bounded queue\<close>

text \<open>
  One thread using both handles in turn, or any interleaving of complete non-blocking calls.
\<close>

type_synonym 'a spsc_state = "'a spsc_shared \<times> spsc_producer \<times> spsc_consumer"

definition spsc_push :: "'a \<Rightarrow> 'a spsc_state \<Rightarrow> bool \<times> 'a spsc_state" where
  "spsc_push e = (\<lambda>(sh, p, c).
     case tx_try_send e sh p of
       Done (r, p', sh') \<Rightarrow> (r = Inr (), sh', p', c)
     | _ \<Rightarrow> (False, sh, p, c))"

definition spsc_pop :: "'a spsc_state \<Rightarrow> 'a option \<times> 'a spsc_state" where
  "spsc_pop = (\<lambda>(sh, p, c).
     case rx_try_recv sh sh c of
       Done (Inr e, c', sh') \<Rightarrow> (Some e, sh', p, c')
     | Done (Inl _, c', sh') \<Rightarrow> (None, sh', p, c')
     | _ \<Rightarrow> (None, sh, p, c))"

definition spsc_state_inv :: "'a spsc_state \<Rightarrow> bool" where
  "spsc_state_inv = (\<lambda>(sh, p, c). spsc_inv sh p c \<and> spsc_settled sh p \<and> spsc_open sh p c)"

definition spsc_state_queue :: "'a spsc_state \<Rightarrow> 'a list" where
  "spsc_state_queue = (\<lambda>(sh, p, c). spsc_queue sh c)"

definition spsc_state_limit :: "'a spsc_state \<Rightarrow> nat" where
  "spsc_state_limit = (\<lambda>(sh, p, c). unat (rb_capacity (sh_buffer sh)))"

lemmas spsc_state_defs = spsc_state_inv_def spsc_state_queue_def spsc_state_limit_def

lemma spsc_push_spec:
  assumes "spsc_state_inv s" "spsc_push e s = (ok, s')"
  shows "spsc_state_inv s'" "spsc_state_limit s' = spsc_state_limit s"
    "ok \<longleftrightarrow> length (spsc_state_queue s) < spsc_state_limit s"
    "spsc_state_queue s' = (if ok then spsc_state_queue s @ [e] else spsc_state_queue s)"
proof -
  obtain sh p c where s: "s = (sh, p, c)" by (cases s) auto
  have inv: "spsc_inv sh p c" "spsc_settled sh p" "\<not> tx_claimed p" "spsc_open sh p c"
    using assms(1) s by (simp_all add: spsc_state_inv_def spsc_open_def)
  obtain r p1 sh1 where r: "tx_try_send e sh p = Done (r, p1, sh1)" "spsc_inv sh1 p1 c"
    "spsc_settled sh1 p1" "\<not> tx_claimed p1"
    "rb_capacity (sh_buffer sh1) = rb_capacity (sh_buffer sh)"
    "sh_closed sh1 = sh_closed sh" "strong_count sh1 = strong_count sh"
    "tx_cached_disconnected p1 \<longleftrightarrow> tx_cached_disconnected p \<or> sh_closed sh \<or> strong_count sh = 1"
    "r = (if tx_cached_disconnected p1 then Inl (Disconnected e)
          else if length (spsc_queue sh c) = unat (rb_capacity (sh_buffer sh)) then Inl (Full e)
          else Inr ())"
    "spsc_queue sh1 c = (if r = Inr () then spsc_queue sh c @ [e] else spsc_queue sh c)"
    by (rule tx_try_send_spec [OF inv(1-3), of e]) (rule that)
  have "ok \<longleftrightarrow> r = Inr ()" "s' = (sh1, p1, c)"
    using assms(2) r(1) s by (simp_all add: spsc_push_def)
  with r inv(4) s spsc_queue_bounded [OF inv(1)]
  show "spsc_state_inv s'" "spsc_state_limit s' = spsc_state_limit s"
    "ok \<longleftrightarrow> length (spsc_state_queue s) < spsc_state_limit s"
    "spsc_state_queue s' = (if ok then spsc_state_queue s @ [e] else spsc_state_queue s)"
    by (auto simp: spsc_state_defs spsc_open_def split: if_splits)
qed

lemma spsc_pop_spec:
  assumes "spsc_state_inv s" "spsc_pop s = (r, s')"
  shows "spsc_state_inv s'" "spsc_state_limit s' = spsc_state_limit s"
    "spsc_state_queue s = (case r of None \<Rightarrow> [] | Some e \<Rightarrow> e # spsc_state_queue s')"
    "r = None \<Longrightarrow> spsc_state_queue s' = []"
proof -
  obtain sh p c where s: "s = (sh, p, c)" by (cases s) auto
  have inv: "spsc_inv sh p c" "spsc_settled sh p" "spsc_open sh p c"
    using assms(1) s by (simp_all add: spsc_state_inv_def)
  have "spsc_state_inv s' \<and> spsc_state_limit s' = spsc_state_limit s \<and>
    spsc_state_queue s = (case r of None \<Rightarrow> [] | Some e \<Rightarrow> e # spsc_state_queue s') \<and>
    (r = None \<longrightarrow> spsc_state_queue s' = [])"
  proof (cases "rx_next_sequence c \<le> producer_cursor sh")
    case True
    obtain e c1 sh1 where
      t: "rx_take sh c = Done (e, c1, sh1)" "spsc_inv sh1 p c1" "spsc_queue sh c = e # spsc_queue sh1 c1"
      "c1 = c\<lparr>rx_next_sequence := rx_next_sequence c + 1\<rparr>" "sh_closed sh1 = sh_closed sh"
      "strong_count sh1 = strong_count sh" "producer_cursor sh1 = producer_cursor sh"
      "rb_capacity (sh_buffer sh1) = rb_capacity (sh_buffer sh)"
      by (rule rx_take_spec [OF inv(1) True]) (rule that)
    then have "r = Some e" "s' = (sh1, p, c1)"
      using assms(2) s True by (auto simp: spsc_pop_def rx_try_recv_def)
    with t inv s show ?thesis by (simp add: spsc_state_defs spsc_open_def spsc_settled_def)
  next
    case False
    have "rx_is_disconnected sh c = (False, c)"
      using inv(3) by (simp add: rx_is_disconnected_def spsc_open_def)
    then have "r = None" "s' = s"
      using assms(2) s False by (auto simp: spsc_pop_def rx_try_recv_def rx_not_available_def)
    with False assms(1) s show ?thesis by (simp add: spsc_state_queue_def spsc_queue_empty_iff)
  qed
  then show "spsc_state_inv s'" "spsc_state_limit s' = spsc_state_limit s"
    "spsc_state_queue s = (case r of None \<Rightarrow> [] | Some e \<Rightarrow> e # spsc_state_queue s')"
    "r = None \<Longrightarrow> spsc_state_queue s' = []" by blast+
qed

interpretation spsc: bounded_fifo spsc_state_queue spsc_state_inv spsc_state_limit spsc_push spsc_pop
proof unfold_locales
  fix s :: "'a spsc_state"
  assume "spsc_state_inv s"
  then show "length (spsc_state_queue s) \<le> spsc_state_limit s"
    using spsc_queue_bounded by (auto simp: spsc_state_defs split: prod.splits)
qed (intro conjI impI; erule (1) spsc_push_spec spsc_pop_spec; assumption?)+

section \<open>Polling, counting and dropping\<close>

lemma rx_poll_spec:
  assumes "spsc_inv sh p c"
  obtains calls c' sh' where "rx_poll sh c = Done (calls, length (spsc_queue sh c), c', sh')"
    "map fst calls = spsc_queue sh c"
    "map (fst \<circ> snd) calls = [rx_next_sequence c..producer_cursor sh]"
    "map (snd \<circ> snd) calls = map (\<lambda>i. Suc i = length calls) [0..<length calls]"
    "spsc_inv sh' p c'" "spsc_queue sh' c' = []" "producer_cursor sh' = producer_cursor sh"
proof (cases "producer_cursor sh < rx_next_sequence c")
  case True
  with assms show thesis
    by (intro that [of "[]" c sh]) (auto simp: rx_poll_def spsc_queue_def)
next
  case False
  define i n where "i = rx_next_sequence c" and "n = nat (producer_cursor sh - i + 1)"
  have n: "producer_cursor sh + 1 = i + int n" using False by (simp add: i_def n_def)
  have "ring_init (sh_buffer sh) i (producer_cursor sh + 1)" using assms by (simp add: spsc_inv_def i_def)
  then have "ring_init (sh_buffer sh) i (i + int n)" unfolding n .
  from poll_calls_spec [OF this] obtain calls where
    c: "poll_calls (sh_buffer sh) i n = Done calls"
    "map fst calls = ring_contents (sh_buffer sh) i (i + int n)"
    "map (fst \<circ> snd) calls = [i..i + int n - 1]"
    "map (snd \<circ> snd) calls = map (\<lambda>k. Suc k = n) [0..<n]" by blast
  then have l: "length calls = n" by (metis length_map length_upt diff_zero)
  have q: "length (spsc_queue sh c) = n" by (simp add: length_spsc_queue n i_def [symmetric])
  have pc: "i + int n - 1 = producer_cursor sh" using n by simp
  show thesis
  proof (rule that)
    show "rx_poll sh c = Done (calls, length (spsc_queue sh c), c\<lparr>rx_next_sequence := i + int n\<rparr>,
        sh\<lparr>consumer_cursor := producer_cursor sh\<rparr>)"
      using False c(1) pc
      by (simp only: rx_poll_def q Let_def i_def [symmetric] n_def [symmetric] if_False run_bind.simps)
    show "map fst calls = spsc_queue sh c" using c(2) n by (simp add: spsc_queue_def i_def)
    show "map (fst \<circ> snd) calls = [rx_next_sequence c..producer_cursor sh]"
      using c(3) pc by (simp add: i_def)
    show "spsc_inv (sh\<lparr>consumer_cursor := producer_cursor sh\<rparr>) p (c\<lparr>rx_next_sequence := i + int n\<rparr>)"
      using assms n False by (simp add: spsc_inv_def)
    show "map (snd \<circ> snd) calls = map (\<lambda>i. Suc i = length calls) [0..<length calls]"
      using c(4) unfolding l .
    show "spsc_queue (sh\<lparr>consumer_cursor := producer_cursor sh\<rparr>) (c\<lparr>rx_next_sequence := i + int n\<rparr>) = []"
      using n by (simp add: spsc_queue_empty_iff)
  qed simp
qed

lemma spsc_shared_drop_queue:
  assumes "spsc_inv sh p c"
  shows "spsc_shared_drop sh = map Some (spsc_queue sh c)"
proof -
  have "ring_get (sh_buffer sh) s = Some (the (ring_get (sh_buffer sh) s))"
    if "rx_next_sequence c \<le> s" "s \<le> producer_cursor sh" for s
    using assms that by (auto simp: spsc_inv_def ring_init_def ring_get_def split: slot.splits)
  then have cells: "map (ring_get (sh_buffer sh)) [rx_next_sequence c..producer_cursor sh] =
      map (\<lambda>s. Some (the (ring_get (sh_buffer sh) s))) [rx_next_sequence c..producer_cursor sh]"
    by (intro map_upto_cong)
  have "consumer_cursor sh + 1 = rx_next_sequence c" using assms by (simp add: spsc_inv_def)
  then have "spsc_shared_drop sh = map (ring_get (sh_buffer sh)) [rx_next_sequence c..producer_cursor sh]"
    by (auto simp: spsc_shared_drop_def Let_def)
  then show ?thesis unfolding cells by (simp add: spsc_queue_def ring_contents_def o_def)
qed

lemma rx_pending_queue: "rx_pending sh c = length (spsc_queue sh c)"
  by (simp add: rx_pending_def length_spsc_queue Let_def algebra_simps)

lemma tx_available_slots_queue:
  assumes "spsc_inv sh p c" "spsc_settled sh p"
  shows "unat (tx_available_slots sh p) = unat (rb_capacity (sh_buffer sh)) - length (spsc_queue sh c)"
proof -
  let ?n = "tx_next_sequence p - rx_next_sequence c" and ?cap = "rb_capacity (sh_buffer sh)"
  have n: "0 \<le> ?n" "?n \<le> uint ?cap" using assms by (auto simp: spsc_inv_def spsc_settled_def)
  have "?n < 2 ^ 64" using n uint_bounded [of ?cap] by simp
  then have "unat (word_of_int ?n :: usize) = nat ?n" using n by (intro unat_of_int_small) simp_all
  then show ?thesis
    using assms n by (simp add: tx_available_slots_def spsc_defs Let_def unat_sat_sub)
qed

section \<open>Properties of the channel\<close>

text \<open>
  C4. A channel of any capacity, driven by any sequence of non-blocking sends and receives,
  is a bounded FIFO queue: the accepted events are the delivered ones followed by those still
  in flight, in the same order, and never more than the capacity are in flight.
\<close>

theorem spsc_fifo:
  assumes "spsc_channel_with_wait capacity = Done s0" "capacity \<noteq> 2 ^ 63"
    and "fifo_run spsc_push spsc_pop s0 ops = (accepted, delivered, s')"
  shows "accepted = delivered @ spsc_state_queue s' \<and>
         length accepted \<le> length delivered + unat capacity"
proof -
  obtain sh p c rb where new: "s0 = (sh, p, c)" "ring_new capacity = Done rb"
    "spsc_handles capacity rb = (sh, p, c)"
    using assms(1) by (cases s0) (auto simp: spsc_channel_with_wait_def run_bind_eq_Done)
  then have s0: "s0 = (sh, p, c)" "ring_wf rb" "rb_capacity rb = capacity"
    "spsc_handles capacity rb = (sh, p, c)"
    using ring_new_wf ring_new_capacity by blast+
  note i = spsc_handles_inv [OF s0(2,3) assms(2) s0(4)]
  have "spsc_state_inv s0" "spsc_state_queue s0 = []" "spsc_state_limit s0 = unat capacity"
    using i s0 by (simp_all add: spsc_state_defs)
  with spsc.run_order [OF _ assms(3)] spsc.run_bounded [OF _ assms(3)] show ?thesis by simp
qed

theorem spsc_fifo_witness:
  "\<exists>s0 s'. spsc_channel_with_wait 2 = Done s0 \<and>
     fifo_run spsc_push spsc_pop s0 [Push (10 :: nat), Push 20, Push 30, Pop] = ([10, 20], [10], s') \<and>
     [10, 20] = [10] @ spsc_state_queue s'"
proof -
  let ?s0 = "spsc_handles 2 \<lparr>rb_slots = [Uninit, Uninit], rb_mask = 1, rb_capacity = 2\<rparr>"
  let ?r = "fifo_run spsc_push spsc_pop ?s0 [Push (10 :: nat), Push 20, Push 30, Pop]"
  have c: "(spsc_channel_with_wait 2 :: nat spsc_state run) = Done ?s0" by code_simp
  have "fst ?r = [10, 20]" "fst (snd ?r) = [10]" by code_simp+
  then have r: "?r = ([10, 20], [10], snd (snd ?r))" by (simp add: prod_eq_iff)
  have "(2 :: usize) \<noteq> 2 ^ 63" by simp
  from spsc_fifo [OF c this r] c r show ?thesis by blast
qed

text \<open>
  C21. A blocking send on a channel whose states satisfy the invariant returns as soon as it
  observes room or a disconnection. It then has appended its event to the queue of a state it
  observed, or it gives the event back, unsent, because that state is disconnected. Here
  \<open>reader s\<close> is the consumer handle in the observed state \<open>s\<close>.
\<close>

theorem spsc_send_returns:
  assumes "\<not> tx_claimed p"
    and "\<forall>s \<in> set (sh # obs). spsc_settled s p \<and> spsc_inv s p (reader s)"
    and "\<exists>s \<in> set obs. length (spsc_queue s (reader s)) < unat (rb_capacity (sh_buffer s)) \<or>
           sh_closed s \<or> strong_count s = 1"
  shows "\<exists>r p' sh' s. tx_send e sh obs p = Done (r, p', sh') \<and> s \<in> set (sh # obs) \<and>
     spsc_inv sh' p' (reader s) \<and> spsc_settled sh' p' \<and>
     (case r of
        Inr _ \<Rightarrow> spsc_queue sh' (reader s) = spsc_queue s (reader s) @ [e]
      | Inl err \<Rightarrow> err = SendError e \<and> sh' = s \<and>
          (tx_cached_disconnected p \<or> sh_closed s \<or> strong_count s = 1))"
proof -
  have "length (spsc_queue s (reader s)) < unat (rb_capacity (sh_buffer s)) \<longleftrightarrow>
      tx_next_sequence p - tx_capacity p \<le> consumer_cursor s" if "s \<in> set obs" for s
    using assms(2) that by (intro spsc_room) auto
  then have "\<exists>s \<in> set obs. tx_next_sequence p - tx_capacity p \<le> consumer_cursor s \<or> sh_closed s \<or> strong_count s = 1"
    using assms(3) by blast
  then obtain r p' sh' where s: "tx_send e sh obs p = Done (r, p', sh')"
    using tx_send_returns [OF assms(1)] assms(2) by (metis list.set_intros(1))
  obtain t where "t \<in> insert sh (set obs)" "spsc_inv sh' p' (reader t)" "spsc_settled sh' p'"
    "r = Inr () \<Longrightarrow> spsc_queue sh' (reader t) = spsc_queue t (reader t) @ [e]"
    "r \<noteq> Inr () \<Longrightarrow> r = Inl (SendError e) \<and> sh' = t \<and>
       (tx_cached_disconnected p \<or> sh_closed t \<or> strong_count t = 1)"
    by (rule tx_send_spec [OF s, of reader]) (use assms(2) that in auto)
  with s show ?thesis
    by (intro exI [of _ r] exI [of _ p'] exI [of _ sh'] exI [of _ t]) (auto split: sum.splits)
qed

text \<open>A full channel of two slots, before and after the consumer has taken one event.\<close>

definition spsc_demo_full :: "nat spsc_shared" where
  "spsc_demo_full =
     \<lparr>sh_buffer = \<lparr>rb_slots = [Init 10, Init 20], rb_mask = 1, rb_capacity = 2\<rparr>,
      producer_cursor = 1, consumer_cursor = - 1, sh_closed = False, strong_count = 2\<rparr>"

definition spsc_demo_taken :: "nat spsc_shared" where
  "spsc_demo_taken =
     \<lparr>sh_buffer = \<lparr>rb_slots = [Uninit, Init 20], rb_mask = 1, rb_capacity = 2\<rparr>,
      producer_cursor = 1, consumer_cursor = 0, sh_closed = False, strong_count = 2\<rparr>"

definition spsc_demo_tx :: spsc_producer where
  "spsc_demo_tx = \<lparr>cached_consumer = - 1, tx_next_sequence = 2, tx_capacity = 2,
     tx_claimed = False, tx_cached_disconnected = False\<rparr>"

definition spsc_demo_rx :: "nat spsc_shared \<Rightarrow> spsc_consumer" where
  "spsc_demo_rx s = \<lparr>rx_next_sequence = consumer_cursor s + 1, rx_cached_disconnected = False\<rparr>"

theorem spsc_send_returns_witness:
  "\<exists>r p' sh' s. tx_send 30 spsc_demo_full [spsc_demo_full, spsc_demo_taken] spsc_demo_tx = Done (r, p', sh') \<and>
     s \<in> set [spsc_demo_full, spsc_demo_full, spsc_demo_taken] \<and>
     (case r of
        Inr _ \<Rightarrow> spsc_queue sh' (spsc_demo_rx s) = spsc_queue s (spsc_demo_rx s) @ [30]
      | Inl err \<Rightarrow> err = SendError 30 \<and> sh' = s \<and>
          (tx_cached_disconnected spsc_demo_tx \<or> sh_closed s \<or> strong_count s = 1))"
proof -
  have a: "\<not> tx_claimed spsc_demo_tx" by code_simp
  have b: "\<forall>s \<in> set [spsc_demo_full, spsc_demo_full, spsc_demo_taken].
      spsc_settled s spsc_demo_tx \<and> spsc_inv s spsc_demo_tx (spsc_demo_rx s)" by code_simp
  have c: "\<exists>s \<in> set [spsc_demo_full, spsc_demo_taken].
      length (spsc_queue s (spsc_demo_rx s)) < unat (rb_capacity (sh_buffer s)) \<or>
      sh_closed s \<or> strong_count s = 1" by code_simp
  from spsc_send_returns [OF a b c, of 30] show ?thesis by blast
qed

text \<open>
  C22. A blocking receive. When it delivers an event, that is the head of the queue of a state
  it observed, and the rest of that queue is left. When it reports an error, it has seen the
  channel disconnected and then, in its last observation, an empty queue. And it does return
  once events stay available for three observations.
\<close>

theorem spsc_recv_spec:
  assumes "\<forall>s \<in> set obs. spsc_inv s (writer s) c"
  shows "(\<forall>r c' sh'. rx_recv obs c = Done (r, c', sh') \<longrightarrow>
       (case r of
          Inr e \<Rightarrow> \<exists>s \<in> set obs. spsc_queue s c = e # spsc_queue sh' c' \<and> spsc_inv sh' (writer s) c'
        | Inl _ \<Rightarrow> sh' \<in> set obs \<and> spsc_queue sh' c = [] \<and>
            (rx_cached_disconnected c \<or> (\<exists>t \<in> set obs. sh_closed t \<or> strong_count t = 1)))) \<and>
     (\<forall>pre suf. obs = pre @ suf \<and> 3 \<le> length suf \<and> (\<forall>s \<in> set suf. spsc_queue s c \<noteq> []) \<longrightarrow>
       (\<exists>r. rx_recv obs c = Done r))"
proof (intro conjI allI impI)
  fix r c' sh'
  assume "rx_recv obs c = Done (r, c', sh')"
  then obtain r0 where r: "rx_recv_many_loop (\<lambda>_. 1) Poll obs c = Done (r0, c', sh')" "r = map_sum id hd r0"
    by (auto simp: rx_recv_def rx_recv_loop_eq run_bind_eq_Done)
  show "case r of
      Inr e \<Rightarrow> \<exists>s \<in> set obs. spsc_queue s c = e # spsc_queue sh' c' \<and> spsc_inv sh' (writer s) c'
    | Inl _ \<Rightarrow> sh' \<in> set obs \<and> spsc_queue sh' c = [] \<and>
        (rx_cached_disconnected c \<or> (\<exists>t \<in> set obs. sh_closed t \<or> strong_count t = 1))"
  proof (cases r0)
    case (Inl x)
    with r rx_recv_many_loop_Inl [of "\<lambda>_. 1" Poll obs c x c' sh'] show ?thesis by simp
  next
    case (Inr es)
    with r(1) rx_recv_many_loop_Inr [of "\<lambda>_. 1" Poll obs c es c' sh' writer] assms
    obtain s where "s \<in> set obs" "spsc_queue s c = es @ spsc_queue sh' c'" "length es = 1"
      "spsc_inv sh' (writer s) c'" by auto
    with Inr r(2) show ?thesis by (cases es) auto
  qed
next
  fix pre suf
  assume "obs = pre @ suf \<and> 3 \<le> length suf \<and> (\<forall>s \<in> set suf. spsc_queue s c \<noteq> [])"
  then obtain r where "rx_recv_many_loop (\<lambda>_. 1) Poll obs c = Done r"
    using rx_recv_many_returns [of pre suf writer c "\<lambda>_. 1" Poll] assms by auto
  then show "\<exists>r. rx_recv obs c = Done r"
    by (cases r) (simp add: rx_recv_def rx_recv_loop_eq)
qed

theorem spsc_recv_spec_witness:
  "\<exists>e c' sh'. rx_recv [spsc_demo_full, spsc_demo_full, spsc_demo_full] (spsc_demo_rx spsc_demo_full) =
       Done (Inr e, c', sh') \<and>
     spsc_queue spsc_demo_full (spsc_demo_rx spsc_demo_full) = e # spsc_queue sh' c'"
proof -
  let ?obs = "[spsc_demo_full, spsc_demo_full, spsc_demo_full]" and ?c = "spsc_demo_rx spsc_demo_full"
  have i: "\<forall>s \<in> set ?obs. spsc_inv s ((\<lambda>_. spsc_demo_tx) s) ?c" by code_simp
  have "\<not> sh_closed spsc_demo_full" "strong_count spsc_demo_full = 2" "\<not> rx_cached_disconnected ?c"
    "spsc_queue spsc_demo_full ?c = [10, 20]" by code_simp+
  note d = this
  have all: "s \<in> set ?obs \<Longrightarrow> s = spsc_demo_full" for s by auto
  note r = spsc_recv_spec [OF i]
  have "?obs = [] @ ?obs" "3 \<le> length ?obs" "\<forall>s \<in> set ?obs. spsc_queue s ?c \<noteq> []" using d by simp_all
  with conjunct2 [OF r] obtain x c' sh' where x: "rx_recv ?obs ?c = Done (x, c', sh')"
    by (metis prod_cases3)
  from conjunct1 [OF r, rule_format, OF x] x d all show ?thesis by (cases x) auto
qed

text \<open>
  C23. The batch receives take a prefix of the queue of a state they observed: \<open>recv_batch\<close> as
  many events as fit the output slice, \<open>try_recv_batch\<close> likewise, \<open>recv_all\<close> all of them.
\<close>

theorem spsc_recv_batch_prefix:
  assumes "\<forall>s \<in> set (sh # obs). spsc_inv s (writer s) c" "0 < n"
  shows "(\<forall>es c' sh'. rx_recv_batch n sh obs c = Done (Inr es, c', sh') \<longrightarrow>
       (\<exists>s \<in> set obs. spsc_queue s c \<noteq> [] \<and> es = take n (spsc_queue s c) \<and>
          spsc_queue sh' c' = drop n (spsc_queue s c) \<and> spsc_inv sh' (writer s) c')) \<and>
     (\<forall>es c' sh'. rx_recv_all obs c = Done (Inr es, c', sh') \<longrightarrow>
       (\<exists>s \<in> set obs. es = spsc_queue s c \<and> es \<noteq> [] \<and> spsc_queue sh' c' = [] \<and>
          spsc_inv sh' (writer s) c')) \<and>
     (\<forall>sh2. spsc_queue sh c \<noteq> [] \<longrightarrow>
       (\<exists>c' sh'. rx_try_recv_batch n sh sh2 c = Done (Inr (take n (spsc_queue sh c)), c', sh') \<and>
          spsc_queue sh' c' = drop n (spsc_queue sh c) \<and> spsc_inv sh' (writer sh) c'))"
proof (intro conjI allI impI)
  fix es c' sh'
  assume "rx_recv_batch n sh obs c = Done (Inr es, c', sh')"
  then have r: "rx_recv_many_loop (min n) Poll obs c = Done (Inr es, c', sh')"
    using assms(2) by (simp add: rx_recv_batch_def)
  have "\<exists>s \<in> set obs. spsc_queue s c = es @ spsc_queue sh' c' \<and>
     length es = min n (length (spsc_queue s c)) \<and> spsc_queue s c \<noteq> [] \<and> spsc_inv sh' (writer s) c'"
    by (rule rx_recv_many_loop_Inr [OF r]) (use assms in simp_all)
  with prefix_take_drop show "\<exists>s \<in> set obs. spsc_queue s c \<noteq> [] \<and> es = take n (spsc_queue s c) \<and>
     spsc_queue sh' c' = drop n (spsc_queue s c) \<and> spsc_inv sh' (writer s) c'" by blast
next
  fix es c' sh'
  assume "rx_recv_all obs c = Done (Inr es, c', sh')"
  then have r: "rx_recv_many_loop (\<lambda>n. n) Poll obs c = Done (Inr es, c', sh')"
    by (simp add: rx_recv_all_def)
  have "\<exists>s \<in> set obs. spsc_queue s c = es @ spsc_queue sh' c' \<and>
     length es = length (spsc_queue s c) \<and> spsc_queue s c \<noteq> [] \<and> spsc_inv sh' (writer s) c'"
    by (rule rx_recv_many_loop_Inr [OF r]) (use assms in simp_all)
  then obtain s where s: "s \<in> set obs" "spsc_queue s c = es @ spsc_queue sh' c'"
    "length es = length (spsc_queue s c)" "spsc_queue s c \<noteq> []" "spsc_inv sh' (writer s) c'" by blast
  have "spsc_queue sh' c' = []" using s(2,3) by (metis append_eq_conv_conj append_Nil2 drop_all order_refl)
  with s show "\<exists>s \<in> set obs. es = spsc_queue s c \<and> es \<noteq> [] \<and> spsc_queue sh' c' = [] \<and> spsc_inv sh' (writer s) c'"
    by (intro bexI [of _ s]) simp_all
next
  fix sh2
  assume ne: "spsc_queue sh c \<noteq> []"
  let ?n = "nat (producer_cursor sh - rx_next_sequence c + 1)"
  have inv: "spsc_inv sh (writer sh) c" using assms(1) by simp
  have le: "rx_next_sequence c \<le> producer_cursor sh" using ne by (simp add: spsc_queue_empty_iff)
  have len: "length (spsc_queue sh c) = ?n" by (simp add: length_spsc_queue)
  then have "0 < min n ?n" "min n ?n \<le> length (spsc_queue sh c)" using assms(2) le by auto
  then obtain es c' sh' where
    t: "rx_take_n (min n ?n) sh c = Done (es, c', sh')" "spsc_inv sh' (writer sh) c'"
    "spsc_queue sh c = es @ spsc_queue sh' c'" "length es = min n ?n"
    by (rule rx_take_n_spec [OF inv]) (rule that)
  note td = prefix_take_drop [OF t(3) t(4) [folded len]]
  have "rx_try_recv_batch n sh sh2 c = Done (Inr es, c', sh')"
    using assms(2) le t(1) by (simp add: rx_try_recv_batch_def Let_def)
  with t(2) td show "\<exists>c' sh'. rx_try_recv_batch n sh sh2 c = Done (Inr (take n (spsc_queue sh c)), c', sh') \<and>
     spsc_queue sh' c' = drop n (spsc_queue sh c) \<and> spsc_inv sh' (writer sh) c'"
    by metis
qed

theorem spsc_recv_batch_prefix_witness:
  "\<exists>c' sh'. rx_try_recv_batch 1 spsc_demo_full spsc_demo_full (spsc_demo_rx spsc_demo_full) =
     Done (Inr (take 1 [10, 20]), c', sh') \<and> spsc_queue sh' c' = drop 1 [10, 20]"
proof -
  let ?c = "spsc_demo_rx spsc_demo_full"
  have i: "\<forall>s \<in> set [spsc_demo_full]. spsc_inv s ((\<lambda>_. spsc_demo_tx) s) ?c" by code_simp
  have q: "spsc_queue spsc_demo_full ?c = [10, 20]" by code_simp
  with spsc_recv_batch_prefix [OF i, of 1] show ?thesis by force
qed



text \<open>
  C25. \<open>poll\<close> calls its handler once for every published event, in order, with its sequence
  and with the end-of-batch flag set for the last one only; then the queue is empty.
\<close>

theorem spsc_poll_handles_queue:
  assumes "spsc_inv sh p c"
  shows "\<exists>calls c' sh'. rx_poll sh c = Done (calls, length (spsc_queue sh c), c', sh') \<and>
     map fst calls = spsc_queue sh c \<and>
     map (fst \<circ> snd) calls = [rx_next_sequence c..producer_cursor sh] \<and>
     map (snd \<circ> snd) calls = map (\<lambda>i. Suc i = length calls) [0..<length calls] \<and>
     spsc_inv sh' p c' \<and> spsc_queue sh' c' = []"
  by (rule rx_poll_spec [OF assms]) blast

theorem spsc_poll_handles_queue_witness:
  "\<exists>calls c' sh'. rx_poll spsc_demo_full (spsc_demo_rx spsc_demo_full) =
     Done (calls, length (spsc_queue spsc_demo_full (spsc_demo_rx spsc_demo_full)), c', sh') \<and>
     map fst calls = spsc_queue spsc_demo_full (spsc_demo_rx spsc_demo_full) \<and>
     spsc_queue sh' c' = []"
proof -
  have "spsc_inv spsc_demo_full spsc_demo_tx (spsc_demo_rx spsc_demo_full)" by code_simp
  from spsc_poll_handles_queue [OF this] show ?thesis by blast
qed

text \<open>
  C26. Dropping the shared state drops every event that is still in flight exactly once, in
  order, and never an uninitialised cell.
\<close>

theorem spsc_drop_exact:
  assumes "spsc_inv sh p c"
  shows "spsc_shared_drop (rx_drop (tx_drop sh)) = map Some (spsc_queue sh c)"
proof -
  have "spsc_inv (rx_drop (tx_drop sh)) p c" "spsc_queue (rx_drop (tx_drop sh)) c = spsc_queue sh c"
    using assms by (simp_all add: rx_drop_def tx_drop_def rx_close_def tx_close_def spsc_defs)
  then show ?thesis using spsc_shared_drop_queue by metis
qed

theorem spsc_drop_exact_witness:
  "spsc_shared_drop (rx_drop (tx_drop spsc_demo_full)) =
     map Some (spsc_queue spsc_demo_full (spsc_demo_rx spsc_demo_full))"
proof -
  have "spsc_inv spsc_demo_full spsc_demo_tx (spsc_demo_rx spsc_demo_full)" by code_simp
  then show ?thesis by (rule spsc_drop_exact)
qed

text \<open>
  C29. A blocking receive that polls an empty channel and sees it open goes to the wait
  strategy, which looks at the producer cursor only. If the producer then closes the channel or
  is dropped without publishing, the receive never returns: it stays blocked however long it
  observes the closed, empty channel, although its documentation promises an error there.
\<close>

theorem spsc_recv_misses_close:
  assumes "spsc_queue sh c = []" "\<not> sh_closed sh" "strong_count sh = 2" "\<not> rx_cached_disconnected c"
    and "\<forall>s \<in> set obs. spsc_queue s c = []"
  shows "rx_recv (sh # sh # obs) c = Blocked \<and> rx_recv_all (sh # sh # obs) c = Blocked \<and>
         (0 < n \<longrightarrow> rx_recv_batch n sh (sh # sh # obs) c = Blocked)"
proof -
  have d: "rx_is_disconnected sh c = (False, c)" using assms(2-4) by (simp add: rx_is_disconnected_def)
  have "rx_recv_many_loop quota Poll (sh # sh # obs) c = Blocked" for quota
    using assms(1,5) d rx_recv_many_waiting [of obs c quota] by (simp add: spsc_queue_empty_iff)
  then show ?thesis
    by (simp add: rx_recv_def rx_recv_all_def rx_recv_batch_def rx_recv_loop_eq del: rx_recv_many_loop.simps)
qed

theorem spsc_recv_misses_close_witness:
  "\<exists>sh p c. spsc_channel_with_wait 4 = Done (sh :: nat spsc_shared, p, c) \<and>
     sh_closed (tx_drop sh) \<and> rx_recv (sh # sh # replicate 100 (tx_drop sh)) c = Blocked"
proof -
  let ?s = "spsc_handles 4 \<lparr>rb_slots = [Uninit :: nat slot, Uninit, Uninit, Uninit], rb_mask = 3, rb_capacity = 4\<rparr>"
  let ?sh = "fst ?s" and ?c = "snd (snd ?s)"
  have n: "spsc_channel_with_wait 4 = Done ?s" by code_simp
  have f: "spsc_queue ?sh ?c = []" "\<not> sh_closed ?sh" "strong_count ?sh = 2" "\<not> rx_cached_disconnected ?c"
    "sh_closed (tx_drop ?sh)" "spsc_queue (tx_drop ?sh) ?c = []" by code_simp+
  then have "\<forall>s \<in> set (replicate 100 (tx_drop ?sh)). spsc_queue s ?c = []" by simp
  from spsc_recv_misses_close [OF f(1-4) this] n f(5) show ?thesis
    by (intro exI [of _ ?sh] exI [of _ "fst (snd ?s)"] exI [of _ ?c]) simp
qed

text \<open>
  C30. On a channel made without a factory, the first claim of every cell returns a reference
  to memory that was never initialised; on any channel, so does the claim of a cell whose
  event was received by value.
\<close>

theorem spsc_claim_uninitialised:
  assumes "ring_slot (sh_buffer sh) (tx_next_sequence p) = Uninit"
    and "spsc_inv sh p c" "spsc_settled sh p" "spsc_open sh p c"
    and "length (spsc_queue sh c) < unat (rb_capacity (sh_buffer sh))"
  shows "\<exists>p'. tx_try_claim sh p = Done (Inr None, p', sh)"
proof -
  have d: "tx_is_disconnected sh p = (False, p)"
    using assms(4) by (simp add: tx_is_disconnected_def spsc_open_def)
  obtain ok p2 where h: "tx_has_space sh p = (ok, p2)" by (cases "tx_has_space sh p")
  have ok: "ok" using tx_has_space_spec(3) [OF assms(2,3) h] assms(5) by simp
  have "tx_next_sequence p2 = tx_next_sequence p"
    by (subst tx_has_space_spec(5) [OF assms(2,3) h]) simp
  then show ?thesis
    using assms(1,4) d h ok by (simp add: tx_try_claim_def spsc_open_def ring_get_def)
qed

theorem spsc_claim_uninitialised_witness:
  "\<exists>sh p c p'. spsc_channel_with_wait 2 = Done (sh :: nat spsc_shared, p, c) \<and>
     tx_try_claim sh p = Done (Inr None, p', sh)"
proof -
  let ?s = "spsc_handles 2 \<lparr>rb_slots = [Uninit :: nat slot, Uninit], rb_mask = 1, rb_capacity = 2\<rparr>"
  let ?sh = "fst ?s" and ?p = "fst (snd ?s)" and ?c = "snd (snd ?s)"
  have n: "spsc_channel_with_wait 2 = Done ?s" by code_simp
  have f: "ring_slot (sh_buffer ?sh) (tx_next_sequence ?p) = Uninit" "spsc_inv ?sh ?p ?c"
    "spsc_settled ?sh ?p" "spsc_open ?sh ?p ?c"
    "length (spsc_queue ?sh ?c) < unat (rb_capacity (sh_buffer ?sh))" by code_simp+
  from spsc_claim_uninitialised [OF f] n show ?thesis by (metis prod.collapse)
qed

end
