(* ===== verification/Spsc_Interleaving.thy ===== *)
theory Spsc_Interleaving
  imports Spsc_Channel "HOL-Library.Sublist"
begin

text \<open>
  The two threads of an SPSC channel, interleaved at every access to shared memory: the space
  check, the write of the cell and the store of the producer cursor on one side, the
  availability check, the move out of the cell and the store of the consumer cursor on the
  other. Between any two of these accesses the other thread may run. Ghost lists record the
  published and the received events.

  The invariant is proved step by step; it gives that the threads never touch the same cell at
  the same time, that the consumer only reads initialised cells, and that it receives the
  published events in order.
\<close>

section \<open>Steps\<close>

datatype 'a tx_pc = TxIdle | TxChecked 'a | TxWritten 'a

datatype 'a rx_pc = RxIdle | RxChecked | RxRead 'a

record 'a il_state =
  il_sh :: "'a spsc_shared"
  il_tx :: spsc_producer
  il_rx :: spsc_consumer
  tx_at :: "'a tx_pc"
  rx_at :: "'a rx_pc"
  sent :: "'a list"
  received :: "'a list"

inductive il_step :: "'a il_state \<Rightarrow> 'a il_state \<Rightarrow> bool" where
  tx_check: "tx_at s = TxIdle \<Longrightarrow> tx_has_space (il_sh s) (il_tx s) = (True, p) \<Longrightarrow>
     il_step s (s\<lparr>il_tx := p, tx_at := TxChecked e\<rparr>)"
| tx_full: "tx_at s = TxIdle \<Longrightarrow> tx_has_space (il_sh s) (il_tx s) = (False, p) \<Longrightarrow>
     il_step s (s\<lparr>il_tx := p\<rparr>)"
| tx_write: "tx_at s = TxChecked e \<Longrightarrow>
     il_step s (s\<lparr>il_sh := (il_sh s)\<lparr>sh_buffer :=
                   ring_write (sh_buffer (il_sh s)) (tx_next_sequence (il_tx s)) e\<rparr>,
                 tx_at := TxWritten e\<rparr>)"
| tx_set_cursor: "tx_at s = TxWritten e \<Longrightarrow>
     il_step s (s\<lparr>il_sh := (il_sh s)\<lparr>producer_cursor := tx_next_sequence (il_tx s)\<rparr>,
                 il_tx := (il_tx s)\<lparr>tx_next_sequence := tx_next_sequence (il_tx s) + 1\<rparr>,
                 tx_at := TxIdle, sent := sent s @ [e]\<rparr>)"
| rx_check: "rx_at s = RxIdle \<Longrightarrow> producer_cursor (il_sh s) \<ge> rx_next_sequence (il_rx s) \<Longrightarrow>
     il_step s (s\<lparr>rx_at := RxChecked\<rparr>)"
| rx_read: "rx_at s = RxChecked \<Longrightarrow>
     ring_read (sh_buffer (il_sh s)) (rx_next_sequence (il_rx s)) = Some (e, rb) \<Longrightarrow>
     il_step s (s\<lparr>il_sh := (il_sh s)\<lparr>sh_buffer := rb\<rparr>, rx_at := RxRead e\<rparr>)"
| rx_set_cursor: "rx_at s = RxRead e \<Longrightarrow>
     il_step s (s\<lparr>il_sh := (il_sh s)\<lparr>consumer_cursor := rx_next_sequence (il_rx s)\<rparr>,
                 il_rx := (il_rx s)\<lparr>rx_next_sequence := rx_next_sequence (il_rx s) + 1\<rparr>,
                 rx_at := RxIdle, received := received s @ [e]\<rparr>)"

definition il_init :: "'a spsc_state \<Rightarrow> 'a il_state" where
  "il_init = (\<lambda>(sh, p, c).
     \<lparr>il_sh = sh, il_tx = p, il_rx = c, tx_at = TxIdle, rx_at = RxIdle, sent = [], received = []\<rparr>)"

inductive il_reachable :: "'a il_state \<Rightarrow> bool" where
  start: "spsc_channel_with_wait capacity = Done s0 \<Longrightarrow> capacity \<noteq> 2 ^ 63 \<Longrightarrow> il_reachable (il_init s0)"
| step: "il_reachable s \<Longrightarrow> il_step s s' \<Longrightarrow> il_reachable s'"

section \<open>Invariant\<close>

abbreviation il_buf :: "'a il_state \<Rightarrow> 'a ring_buffer" where
  "il_buf s \<equiv> sh_buffer (il_sh s)"

abbreviation il_j :: "'a il_state \<Rightarrow> i64" where
  "il_j s \<equiv> tx_next_sequence (il_tx s)"

text \<open>The first live cell: after the move out, and before the cursor store, it is the next one.\<close>

definition il_i :: "'a il_state \<Rightarrow> i64" where
  "il_i s = rx_next_sequence (il_rx s) + (case rx_at s of RxRead _ \<Rightarrow> 1 | _ \<Rightarrow> 0)"

definition il_in_hand :: "'a il_state \<Rightarrow> 'a list" where
  "il_in_hand s = (case rx_at s of RxRead e \<Rightarrow> [e] | _ \<Rightarrow> [])"

definition il_inv :: "'a il_state \<Rightarrow> bool" where
  "il_inv s \<longleftrightarrow>
     ring_wf (il_buf s) \<and> tx_capacity (il_tx s) = ring_size (il_buf s) \<and>
     producer_cursor (il_sh s) = il_j s - 1 \<and>
     consumer_cursor (il_sh s) = rx_next_sequence (il_rx s) - 1 \<and>
     cached_consumer (il_tx s) \<le> consumer_cursor (il_sh s) \<and>
     il_i s \<le> il_j s \<and> il_j s \<le> rx_next_sequence (il_rx s) + ring_size (il_buf s) \<and>
     ring_init (il_buf s) (il_i s) (il_j s) \<and>
     (case tx_at s of
        TxIdle \<Rightarrow> True
      | TxChecked e \<Rightarrow> il_j s - ring_size (il_buf s) \<le> consumer_cursor (il_sh s)
      | TxWritten e \<Rightarrow> il_j s - ring_size (il_buf s) \<le> consumer_cursor (il_sh s) \<and>
          ring_slot (il_buf s) (il_j s) = Init e) \<and>
     (rx_at s = RxChecked \<longrightarrow> il_i s < il_j s) \<and>
     sent s = received s @ il_in_hand s @ ring_contents (il_buf s) (il_i s) (il_j s)"

lemma il_inv_init:
  assumes "spsc_channel_with_wait capacity = Done s0" "capacity \<noteq> 2 ^ 63"
  shows "il_inv (il_init s0)"
proof -
  obtain sh p c rb where s0: "s0 = (sh, p, c)" "ring_new capacity = Done rb"
    "spsc_handles capacity rb = (sh, p, c)"
    using assms(1) by (cases s0) (auto simp: spsc_channel_with_wait_def run_bind_eq_Done)
  have "spsc_inv sh p c" "spsc_settled sh p" "spsc_queue sh c = []"
    using spsc_handles_inv [OF ring_new_wf [OF s0(2)] ring_new_capacity [OF s0(2)] assms(2) s0(3)]
    by simp_all
  then show ?thesis
    by (auto simp: s0(1) il_init_def il_inv_def il_i_def il_in_hand_def spsc_defs)
qed

text \<open>A cell written at \<open>j\<close> joins the window when the cursor moves.\<close>

lemma ring_window_extend:
  assumes "ring_init rb i j" "i \<le> j" "ring_slot rb j = Init e"
  shows "ring_init rb i (j + 1)" "ring_contents rb i (j + 1) = ring_contents rb i j @ [e]"
proof -
  have "{i..<j + 1} = insert j {i..<j}" using assms(2) by auto
  then show "ring_init rb i (j + 1)" using assms by (simp add: ring_init_def)
  show "ring_contents rb i (j + 1) = ring_contents rb i j @ [e]"
    using assms(2,3) by (simp add: ring_contents_def upto_snoc)
qed

lemma ring_window_write:
  assumes "ring_wf rb" "ring_init rb i j" "j < i + ring_size rb"
  shows "ring_init (ring_write rb j e) i j" "ring_contents (ring_write rb j e) i j = ring_contents rb i j"
  using ring_slot_write_other [OF assms(1) _ _ assms(3)] assms(2)
  by (auto simp: ring_init_def ring_contents_def ring_get_def)

lemma il_step_inv:
  assumes "il_step s s'" "il_inv s"
  shows "il_inv s'"
  using assms
proof cases
  case (tx_check p e)
  then show ?thesis
    using assms(2)
    by (auto simp: il_inv_def il_i_def il_in_hand_def tx_has_space_def Let_def split: if_splits)
next
  case (tx_full p)
  then show ?thesis
    using assms(2)
    by (auto simp: il_inv_def il_i_def il_in_hand_def tx_has_space_def Let_def split: if_splits)
next
  case (tx_write e)
  have w: "ring_wf (il_buf s)" "ring_init (il_buf s) (il_i s) (il_j s)" "il_j s < il_i s + ring_size (il_buf s)"
    using tx_write assms(2) by (auto simp: il_inv_def il_i_def split: rx_pc.splits)
  have "il_i s' = il_i s" "il_in_hand s' = il_in_hand s" using tx_write by (simp_all add: il_i_def il_in_hand_def)
  with tx_write assms(2) ring_window_write [OF w, of e] show ?thesis
    by (simp add: il_inv_def ring_slot_write)
next
  case (tx_set_cursor e)
  have w: "ring_init (il_buf s) (il_i s) (il_j s)" "il_i s \<le> il_j s" "ring_slot (il_buf s) (il_j s) = Init e"
    using tx_set_cursor assms(2) by (auto simp: il_inv_def)
  have "il_i s' = il_i s" "il_in_hand s' = il_in_hand s" using tx_set_cursor by (simp_all add: il_i_def il_in_hand_def)
  with tx_set_cursor assms(2) ring_window_extend [OF w] show ?thesis by (auto simp: il_inv_def)
next
  case rx_check
  then show ?thesis
    using assms(2) by (auto simp: il_inv_def il_i_def il_in_hand_def split: tx_pc.splits)
next
  case (rx_read e rb)
  have i: "il_i s = rx_next_sequence (il_rx s)" "il_i s' = il_i s + 1" "il_in_hand s = []" "il_in_hand s' = [e]"
    using rx_read by (simp_all add: il_i_def il_in_hand_def)
  have w: "ring_wf (il_buf s)" "ring_init (il_buf s) (il_i s) (il_j s)" "il_j s \<le> il_i s + ring_size (il_buf s)"
    "il_i s < il_j s" using rx_read assms(2) i by (auto simp: il_inv_def)
  have r: "ring_read (il_buf s) (il_i s) = Some (e, rb)" using rx_read i by simp
  have "ring_slot rb (il_j s) = ring_slot (il_buf s) (il_j s)" if "il_j s - ring_size (il_buf s) \<le> il_i s - 1"
    using ring_read_other [OF w(1) r] w(4) that by simp
  with rx_read assms(2) i w ring_init_read [OF w(1) r w(2,3)] ring_contents_read [OF w(1) r w(4,3)]
    ring_read_frame [OF r]
  show ?thesis by (auto simp: il_inv_def split: tx_pc.splits)
next
  case (rx_set_cursor e)
  have "il_i s' = il_i s" "il_in_hand s = [e]" "il_in_hand s' = []"
    "rx_next_sequence (il_rx s) + 1 = il_i s"
    using rx_set_cursor by (simp_all add: il_i_def il_in_hand_def)
  with rx_set_cursor assms(2) show ?thesis by (auto simp: il_inv_def split: tx_pc.splits)
qed

lemma il_reachable_inv: "il_reachable s \<Longrightarrow> il_inv s"
  by (induction rule: il_reachable.induct) (auto intro: il_inv_init il_step_inv)

section \<open>The steps and the calls\<close>

text \<open>
  Run without interruption, the steps of a thread are the calls of the channel: a successful
  \<open>try_send\<close> is the three producer steps, a successful \<open>try_recv\<close> the three consumer steps.
\<close>

lemma three_steps: "r a b \<Longrightarrow> r b c \<Longrightarrow> r c d \<Longrightarrow> r\<^sup>*\<^sup>* a d"
  by (simp add: converse_rtranclp_into_rtranclp)

lemma il_steps_try_send:
  assumes "tx_try_send e (il_sh s) (il_tx s) = Done (Inr (), p', sh')" "tx_at s = TxIdle"
    "spsc_open (il_sh s) (il_tx s) c"
  shows "il_step\<^sup>*\<^sup>* s (s\<lparr>il_sh := sh', il_tx := p', sent := sent s @ [e]\<rparr>)"
proof -
  have d: "tx_is_disconnected (il_sh s) (il_tx s) = (False, il_tx s)"
    using assms(3) by (simp add: tx_is_disconnected_def spsc_open_def)
  then obtain p where p: "tx_has_space (il_sh s) (il_tx s) = (True, p)"
    and w: "tx_write_publish e (il_sh s) p = (p', sh')"
    using assms(1) by (auto simp: tx_try_send_def split: if_splits prod.splits bool.splits)
  define s1 where "s1 = s\<lparr>il_tx := p, tx_at := TxChecked e\<rparr>"
  define s2 where "s2 = s1\<lparr>il_sh := (il_sh s1)\<lparr>sh_buffer :=
      ring_write (sh_buffer (il_sh s1)) (tx_next_sequence (il_tx s1)) e\<rparr>, tx_at := TxWritten e\<rparr>"
  define s3 where "s3 = s2\<lparr>il_sh := (il_sh s2)\<lparr>producer_cursor := tx_next_sequence (il_tx s2)\<rparr>,
      il_tx := (il_tx s2)\<lparr>tx_next_sequence := tx_next_sequence (il_tx s2) + 1\<rparr>,
      tx_at := TxIdle, sent := sent s2 @ [e]\<rparr>"
  have "il_step s s1" unfolding s1_def using assms(2) p by (rule il_step.tx_check)
  moreover have "il_step s1 s2" unfolding s2_def by (rule il_step.tx_write) (simp add: s1_def)
  moreover have "il_step s2 s3" unfolding s3_def by (rule il_step.tx_set_cursor) (simp add: s2_def)
  ultimately have "il_step\<^sup>*\<^sup>* s s3" by (rule three_steps)
  moreover have "s3 = s\<lparr>il_sh := sh', il_tx := p', sent := sent s @ [e]\<rparr>"
    using w assms(2) by (auto simp: s1_def s2_def s3_def tx_write_publish_def)
  ultimately show ?thesis by simp
qed

lemma il_steps_try_recv:
  assumes "rx_try_recv (il_sh s) sh2 (il_rx s) = Done (Inr e, c', sh')" "rx_at s = RxIdle"
  shows "il_step\<^sup>*\<^sup>* s (s\<lparr>il_sh := sh', il_rx := c', received := received s @ [e]\<rparr>)"
proof -
  obtain rb where r: "rx_next_sequence (il_rx s) \<le> producer_cursor (il_sh s)"
    "ring_read (il_buf s) (rx_next_sequence (il_rx s)) = Some (e, rb)"
    "c' = (il_rx s)\<lparr>rx_next_sequence := rx_next_sequence (il_rx s) + 1\<rparr>"
    "sh' = (il_sh s)\<lparr>sh_buffer := rb, consumer_cursor := rx_next_sequence (il_rx s)\<rparr>"
    using assms(1)
    by (auto simp: rx_try_recv_def rx_take_def run_bind_eq_Done split: if_splits prod.splits)
  define s1 where "s1 = s\<lparr>rx_at := RxChecked\<rparr>"
  define s2 where "s2 = s1\<lparr>il_sh := (il_sh s1)\<lparr>sh_buffer := rb\<rparr>, rx_at := RxRead e\<rparr>"
  define s3 where "s3 = s2\<lparr>il_sh := (il_sh s2)\<lparr>consumer_cursor := rx_next_sequence (il_rx s2)\<rparr>,
      il_rx := (il_rx s2)\<lparr>rx_next_sequence := rx_next_sequence (il_rx s2) + 1\<rparr>,
      rx_at := RxIdle, received := received s2 @ [e]\<rparr>"
  have "il_step s s1" unfolding s1_def using assms(2) r(1) by (rule il_step.rx_check)
  moreover have "il_step s1 s2" unfolding s2_def by (rule il_step.rx_read) (use r in \<open>simp_all add: s1_def\<close>)
  moreover have "il_step s2 s3" unfolding s3_def by (rule il_step.rx_set_cursor) (simp add: s2_def)
  ultimately have "il_step\<^sup>*\<^sup>* s s3" by (rule three_steps)
  moreover have "s3 = s\<lparr>il_sh := sh', il_rx := c', received := received s @ [e]\<rparr>"
    using r assms(2) by (simp add: s1_def s2_def s3_def)
  ultimately show ?thesis by simp
qed

text \<open>
  C6. In every reachable interleaving of the producer and the consumer of an SPSC channel,
  the received events are a prefix of the published ones; a producer about to write and a
  consumer about to move an event out are at different cells; the consumer's read is of an
  initialised cell, and the event it takes is the next one that was published.
\<close>

theorem spsc_interleaving_safe:
  assumes "il_reachable s"
  shows "prefix (received s) (sent s) \<and>
     (\<forall>e. tx_at s = TxChecked e \<and> rx_at s = RxChecked \<longrightarrow>
        ring_index (il_buf s) (tx_next_sequence (il_tx s)) \<noteq>
        ring_index (il_buf s) (rx_next_sequence (il_rx s))) \<and>
     (rx_at s = RxChecked \<longrightarrow>
        (\<exists>e rb. ring_read (il_buf s) (rx_next_sequence (il_rx s)) = Some (e, rb) \<and>
           length (received s) < length (sent s) \<and> e = sent s ! length (received s)))"
proof (intro conjI allI impI)
  have inv: "il_inv s" using assms by (rule il_reachable_inv)
  then show "prefix (received s) (sent s)" by (auto simp: il_inv_def)
  fix e
  assume "tx_at s = TxChecked e \<and> rx_at s = RxChecked"
  with inv show "ring_index (il_buf s) (il_j s) \<noteq> ring_index (il_buf s) (rx_next_sequence (il_rx s))"
    by (intro ring_index_neq) (auto simp: il_inv_def il_i_def)
next
  have inv: "il_inv s" using assms by (rule il_reachable_inv)
  assume c: "rx_at s = RxChecked"
  let ?i = "rx_next_sequence (il_rx s)"
  have w: "ring_wf (il_buf s)" "ring_init (il_buf s) ?i (il_j s)" "?i < il_j s"
    "il_j s \<le> ?i + ring_size (il_buf s)" "sent s = received s @ ring_contents (il_buf s) ?i (il_j s)"
    using inv c by (auto simp: il_inv_def il_i_def il_in_hand_def)
  obtain e rb where r: "ring_read (il_buf s) ?i = Some (e, rb)"
    using ring_read_init [OF w(2)] w(3) by blast
  have "ring_contents (il_buf s) ?i (il_j s) = e # ring_contents rb (?i + 1) (il_j s)"
    by (rule ring_contents_read [OF w(1) r w(3,4)])
  with r w(5) show "\<exists>e rb. ring_read (il_buf s) ?i = Some (e, rb) \<and>
     length (received s) < length (sent s) \<and> e = sent s ! length (received s)" by auto
qed

theorem spsc_interleaving_safe_witness:
  "\<exists>s :: nat il_state. il_reachable s \<and> tx_at s = TxChecked 20 \<and> rx_at s = RxChecked \<and>
     ring_index (il_buf s) (tx_next_sequence (il_tx s)) \<noteq>
     ring_index (il_buf s) (rx_next_sequence (il_rx s)) \<and> sent s ! length (received s) = 10"
proof -
  let ?h = "spsc_handles 2 \<lparr>rb_slots = [Uninit :: nat slot, Uninit], rb_mask = 1, rb_capacity = 2\<rparr>"
  let ?s0 = "il_init ?h"
  have h: "spsc_channel_with_wait 2 = Done ?h" by code_simp
  have r0: "il_reachable ?s0" by (rule il_reachable.start [OF h]) simp
  define p' where "p' = \<lparr>cached_consumer = - 1, tx_next_sequence = 1, tx_capacity = 2,
     tx_claimed = False, tx_cached_disconnected = False\<rparr>"
  define sh' where "sh' = \<lparr>sh_buffer = \<lparr>rb_slots = [Init (10 :: nat), Uninit], rb_mask = 1, rb_capacity = 2\<rparr>,
     producer_cursor = 0, consumer_cursor = - 1, sh_closed = False, strong_count = 2\<rparr>"
  have snd: "tx_try_send 10 (il_sh ?s0) (il_tx ?s0) = Done (Inr (), p', sh')"
    unfolding p'_def sh'_def by code_simp
  have sp: "tx_has_space sh' p' = (True, p')" and pc: "producer_cursor sh' = 0"
    unfolding p'_def sh'_def by code_simp+
  have "spsc_open (il_sh ?s0) (il_tx ?s0) (il_rx ?s0)" "tx_at ?s0 = TxIdle" by code_simp+
  from il_steps_try_send [OF snd this(2,1)]
  have "il_step\<^sup>*\<^sup>* ?s0 (?s0\<lparr>il_sh := sh', il_tx := p', sent := [10]\<rparr>)" (is "il_step\<^sup>*\<^sup>* _ ?s1")
    by (simp add: il_init_def spsc_handles_def)
  then have r1: "il_reachable ?s1"
    using r0 by (induction rule: rtranclp_induct) (auto intro: il_reachable.step)
  let ?s2 = "?s1\<lparr>il_tx := p', tx_at := TxChecked 20\<rparr>"
  have r2: "il_reachable ?s2"
    by (rule il_reachable.step [OF r1], rule il_step.tx_check) (use sp in \<open>simp_all add: il_init_def spsc_handles_def\<close>)
  let ?s3 = "?s2\<lparr>rx_at := RxChecked\<rparr>"
  have r3: "il_reachable ?s3"
    by (rule il_reachable.step [OF r2], rule il_step.rx_check)
      (use pc in \<open>simp_all add: il_init_def spsc_handles_def\<close>)
  have "tx_at ?s3 = TxChecked 20 \<and> rx_at ?s3 = RxChecked" by simp
  with spsc_interleaving_safe [OF r3] r3 have "ring_index (il_buf ?s3) (tx_next_sequence (il_tx ?s3)) \<noteq>
     ring_index (il_buf ?s3) (rx_next_sequence (il_rx ?s3))" by blast
  moreover have "sent ?s3 ! length (received ?s3) = 10" by (simp add: il_init_def spsc_handles_def)
  ultimately show ?thesis using r3 by (intro exI [of _ ?s3]) simp
qed

end
