(* ===== verification/Mpsc_Channel.thy ===== *)
theory Mpsc_Channel
  imports Ring_Buffer Channel_Error
begin

unbundle bit_operations_syntax

text \<open>
  The multi-producer single-consumer channel of \<open>channel/src/mpsc\<close>: the availability bitmap,
  the producer and consumer operations and the batch handle.

  An operation that accesses shared memory more than once takes the effects of the other
  threads between its accesses, a list of functions on the shared state; a spin loop is
  \<open>Blocked\<close> when the list ends first.

  A sequence is published by flipping its bit of the bitmap. The bit that marks a sequence as
  published alternates with the lap of the ring, so that no bit ever has to be cleared. The
  lemmas show that the batched flip equals the single flips, that the word-wise scan finds the
  end of the contiguous published run, and when the alternating bit is unambiguous.
\<close>

section \<open>Shared state and the availability bitmap\<close>

abbreviation BITS_PER_WORD :: usize where
  "BITS_PER_WORD \<equiv> 64"

record 'a mpsc_shared =
  mp_buffer :: "'a ring_buffer"
  claim_cursor :: i64
  mp_consumer_cursor :: i64
  availability :: "u64 list"
  availability_words :: usize
  producer_count :: nat
  mp_closed :: bool
  mp_capacity :: usize
  mp_strong_count :: nat

record mpsc_consumer =
  mrx_next_sequence :: i64

definition mp_create_shared :: "usize \<Rightarrow> 'a ring_buffer \<Rightarrow> 'a mpsc_shared" where
  "mp_create_shared capacity buffer =
     (let words = (capacity + BITS_PER_WORD - 1) div BITS_PER_WORD in
      \<lparr>mp_buffer = buffer, claim_cursor = - 1, mp_consumer_cursor = - 1,
       availability = replicate (unat words) (NOT 0), availability_words = words,
       producer_count = 1, mp_closed = False, mp_capacity = capacity, mp_strong_count = 2\<rparr>)"

definition mpsc_channel_with_wait :: "usize \<Rightarrow> ('a mpsc_shared \<times> mpsc_consumer) run" where
  "mpsc_channel_with_wait capacity =
     run_bind (ring_new capacity)
       (\<lambda>buffer. Done (mp_create_shared capacity buffer, \<lparr>mrx_next_sequence = 0\<rparr>))"

definition mpsc_channel_with_factory ::
    "usize \<Rightarrow> (nat \<Rightarrow> 'a) \<Rightarrow> ('a mpsc_shared \<times> mpsc_consumer) run" where
  "mpsc_channel_with_factory capacity factory =
     run_bind (ring_with_factory capacity factory)
       (\<lambda>buffer. Done (mp_create_shared capacity buffer, \<lparr>mrx_next_sequence = 0\<rparr>))"

definition word_index :: "'a mpsc_shared \<Rightarrow> i64 \<Rightarrow> nat" where
  "word_index sh sequence =
     unat ((word_of_int sequence :: usize) div BITS_PER_WORD mod availability_words sh)"

definition bit_index :: "i64 \<Rightarrow> nat" where
  "bit_index sequence = unat ((word_of_int sequence :: usize) mod BITS_PER_WORD)"

definition is_published :: "'a mpsc_shared \<Rightarrow> i64 \<Rightarrow> bool" where
  "is_published sh sequence =
     (let word = availability sh ! word_index sh sequence;
          expected_bit = (word_of_int sequence :: usize) div mp_capacity sh AND 1;
          actual_bit = drop_bit (bit_index sequence) word AND 1 in
      actual_bit = expected_bit)"

text \<open>The atomic \<open>fetch_xor\<close> of one word of the bitmap.\<close>

definition fetch_xor :: "nat \<Rightarrow> u64 \<Rightarrow> 'a mpsc_shared \<Rightarrow> 'a mpsc_shared" where
  "fetch_xor i m sh = sh\<lparr>availability := (availability sh)[i := (availability sh ! i) XOR m]\<rparr>"

definition mark_published :: "i64 \<Rightarrow> 'a mpsc_shared \<Rightarrow> 'a mpsc_shared" where
  "mark_published sequence sh =
     fetch_xor (word_index sh sequence) (push_bit (bit_index sequence) 1) sh"

fun mark_batch_loop ::
    "i64 \<Rightarrow> nat \<Rightarrow> u64 \<Rightarrow> nat \<Rightarrow> 'a mpsc_shared \<Rightarrow> 'a mpsc_shared" where
  "mark_batch_loop seq 0 flip_mask current_word_idx sh =
     (if flip_mask \<noteq> 0 then fetch_xor current_word_idx flip_mask sh else sh)"
| "mark_batch_loop seq (Suc n) flip_mask current_word_idx sh =
     (let word_idx = word_index sh seq; bit_mask = push_bit (bit_index seq) 1 in
      if word_idx \<noteq> current_word_idx
      then mark_batch_loop (seq + 1) n bit_mask word_idx
             (if flip_mask \<noteq> 0 then fetch_xor current_word_idx flip_mask sh else sh)
      else mark_batch_loop (seq + 1) n (flip_mask OR bit_mask) current_word_idx sh)"

definition mark_published_batch :: "i64 \<Rightarrow> nat \<Rightarrow> 'a mpsc_shared \<Rightarrow> 'a mpsc_shared" where
  "mark_published_batch start count sh =
     (if count = 0 then sh else mark_batch_loop start count 0 (word_index sh start) sh)"

definition expected_pattern :: "'a mpsc_shared \<Rightarrow> i64 \<Rightarrow> u64" where
  "expected_pattern sh sequence =
     (if (word_of_int sequence :: usize) div mp_capacity sh AND 1 = 0 then 0 else NOT 0)"

definition trailing_zeros :: "u64 \<Rightarrow> nat" where
  "trailing_zeros w = length (takeWhile (\<lambda>i. \<not> bit w i) [0..<64])"

text \<open>The bit index is below 64 in every call; the test makes the recursion total.\<close>

function highest_loop :: "'a mpsc_shared \<Rightarrow> i64 \<Rightarrow> i64 \<Rightarrow> nat \<Rightarrow> nat \<Rightarrow> i64" where
  "highest_loop sh claim seq word_idx bit_idx =
     (if seq > claim \<or> \<not> bit_idx < 64 then seq - 1
      else (let word = availability sh ! word_idx;
                mismatches = word XOR expected_pattern sh seq;
                relevant_mismatches = mismatches AND push_bit bit_idx (NOT 0) in
            if relevant_mismatches \<noteq> 0
            then seq + (int (trailing_zeros relevant_mismatches) - int bit_idx) - 1
            else highest_loop sh claim (seq + (64 - int bit_idx))
                   ((word_idx + 1) mod unat (availability_words sh)) 0))"
  by pat_completeness auto
termination
  by (relation "measure (\<lambda>(sh, claim, seq, w, b). nat (claim + 1 - seq))") auto

declare highest_loop.simps [simp del]

definition highest_published :: "'a mpsc_shared \<Rightarrow> i64 \<Rightarrow> i64" where
  "highest_published sh from =
     (if from > claim_cursor sh then from - 1
      else highest_loop sh (claim_cursor sh) from (word_index sh from) (bit_index from))"

text \<open>Dropping the shared state: the published events that were not consumed.\<close>

definition mpsc_shared_drop :: "'a mpsc_shared \<Rightarrow> 'a option list" where
  "mpsc_shared_drop sh =
     (if claim_cursor sh > mp_consumer_cursor sh
      then map (ring_get (mp_buffer sh))
             (filter (is_published sh) [mp_consumer_cursor sh + 1..claim_cursor sh])
      else [])"

section \<open>Producers\<close>

type_synonym 'a mpsc_env = "('a mpsc_shared \<Rightarrow> 'a mpsc_shared) list"

definition mtx_is_disconnected :: "'a mpsc_shared \<Rightarrow> bool" where
  "mtx_is_disconnected sh \<longleftrightarrow> mp_closed sh \<or> (producer_count sh = 0 \<and> mp_strong_count sh = 1)"

text \<open>The claim by \<open>fetch_add\<close>: the new value of the cursor.\<close>

definition mtx_fetch_add :: "i64 \<Rightarrow> 'a mpsc_shared \<Rightarrow> i64 \<times> 'a mpsc_shared" where
  "mtx_fetch_add n sh = (claim_cursor sh + n, sh\<lparr>claim_cursor := claim_cursor sh + n\<rparr>)"

fun mtx_wait_loop ::
    "i64 \<Rightarrow> 'a mpsc_env \<Rightarrow> 'a mpsc_shared \<Rightarrow> ((unit send_error + unit) \<times> 'a mpsc_shared) run" where
  "mtx_wait_loop wrap_point [] sh = Blocked"
| "mtx_wait_loop wrap_point (f # env) sh =
     (let sh1 = f sh in
      if \<not> mp_consumer_cursor sh1 < wrap_point then Done (Inr (), sh1)
      else if mtx_is_disconnected sh1 then Done (Inl (SendError ()), sh1)
      else mtx_wait_loop wrap_point env sh1)"

definition mtx_write_publish :: "i64 \<Rightarrow> 'a \<Rightarrow> 'a mpsc_shared \<Rightarrow> 'a mpsc_shared" where
  "mtx_write_publish sequence event sh =
     mark_published sequence (sh\<lparr>mp_buffer := ring_write (mp_buffer sh) sequence event\<rparr>)"

definition mtx_send ::
    "'a \<Rightarrow> 'a mpsc_env \<Rightarrow> 'a mpsc_shared \<Rightarrow> (('a send_error + unit) \<times> 'a mpsc_shared) run" where
  "mtx_send event env sh =
     (if mtx_is_disconnected sh then Done (Inl (SendError event), sh)
      else (case mtx_fetch_add 1 sh of
              (sequence, sh1) \<Rightarrow>
                run_bind (mtx_wait_loop (sequence - sint (mp_capacity sh)) env sh1)
                  (\<lambda>(r, sh2). case r of
                     Inl _ \<Rightarrow> Done (Inl (SendError event), sh2)
                   | Inr _ \<Rightarrow> Done (Inr (), mtx_write_publish sequence event sh2))))"

text \<open>
  The bounded retries of the non-blocking claim. One attempt loads both cursors and then does
  the compare-and-exchange; the element of the environment is what happens in between.
\<close>

fun mtx_try_claim_loop ::
    "nat \<Rightarrow> i64 \<Rightarrow> 'a mpsc_env \<Rightarrow> 'a mpsc_shared \<Rightarrow> ((unit + i64) \<times> 'a mpsc_shared) run" where
  "mtx_try_claim_loop 0 n env sh = Done (Inl (), sh)"
| "mtx_try_claim_loop (Suc k) n [] sh = Blocked"
| "mtx_try_claim_loop (Suc k) n (f # env) sh =
     (let current = claim_cursor sh; next_seq = current + n;
          wrap_point = next_seq - sint (mp_capacity sh) in
      if mp_consumer_cursor sh < wrap_point then Done (Inl (), sh)
      else (let sh1 = f sh in
            if claim_cursor sh1 = current
            then Done (Inr next_seq, sh1\<lparr>claim_cursor := next_seq\<rparr>)
            else mtx_try_claim_loop k n env sh1))"

definition mtx_try_claim_sequence ::
    "'a mpsc_env \<Rightarrow> 'a mpsc_shared \<Rightarrow> ((unit + i64) \<times> 'a mpsc_shared) run" where
  "mtx_try_claim_sequence env sh = mtx_try_claim_loop 8 1 env sh"

definition mtx_try_send ::
    "'a \<Rightarrow> 'a mpsc_env \<Rightarrow> 'a mpsc_shared \<Rightarrow> (('a try_send_error + unit) \<times> 'a mpsc_shared) run" where
  "mtx_try_send event env sh =
     (if mtx_is_disconnected sh then Done (Inl (Disconnected event), sh)
      else run_bind (mtx_try_claim_sequence env sh)
             (\<lambda>(r, sh1). case r of
                Inl _ \<Rightarrow> Done (Inl (Full event), sh1)
              | Inr sequence \<Rightarrow> Done (Inr (), mtx_write_publish sequence event sh1)))"

record mpsc_batch =
  mb_start :: i64
  mb_count :: nat
  mb_published :: bool

definition mtx_claim_batch ::
    "nat \<Rightarrow> 'a mpsc_env \<Rightarrow> 'a mpsc_shared \<Rightarrow> ((unit send_error + mpsc_batch) \<times> 'a mpsc_shared) run" where
  "mtx_claim_batch n env sh =
     (if n = 0 \<or> \<not> n \<le> unat (mp_capacity sh) then Panicked
      else if mtx_is_disconnected sh then Done (Inl (SendError ()), sh)
      else (case mtx_fetch_add (int n) sh of
              (end_sequence, sh1) \<Rightarrow>
                run_bind (mtx_wait_loop (end_sequence - sint (mp_capacity sh)) env sh1)
                  (\<lambda>(r, sh2). case r of
                     Inl e \<Rightarrow> Done (Inl e, sh2)
                   | Inr _ \<Rightarrow> Done (Inr \<lparr>mb_start = end_sequence - int n + 1, mb_count = n,
                                       mb_published = False\<rparr>, sh2))))"

definition mtx_try_claim_batch ::
    "nat \<Rightarrow> 'a mpsc_env \<Rightarrow> 'a mpsc_shared \<Rightarrow> ((unit try_send_error + mpsc_batch) \<times> 'a mpsc_shared) run" where
  "mtx_try_claim_batch n env sh =
     (if n = 0 \<or> \<not> n \<le> unat (mp_capacity sh) then Panicked
      else if mtx_is_disconnected sh then Done (Inl (Disconnected ()), sh)
      else run_bind (mtx_try_claim_loop 8 (int n) env sh)
             (\<lambda>(r, sh1). case r of
                Inl _ \<Rightarrow> Done (Inl (Full ()), sh1)
              | Inr next_seq \<Rightarrow> Done (Inr \<lparr>mb_start = next_seq - int n + 1, mb_count = n,
                                      mb_published = False\<rparr>, sh1)))"

text \<open>
  \<open>get_mut\<close> and the caller's assignment through it: the old value of the cell is dropped, and
  returned, so the assignment is undefined on an uninitialised cell.
\<close>

definition mb_set ::
    "mpsc_batch \<Rightarrow> nat \<Rightarrow> 'a \<Rightarrow> 'a mpsc_shared \<Rightarrow> ('a \<times> 'a mpsc_shared) run" where
  "mb_set b i event sh =
     (if \<not> i < mb_count b then Panicked
      else run_bind (unsafe_run (ring_write_and_drop (mp_buffer sh) (mb_start b + int i) event))
             (\<lambda>(old, buffer). Done (old, sh\<lparr>mp_buffer := buffer\<rparr>)))"

definition mb_get :: "mpsc_batch \<Rightarrow> nat \<Rightarrow> 'a mpsc_shared \<Rightarrow> 'a run" where
  "mb_get b i sh =
     (if \<not> i < mb_count b then Panicked
      else unsafe_run (ring_get (mp_buffer sh) (mb_start b + int i)))"

definition mb_do_publish :: "mpsc_batch \<Rightarrow> 'a mpsc_shared \<Rightarrow> mpsc_batch \<times> 'a mpsc_shared" where
  "mb_do_publish b sh =
     (if mb_published b then (b, sh)
      else (b\<lparr>mb_published := True\<rparr>, mark_published_batch (mb_start b) (mb_count b) sh))"

definition mtx_close :: "'a mpsc_shared \<Rightarrow> 'a mpsc_shared" where
  "mtx_close sh = sh\<lparr>mp_closed := True\<rparr>"

definition mtx_clone :: "'a mpsc_shared \<Rightarrow> 'a mpsc_shared" where
  "mtx_clone sh = sh\<lparr>producer_count := producer_count sh + 1, mp_strong_count := mp_strong_count sh + 1\<rparr>"

definition mtx_drop :: "'a mpsc_shared \<Rightarrow> 'a mpsc_shared" where
  "mtx_drop sh =
     (let prev = producer_count sh;
          sh1 = sh\<lparr>producer_count := prev - 1, mp_strong_count := mp_strong_count sh - 1\<rparr> in
      if prev = 1 then sh1\<lparr>mp_closed := True\<rparr> else sh1)"

section \<open>Consumer\<close>

definition mrx_is_disconnected :: "'a mpsc_shared \<Rightarrow> bool" where
  "mrx_is_disconnected sh \<longleftrightarrow> mp_closed sh"

definition mrx_take ::
    "'a mpsc_shared \<Rightarrow> mpsc_consumer \<Rightarrow> ('a \<times> mpsc_consumer \<times> 'a mpsc_shared) run" where
  "mrx_take sh c =
     run_bind (unsafe_run (ring_read (mp_buffer sh) (mrx_next_sequence c)))
       (\<lambda>(event, buffer).
          Done (event, c\<lparr>mrx_next_sequence := mrx_next_sequence c + 1\<rparr>,
                sh\<lparr>mp_buffer := buffer, mp_consumer_cursor := mrx_next_sequence c\<rparr>))"

text \<open>
  One round of \<open>recv\<close>: the bitmap check, the disconnection check and the final bitmap check,
  each after a move of the other threads.
\<close>

datatype mrecv_phase = MPoll | MCheckClosed | MFinalCheck

fun mrx_recv_loop ::
    "mrecv_phase \<Rightarrow> 'a mpsc_env \<Rightarrow> 'a mpsc_shared \<Rightarrow> mpsc_consumer \<Rightarrow>
     ((recv_error + 'a) \<times> mpsc_consumer \<times> 'a mpsc_shared) run" where
  "mrx_recv_loop ph [] sh c = Blocked"
| "mrx_recv_loop MPoll (f # env) sh c =
     (if is_published (f sh) (mrx_next_sequence c)
      then run_bind (mrx_take (f sh) c) (\<lambda>(event, c', sh'). Done (Inr event, c', sh'))
      else mrx_recv_loop MCheckClosed env (f sh) c)"
| "mrx_recv_loop MCheckClosed (f # env) sh c =
     (if mrx_is_disconnected (f sh) then mrx_recv_loop MFinalCheck env (f sh) c
      else mrx_recv_loop MPoll env (f sh) c)"
| "mrx_recv_loop MFinalCheck (f # env) sh c =
     (if is_published (f sh) (mrx_next_sequence c) then mrx_recv_loop MPoll env (f sh) c
      else Done (Inl RecvError, c, f sh))"

definition mrx_recv ::
    "'a mpsc_env \<Rightarrow> 'a mpsc_shared \<Rightarrow> mpsc_consumer \<Rightarrow>
     ((recv_error + 'a) \<times> mpsc_consumer \<times> 'a mpsc_shared) run" where
  "mrx_recv env sh c = mrx_recv_loop MPoll env sh c"

definition mrx_not_available :: "'a mpsc_shared \<Rightarrow> try_recv_error" where
  "mrx_not_available sh = (if mrx_is_disconnected sh then RecvDisconnected else RecvEmpty)"

text \<open>\<open>f\<close> is the effect of the producers between the bitmap check and the closed check.\<close>

definition mrx_try_recv ::
    "('a mpsc_shared \<Rightarrow> 'a mpsc_shared) \<Rightarrow> 'a mpsc_shared \<Rightarrow> mpsc_consumer \<Rightarrow>
     ((try_recv_error + 'a) \<times> mpsc_consumer \<times> 'a mpsc_shared) run" where
  "mrx_try_recv f sh c =
     (if \<not> is_published sh (mrx_next_sequence c)
      then Done (Inl (mrx_not_available (f sh)), c, f sh)
      else run_bind (mrx_take sh c) (\<lambda>(event, c', sh'). Done (Inr event, c', sh')))"

definition mrx_peek ::
    "('a mpsc_shared \<Rightarrow> 'a mpsc_shared) \<Rightarrow> 'a mpsc_shared \<Rightarrow> mpsc_consumer \<Rightarrow>
     (try_recv_error + 'a) run" where
  "mrx_peek f sh c =
     (if \<not> is_published sh (mrx_next_sequence c) then Done (Inl (mrx_not_available (f sh)))
      else run_bind (unsafe_run (ring_get (mp_buffer sh) (mrx_next_sequence c)))
             (\<lambda>event. Done (Inr event)))"

definition mrx_close :: "'a mpsc_shared \<Rightarrow> 'a mpsc_shared" where
  "mrx_close sh = sh\<lparr>mp_closed := True\<rparr>"

definition mrx_pending :: "'a mpsc_shared \<Rightarrow> mpsc_consumer \<Rightarrow> nat" where
  "mrx_pending sh c =
     (let diff = highest_published sh (mrx_next_sequence c) - mrx_next_sequence c + 1 in
      if diff < 0 then 0 else nat diff)"

definition mrx_take_n ::
    "nat \<Rightarrow> 'a mpsc_shared \<Rightarrow> mpsc_consumer \<Rightarrow> ('a list \<times> mpsc_consumer \<times> 'a mpsc_shared) run" where
  "mrx_take_n count sh c =
     run_bind (unsafe_run (ring_read_n (mp_buffer sh) (mrx_next_sequence c) count))
       (\<lambda>(events, buffer).
          Done (events, c\<lparr>mrx_next_sequence := mrx_next_sequence c + int count\<rparr>,
                sh\<lparr>mp_buffer := buffer, mp_consumer_cursor := mrx_next_sequence c + int count - 1\<rparr>))"

fun mrx_recv_batch_loop ::
    "nat \<Rightarrow> 'a mpsc_env \<Rightarrow> 'a mpsc_shared \<Rightarrow> mpsc_consumer \<Rightarrow>
     ((recv_error + 'a list) \<times> mpsc_consumer \<times> 'a mpsc_shared) run" where
  "mrx_recv_batch_loop out_len (f # g # env) sh c =
     (let highest = highest_published (f sh) (mrx_next_sequence c) in
      if highest \<ge> mrx_next_sequence c
      then (let available = nat (highest - mrx_next_sequence c + 1) in
            run_bind (mrx_take_n (min available out_len) (f sh) c)
              (\<lambda>(events, c', sh'). Done (Inr events, c', sh')))
      else if mrx_is_disconnected (g (f sh)) then Done (Inl RecvError, c, g (f sh))
      else mrx_recv_batch_loop out_len env (g (f sh)) c)"
| "mrx_recv_batch_loop out_len env sh c = Blocked"

definition mrx_recv_batch ::
    "nat \<Rightarrow> 'a mpsc_env \<Rightarrow> 'a mpsc_shared \<Rightarrow> mpsc_consumer \<Rightarrow>
     ((recv_error + 'a list) \<times> mpsc_consumer \<times> 'a mpsc_shared) run" where
  "mrx_recv_batch out_len env sh c =
     (if out_len = 0 then Done (Inr [], c, sh) else mrx_recv_batch_loop out_len env sh c)"

definition mrx_try_recv_batch ::
    "nat \<Rightarrow> ('a mpsc_shared \<Rightarrow> 'a mpsc_shared) \<Rightarrow> 'a mpsc_shared \<Rightarrow> mpsc_consumer \<Rightarrow>
     ((try_recv_error + 'a list) \<times> mpsc_consumer \<times> 'a mpsc_shared) run" where
  "mrx_try_recv_batch out_len f sh c =
     (if out_len = 0 then Done (Inr [], c, sh)
      else (let highest = highest_published sh (mrx_next_sequence c) in
            if highest < mrx_next_sequence c then Done (Inl (mrx_not_available (f sh)), c, f sh)
            else (let available = nat (highest - mrx_next_sequence c + 1) in
                  run_bind (mrx_take_n (min available out_len) sh c)
                    (\<lambda>(events, c', sh'). Done (Inr events, c', sh')))))"

definition mrx_poll ::
    "'a mpsc_shared \<Rightarrow> mpsc_consumer \<Rightarrow>
     (('a \<times> i64 \<times> bool) list \<times> nat \<times> mpsc_consumer \<times> 'a mpsc_shared) run" where
  "mrx_poll sh c =
     (let highest = highest_published sh (mrx_next_sequence c) in
      if highest < mrx_next_sequence c then Done ([], 0, c, sh)
      else (let count = nat (highest - mrx_next_sequence c + 1) in
            run_bind (poll_calls (mp_buffer sh) (mrx_next_sequence c) count)
              (\<lambda>calls. Done (calls, count, c\<lparr>mrx_next_sequence := mrx_next_sequence c + int count\<rparr>,
                 sh\<lparr>mp_consumer_cursor := mrx_next_sequence c + int count - 1\<rparr>))))"

section \<open>The bitmap by position\<close>

definition mpsc_wf :: "'a mpsc_shared \<Rightarrow> bool" where
  "mpsc_wf sh \<longleftrightarrow>
     ring_wf (mp_buffer sh) \<and> mp_capacity sh = rb_capacity (mp_buffer sh) \<and>
     0 < unat (availability_words sh) \<and>
     unat (mp_capacity sh) = 64 * unat (availability_words sh) \<and>
     length (availability sh) = unat (availability_words sh)"

text \<open>Sequences that the cast to \<open>usize\<close> keeps.\<close>

definition seq_ok :: "i64 \<Rightarrow> bool" where
  "seq_ok s \<longleftrightarrow> 0 \<le> s \<and> s < 2 ^ 64"

lemma unat_seq: "seq_ok s \<Longrightarrow> unat (word_of_int s :: usize) = nat s"
  by (rule unat_of_int_small) (simp_all add: seq_ok_def)

lemma word_index_eq: "seq_ok s \<Longrightarrow> word_index sh s = nat s div 64 mod unat (availability_words sh)"
  by (simp add: word_index_def unat_mod_distrib unat_div_distrib unat_seq)

lemma bit_index_eq: "seq_ok s \<Longrightarrow> bit_index s = nat s mod 64"
  by (simp add: bit_index_def unat_mod_distrib unat_seq)

lemma bit_index_less: "bit_index s < 64"
proof -
  have "(word_of_int s :: usize) mod 64 < 64" by (rule word_mod_less_divisor) simp
  then show ?thesis by (simp add: bit_index_def word_less_nat_alt)
qed

lemma odd_unat: "odd (unat w) \<longleftrightarrow> odd (w :: 'a::len word)"
  by (simp flip: bit_0 add: bit_unsigned_iff)

lemma round_parity:
  "seq_ok s \<Longrightarrow> (word_of_int s :: usize) div c AND 1 = of_bool (odd (nat s div unat c))"
  by (simp add: and_one_eq mod_2_eq_odd unat_div_distrib unat_seq flip: odd_unat)

lemma word_index_less: "mpsc_wf sh \<Longrightarrow> word_index sh s < length (availability sh)"
proof -
  assume wf: "mpsc_wf sh"
  then have "0 < availability_words sh" by (simp add: mpsc_wf_def word_gt_0 flip: unat_gt_0)
  then have "(word_of_int s :: usize) div 64 mod availability_words sh < availability_words sh"
    by (rule word_mod_less_divisor)
  with wf show ?thesis by (simp add: word_index_def mpsc_wf_def word_less_nat_alt)
qed

text \<open>Word and bit index together are the position of the sequence in the ring.\<close>

lemma mpsc_size: "mpsc_wf sh \<Longrightarrow> ring_size (mp_buffer sh) = int (64 * unat (availability_words sh))"
proof -
  assume "mpsc_wf sh"
  then have "unat (rb_capacity (mp_buffer sh)) = 64 * unat (availability_words sh)"
    unfolding mpsc_wf_def by metis
  then show ?thesis by (simp only: uint_nat)
qed

lemma seq_position:
  assumes "mpsc_wf sh" "seq_ok s"
  shows "s mod ring_size (mp_buffer sh) = int (64 * word_index sh s + bit_index s)"
proof -
  have "nat s mod (64 * unat (availability_words sh)) = 64 * word_index sh s + bit_index s"
    unfolding word_index_eq [OF assms(2)] bit_index_eq [OF assms(2)] by (rule mod_mult2_eq)
  moreover have "s = int (nat s)" using assms(2) by (simp add: seq_ok_def)
  ultimately show ?thesis unfolding mpsc_size [OF assms(1)] by (metis of_nat_mod)
qed

lemma same_position:
  assumes "mpsc_wf sh" "seq_ok s" "seq_ok t"
  shows "word_index sh s = word_index sh t \<and> bit_index s = bit_index t \<longleftrightarrow>
     s mod ring_size (mp_buffer sh) = t mod ring_size (mp_buffer sh)"
proof -
  have dm: "(64 * a + b) div 64 = a" "(64 * a + b) mod 64 = b" if "b < 64" for a b :: nat
    using that by simp_all
  have "64 * a + b = 64 * c + d \<longleftrightarrow> a = c \<and> b = d" if "b < 64" "d < 64" for a b c d :: nat
    using dm [OF that(1), of a] dm [OF that(2), of c] by metis
  then show ?thesis
    unfolding seq_position [OF assms(1,2)] seq_position [OF assms(1,3)] of_nat_eq_iff
    using bit_index_less by blast
qed

lemma is_published_bit:
  assumes "seq_ok s"
  shows "is_published sh s \<longleftrightarrow>
     bit (availability sh ! word_index sh s) (bit_index s) = odd (nat s div unat (mp_capacity sh))"
  unfolding is_published_def Let_def round_parity [OF assms]
  by (simp add: and_one_eq mod_2_eq_odd even_drop_bit_iff_not_bit)

lemma fetch_xor_simps [simp]:
  "mp_buffer (fetch_xor i m sh) = mp_buffer sh" "mp_capacity (fetch_xor i m sh) = mp_capacity sh"
  "availability_words (fetch_xor i m sh) = availability_words sh"
  "claim_cursor (fetch_xor i m sh) = claim_cursor sh"
  "mp_consumer_cursor (fetch_xor i m sh) = mp_consumer_cursor sh"
  "mp_closed (fetch_xor i m sh) = mp_closed sh"
  "length (availability (fetch_xor i m sh)) = length (availability sh)"
  "word_index (fetch_xor i m sh) s = word_index sh s" "mpsc_wf (fetch_xor i m sh) = mpsc_wf sh"
  by (simp_all add: fetch_xor_def word_index_def mpsc_wf_def)

lemma mark_published_simps [simp]:
  "mp_buffer (mark_published s sh) = mp_buffer sh" "mp_capacity (mark_published s sh) = mp_capacity sh"
  "claim_cursor (mark_published s sh) = claim_cursor sh"
  "mp_consumer_cursor (mark_published s sh) = mp_consumer_cursor sh"
  "mp_closed (mark_published s sh) = mp_closed sh"
  "word_index (mark_published t sh) s = word_index sh s" "mpsc_wf (mark_published s sh) = mpsc_wf sh"
  by (simp_all add: mark_published_def)

text \<open>Publishing flips what the bitmap says of the sequences at the same position, only.\<close>

lemma is_published_mark:
  assumes "mpsc_wf sh" "seq_ok s" "seq_ok t"
  shows "is_published (mark_published s sh) t \<longleftrightarrow>
     (if s mod ring_size (mp_buffer sh) = t mod ring_size (mp_buffer sh)
      then \<not> is_published sh t else is_published sh t)"
proof -
  have "bit (push_bit (bit_index s) 1 :: u64) (bit_index t) \<longleftrightarrow> bit_index s = bit_index t"
    using bit_index_less [of s] bit_index_less [of t] by (auto simp: bit_simps)
  then have "bit (availability (mark_published s sh) ! word_index sh t) (bit_index t) =
      (bit (availability sh ! word_index sh t) (bit_index t) \<noteq>
       (word_index sh s = word_index sh t \<and> bit_index s = bit_index t))"
    using word_index_less [OF assms(1), of s]
    by (auto simp: mark_published_def fetch_xor_def nth_list_update bit_xor_iff)
  then show ?thesis
    using same_position [OF assms] by (auto simp: is_published_bit [OF assms(3)])
qed

text \<open>A lap later the expected bit is the other one.\<close>

lemma is_published_lap:
  assumes "mpsc_wf sh" "seq_ok s" "seq_ok (s + ring_size (mp_buffer sh))"
  shows "is_published sh (s + ring_size (mp_buffer sh)) \<longleftrightarrow> \<not> is_published sh s"
proof -
  let ?t = "s + ring_size (mp_buffer sh)" and ?C = "unat (mp_capacity sh)"
  have C: "ring_size (mp_buffer sh) = int ?C" using assms(1) by (simp add: mpsc_wf_def)
  have C0: "0 < ?C" using assms(1) unfolding mpsc_wf_def by linarith
  have "nat ?t = nat s + ?C" using assms(2) C by (simp add: seq_ok_def nat_add_distrib)
  then have "nat ?t div ?C = nat s div ?C + 1" using C0 by (simp only: div_add_self2)
  moreover have "word_index sh s = word_index sh ?t \<and> bit_index s = bit_index ?t"
    using same_position [OF assms] by simp
  ultimately show ?thesis by (simp add: is_published_bit assms)
qed

section \<open>The word-wise scan\<close>

lemma nat_same_word:
  fixes n k :: nat
  assumes "n mod 64 + k < 64"
  shows "(n + k) div 64 = n div 64" "(n + k) mod 64 = n mod 64 + k"
proof -
  have e: "n + k = (n mod 64 + k) + 64 * (n div 64)" using mult_div_mod_eq [of 64 n] by linarith
  have "(n + k) div 64 = n div 64 + (n mod 64 + k) div 64" by (subst e) (rule div_mult_self2, simp)
  then show "(n + k) div 64 = n div 64" using assms by simp
  have "(n + k) mod 64 = (n mod 64 + k) mod 64" by (subst e) (rule mod_mult_self2)
  then show "(n + k) mod 64 = n mod 64 + k" using assms by simp
qed

lemma seq_same_word:
  assumes "mpsc_wf sh" "seq_ok s" "seq_ok (s + int k)" "bit_index s + k < 64"
  shows "word_index sh (s + int k) = word_index sh s" "bit_index (s + int k) = bit_index s + k"
    "nat (s + int k) div unat (mp_capacity sh) = nat s div unat (mp_capacity sh)"
proof -
  have n: "nat (s + int k) = nat s + k" using assms(2) by (simp add: seq_ok_def nat_add_distrib)
  have "nat s mod 64 + k < 64" using assms(2,4) by (simp add: bit_index_eq)
  note w = nat_same_word [OF this]
  show "word_index sh (s + int k) = word_index sh s" "bit_index (s + int k) = bit_index s + k"
    using w n assms(2,3) by (simp_all add: word_index_eq bit_index_eq)
  have "unat (mp_capacity sh) = 64 * unat (availability_words sh)"
    using assms(1) unfolding mpsc_wf_def by blast
  then show "nat (s + int k) div unat (mp_capacity sh) = nat s div unat (mp_capacity sh)"
    using w(1) n by (simp add: div_mult2_eq)
qed

lemma seq_next_word:
  assumes "mpsc_wf sh" "seq_ok s" "seq_ok (s + (64 - int (bit_index s)))"
  shows "word_index sh (s + (64 - int (bit_index s))) = (word_index sh s + 1) mod unat (availability_words sh)"
    "bit_index (s + (64 - int (bit_index s))) = 0"
proof -
  have b: "bit_index s = nat s mod 64" using assms(2) by (rule bit_index_eq)
  have "nat s mod 64 < 64" by simp
  then have "nat (s + (64 - int (bit_index s))) = nat s + (64 - nat s mod 64)"
    using assms(2) unfolding b seq_ok_def by linarith
  also have "\<dots> = 64 * (nat s div 64 + 1)"
  proof -
    have "n + (64 - r) = 64 * (q + 1)" if "64 * q + r = n" "r < 64" for n q r :: nat
      using that by auto
    from this [OF mult_div_mod_eq] show ?thesis by simp
  qed
  finally have n: "nat (s + (64 - int (bit_index s))) = 64 * (nat s div 64 + 1)" .
  show "word_index sh (s + (64 - int (bit_index s))) = (word_index sh s + 1) mod unat (availability_words sh)"
    unfolding word_index_eq [OF assms(3)] word_index_eq [OF assms(2)] n
    by (simp add: mod_Suc_eq)
  show "bit_index (s + (64 - int (bit_index s))) = 0"
    unfolding bit_index_eq [OF assms(3)] n by simp
qed

lemma trailing_zeros_spec:
  assumes "w \<noteq> 0"
  shows "trailing_zeros w < 64" "bit w (trailing_zeros w)" "i < trailing_zeros w \<Longrightarrow> \<not> bit w i"
proof -
  let ?P = "\<lambda>i. \<not> bit w i"
  obtain n where n: "bit w n" using assms by (metis bit_eq_iff bit_0_eq bot_apply bot_bool_def)
  then have "n < 64" using bit_imp_le_length [OF n] by simp
  then have "\<exists>x \<in> set [0..<64]. \<not> ?P x" using n by auto
  then have l: "length (takeWhile ?P [0..<64]) < length [0..<64]"
    by (metis length_takeWhile_le nat_less_le takeWhile_eq_take takeWhile_eq_all_conv take_all order_refl)
  then show lt: "trailing_zeros w < 64" by (simp add: trailing_zeros_def)
  show "bit w (trailing_zeros w)"
    using nth_length_takeWhile [OF l] lt by (simp add: trailing_zeros_def)
  show "i < trailing_zeros w \<Longrightarrow> \<not> bit w i"
    using lt takeWhile_nth [of i ?P "[0..<64]"] nth_mem [of i "takeWhile ?P [0..<64]"]
    by (auto simp: trailing_zeros_def dest: set_takeWhileD)
qed

lemma expected_pattern_bit:
  "seq_ok s \<Longrightarrow> i < 64 \<Longrightarrow> bit (expected_pattern sh s) i \<longleftrightarrow> odd (nat s div unat (mp_capacity sh))"
  unfolding expected_pattern_def round_parity by (simp add: bit_not_iff)

text \<open>The mismatch word has a bit for every unpublished sequence of the word, from \<open>seq\<close> on.\<close>

lemma mismatch_bit:
  assumes "mpsc_wf sh" "seq_ok s" "seq_ok (s + int k)" "bit_index s + k < 64"
  shows "bit ((availability sh ! word_index sh s XOR expected_pattern sh s) AND
              push_bit (bit_index s) (NOT 0)) (bit_index s + k) \<longleftrightarrow> \<not> is_published sh (s + int k)"
  using assms seq_same_word [OF assms]
  by (auto simp: is_published_bit bit_and_iff bit_xor_iff bit_push_bit_iff bit_not_iff bit_mask_iff
      expected_pattern_bit)

text \<open>
  The scan returns the end of the contiguous published run: everything up to it is published,
  and the next sequence is not, unless the scan has passed the claim cursor.
\<close>

lemma highest_loop_spec:
  assumes "mpsc_wf sh" "seq_ok seq" "seq_ok (claim + 64)"
  shows "seq - 1 \<le> highest_loop sh claim seq (word_index sh seq) (bit_index seq) \<and>
     (\<forall>s. seq \<le> s \<and> s \<le> highest_loop sh claim seq (word_index sh seq) (bit_index seq) \<longrightarrow> is_published sh s) \<and>
     (highest_loop sh claim seq (word_index sh seq) (bit_index seq) < claim \<longrightarrow>
        \<not> is_published sh (highest_loop sh claim seq (word_index sh seq) (bit_index seq) + 1))"
  using assms(2)
proof (induction "nat (claim + 1 - seq)" arbitrary: seq rule: less_induct)
  case less
  let ?w = "word_index sh seq" and ?b = "bit_index seq"
  let ?m = "(availability sh ! ?w XOR expected_pattern sh seq) AND push_bit ?b (NOT 0)"
  have b: "?b < 64" by (rule bit_index_less)
  show ?case
  proof (cases "seq > claim")
    case True
    then have "highest_loop sh claim seq ?w ?b = seq - 1" by (subst highest_loop.simps) simp
    then show ?thesis using True by auto
  next
    case False
    have ok: "seq_ok (seq + int k)" if "k \<le> 64" for k
      using that less.prems assms(3) False by (auto simp: seq_ok_def)
    show ?thesis
    proof (cases "?m = 0")
      case False': False
      let ?t = "trailing_zeros ?m"
      note tz = trailing_zeros_spec [OF False']
      have tb: "?b \<le> ?t" using tz(2) by (auto simp: bit_and_iff bit_not_iff bit_mask_iff)
      then obtain k where k: "?t = ?b + k" by (metis le_Suc_ex)
      then have kl: "?b + k < 64" using tz(1) by simp
      have h: "highest_loop sh claim seq ?w ?b = seq + int k - 1"
        using False False' b k by (subst highest_loop.simps) (simp add: Let_def)
      have run: "is_published sh s" if "seq \<le> s" "s < seq + int k" for s
      proof -
        define i where "i = nat (s - seq)"
        have i: "s = seq + int i" "i < k" using that by (simp_all add: i_def)
        then show ?thesis
          using mismatch_bit [OF assms(1) less.prems ok, of i] tz(3) [of "?b + i"] kl k by simp
      qed
      have "\<not> is_published sh (seq + int k)"
        using mismatch_bit [OF assms(1) less.prems ok, of k] tz(2) kl k by simp
      then have "\<not> is_published sh (seq + int k - 1 + 1)" by simp
      then show ?thesis unfolding h using run by (intro conjI allI impI) simp_all
    next
      case True
      let ?n = "seq + (64 - int ?b)"
      have n: "?n = seq + int (64 - ?b)" using b by simp
      have okn: "seq_ok ?n" unfolding n by (rule ok) simp
      note nw = seq_next_word [OF assms(1) less.prems okn]
      have h: "highest_loop sh claim seq ?w ?b = highest_loop sh claim ?n (word_index sh ?n) (bit_index ?n)"
        using False True b nw by (subst highest_loop.simps) (simp add: Let_def)
      have "nat (claim + 1 - ?n) < nat (claim + 1 - seq)" using False b by simp
      note IH = less.hyps [OF this okn]
      have run: "is_published sh s" if "seq \<le> s" "s < ?n" for s
      proof -
        define i where "i = nat (s - seq)"
        have i: "s = seq + int i" using that by (simp add: i_def)
        with that b have "?b + i < 64" by simp
        then show ?thesis
          using mismatch_bit [OF assms(1) less.prems ok, of i] True i b by simp
      qed
      let ?h = "highest_loop sh claim ?n (word_index sh ?n) (bit_index ?n)"
      have le: "?n - 1 \<le> ?h" and on: "\<And>s. ?n \<le> s \<Longrightarrow> s \<le> ?h \<Longrightarrow> is_published sh s"
        and stop: "?h < claim \<Longrightarrow> \<not> is_published sh (?h + 1)" using IH by blast+
      have all: "is_published sh s" if "seq \<le> s" "s \<le> ?h" for s
        using run on that by (metis linorder_not_less)
      have "seq - 1 \<le> ?h" using le b by linarith
      then show ?thesis unfolding h by (intro conjI allI impI) (auto intro: all simp: stop)
    qed
  qed
qed

lemma highest_published_spec:
  assumes "mpsc_wf sh" "seq_ok from" "seq_ok (claim_cursor sh + 64)"
    and "\<forall>s. claim_cursor sh < s \<and> from \<le> s \<and> s < from + ring_size (mp_buffer sh) \<longrightarrow> \<not> is_published sh s"
  shows "from - 1 \<le> highest_published sh from"
    "from \<le> s \<Longrightarrow> s \<le> highest_published sh from \<Longrightarrow> is_published sh s"
    "highest_published sh from + 1 < from + ring_size (mp_buffer sh) \<Longrightarrow>
       \<not> is_published sh (highest_published sh from + 1)"
proof -
  define h where "h = highest_published sh from"
  have "from - 1 \<le> h \<and> (\<forall>s. from \<le> s \<and> s \<le> h \<longrightarrow> is_published sh s) \<and>
    (h < claim_cursor sh \<longrightarrow> \<not> is_published sh (h + 1))"
  proof (cases "from > claim_cursor sh")
    case True
    then have "h = from - 1" by (simp add: h_def highest_published_def)
    with True show ?thesis by auto
  next
    case False
    then have "h = highest_loop sh (claim_cursor sh) from (word_index sh from) (bit_index from)"
      by (simp add: h_def highest_published_def)
    then show ?thesis using highest_loop_spec [OF assms(1,2,3)] by blast
  qed
  then have a: "from - 1 \<le> h" and b: "\<And>s. from \<le> s \<Longrightarrow> s \<le> h \<Longrightarrow> is_published sh s"
    and c: "h < claim_cursor sh \<Longrightarrow> \<not> is_published sh (h + 1)" by blast+
  have d: "\<not> is_published sh (h + 1)" if "h + 1 < from + ring_size (mp_buffer sh)"
  proof (cases "h < claim_cursor sh")
    case False
    then have "claim_cursor sh < h + 1 \<and> from \<le> h + 1 \<and> h + 1 < from + ring_size (mp_buffer sh)"
      using that a by linarith
    then show ?thesis using assms(4) by blast
  qed (rule c)
  from a b d show "from - 1 \<le> highest_published sh from"
    "from \<le> s \<Longrightarrow> s \<le> highest_published sh from \<Longrightarrow> is_published sh s"
    "highest_published sh from + 1 < from + ring_size (mp_buffer sh) \<Longrightarrow>
       \<not> is_published sh (highest_published sh from + 1)"
    unfolding h_def by blast+
qed

section \<open>Batched publication\<close>

lemma fetch_xor_0 [simp]: "fetch_xor i 0 sh = sh"
  by (simp add: fetch_xor_def)

lemma fetch_xor_same:
  "i < length (availability sh) \<Longrightarrow> fetch_xor i a (fetch_xor i b sh) = fetch_xor i (b XOR a) sh"
  by (simp add: fetch_xor_def xor.assoc)

lemma or_bit_disjoint: "\<not> bit m i \<Longrightarrow> (m :: u64) OR push_bit i 1 = m XOR push_bit i 1"
  by (rule bit_word_eqI) (auto simp: bit_simps)

text \<open>
  While the loop has yet to flush a mask, every bit of it stems from a sequence of the batch
  in the current word; two sequences of a batch no longer than the ring never share a bit.
\<close>

lemma mark_batch_loop_eq:
  assumes "mpsc_wf sh" "0 \<le> start" "start \<le> seq" "seq_ok (seq + int n)"
    "seq + int n \<le> start + ring_size (mp_buffer sh)" "cw < length (availability sh)"
    "\<And>b. bit m b \<Longrightarrow> \<exists>t. start \<le> t \<and> t < seq \<and> word_index sh t = cw \<and> bit_index t = b"
  shows "mark_batch_loop seq n m cw sh = fold mark_published [seq..seq + int n - 1] (fetch_xor cw m sh)"
  using assms
proof (induction n arbitrary: seq m cw sh)
  case 0
  then show ?case by simp
next
  case (Suc n)
  let ?b = "push_bit (bit_index seq) 1 :: u64" and ?w = "word_index sh seq"
  have ok: "seq_ok t" if "start \<le> t" "t \<le> seq" for t
    using that Suc.prems by (auto simp: seq_ok_def)
  have up: "[seq..seq + int (Suc n) - 1] = seq # [seq + 1..seq + 1 + int n - 1]"
    by (simp add: upto_rec1 algebra_simps)
  have bb: "bit ?b i \<longleftrightarrow> i = bit_index seq" for i
    using bit_index_less [of seq] by (auto simp: bit_simps)
  show ?case
  proof (cases "?w = cw")
    case False
    have "mark_batch_loop (seq + 1) n ?b ?w (fetch_xor cw m sh) =
        fold mark_published [seq + 1..seq + 1 + int n - 1] (fetch_xor ?w ?b (fetch_xor cw m sh))"
    proof (rule Suc.IH)
      fix b
      assume "bit ?b b"
      then show "\<exists>t. start \<le> t \<and> t < seq + 1 \<and> word_index (fetch_xor cw m sh) t = ?w \<and> bit_index t = b"
        unfolding bb using Suc.prems(3) by (intro exI [of _ seq]) simp
    next
      show "?w < length (availability (fetch_xor cw m sh))"
        using word_index_less [OF Suc.prems(1)] by simp
    qed (use Suc.prems in \<open>simp_all add: algebra_simps\<close>)
    moreover have "mark_published seq (fetch_xor cw m sh) = fetch_xor ?w ?b (fetch_xor cw m sh)"
      by (simp add: mark_published_def)
    moreover have "(if m \<noteq> 0 then fetch_xor cw m sh else sh) = fetch_xor cw m sh" by simp
    ultimately show ?thesis
      using False by (simp only: mark_batch_loop.simps Let_def up fold_simps simp_thms if_True)
  next
    case True
    have nb: "\<not> bit m (bit_index seq)"
    proof
      assume "bit m (bit_index seq)"
      then obtain t where t: "start \<le> t" "t < seq" "word_index sh t = cw" "bit_index t = bit_index seq"
        using Suc.prems(7) by blast
      then have "t mod ring_size (mp_buffer sh) = seq mod ring_size (mp_buffer sh)"
        using same_position [OF Suc.prems(1) ok ok, of t seq] True Suc.prems(3) by simp
      moreover have "seq < t + ring_size (mp_buffer sh)" using t(1) Suc.prems(5) by simp
      moreover have "0 < ring_size (mp_buffer sh)"
        using Suc.prems(1) ring_wf_size_pos by (auto simp: mpsc_wf_def)
      ultimately show False using mod_neq_of_close [OF t(2)] by metis
    qed
    have "mark_batch_loop (seq + 1) n (m OR ?b) cw sh =
        fold mark_published [seq + 1..seq + 1 + int n - 1] (fetch_xor cw (m OR ?b) sh)"
    proof (rule Suc.IH)
      fix b
      assume "bit (m OR ?b) b"
      then have "bit m b \<or> b = bit_index seq" unfolding bit_or_iff bb .
      then show "\<exists>t. start \<le> t \<and> t < seq + 1 \<and> word_index sh t = cw \<and> bit_index t = b"
        using Suc.prems(3,7) True by (metis less_add_one order_less_trans)
    qed (use Suc.prems in \<open>simp_all add: algebra_simps\<close>)
    moreover have "fetch_xor cw (m OR ?b) sh = mark_published seq (fetch_xor cw m sh)"
      using Suc.prems(6) True unfolding or_bit_disjoint [OF nb] mark_published_def
      by (simp only: fetch_xor_same fetch_xor_simps)
    ultimately show ?thesis
      using True by (simp only: mark_batch_loop.simps Let_def up fold_simps simp_thms if_False)
  qed
qed

lemma mark_published_batch_eq:
  assumes "mpsc_wf sh" "0 \<le> start" "seq_ok (start + int n)" "int n \<le> ring_size (mp_buffer sh)"
  shows "mark_published_batch start n sh = fold mark_published [start..start + int n - 1] sh"
proof (cases n)
  case 0
  then show ?thesis by (simp add: mark_published_batch_def)
next
  case (Suc k)
  have "mark_batch_loop start n 0 (word_index sh start) sh =
      fold mark_published [start..start + int n - 1] (fetch_xor (word_index sh start) 0 sh)"
    by (rule mark_batch_loop_eq [where start = start]) (use assms word_index_less [OF assms(1)] in auto)
  with Suc show ?thesis by (simp add: mark_published_batch_def)
qed

section \<open>New channels\<close>

lemma mpsc_new_words:
  assumes "64 \<le> capacity" "is_power_of_two capacity"
  shows "unat capacity = 64 * unat ((capacity + 64 - 1) div 64 :: usize)"
    "0 < unat ((capacity + 64 - 1) div 64 :: usize)"
proof -
  obtain k where k: "k < 64" "capacity = 2 ^ k" using assms(2) by (auto simp: is_power_of_two_iff)
  have cap: "unat capacity = 2 ^ k" unfolding k(2) by (rule unat_pow2 [OF k(1)])
  have ge: "64 \<le> unat capacity" using assms(1) by (simp add: word_le_nat_alt)
  then have "(2::nat) ^ 6 \<le> 2 ^ k" unfolding cap by simp
  then have "6 \<le> k" by (rule power_le_imp_le_exp [rotated]) simp
  then have c64: "unat capacity = 64 * 2 ^ (k - 6)"
    unfolding cap using power_add [of "2::nat" 6 "k - 6"] by simp
  have "(2::nat) ^ k \<le> 2 ^ 63" using k(1) by (intro power_increasing) auto
  then have "unat capacity + 63 < 2 ^ 64" unfolding cap by simp
  then have "unat (capacity + 63) = unat capacity + 63"
    by (subst unat_add_lem [THEN iffD1]) simp_all
  then have "unat ((capacity + 63) div 64) = (unat capacity + 63) div 64"
    by (simp add: unat_div_distrib)
  also have "\<dots> = 2 ^ (k - 6)" unfolding c64 by simp
  finally have w: "unat ((capacity + 64 - 1) div 64) = 2 ^ (k - 6)" by (simp add: add.commute)
  show "unat capacity = 64 * unat ((capacity + 64 - 1) div 64 :: usize)"
    "0 < unat ((capacity + 64 - 1) div 64 :: usize)"
    unfolding w by (simp_all add: c64)
qed

lemma mpsc_new_words_small:
  assumes "0 < unat capacity" "unat capacity < 64"
  shows "unat ((capacity + 64 - 1) div 64 :: usize) = 1"
proof -
  have "unat (capacity + 63) = unat capacity + 63"
    using assms(2) by (subst unat_add_lem [THEN iffD1]) simp_all
  then have "unat ((capacity + 63) div 64) = (unat capacity + 63) div 64"
    by (simp add: unat_div_distrib)
  also have "\<dots> = 1" using assms by simp
  finally show ?thesis by (simp add: add.commute)
qed

text \<open>Publishing leaves the bits of other positions alone.\<close>

lemma fold_mark_other_bit:
  "b \<notin> bit_index ` set xs \<Longrightarrow> w < length (availability sh) \<Longrightarrow>
     bit (availability (fold mark_published xs sh) ! w) b = bit (availability sh ! w) b"
proof (induction xs arbitrary: sh)
  case (Cons x xs)
  have "bit (availability (mark_published x sh) ! w) b = bit (availability sh ! w) b"
    using Cons.prems
    by (cases "word_index sh x = w") (auto simp: mark_published_def fetch_xor_def bit_xor_iff bit_exp_iff)
  with Cons show ?case by (simp add: mark_published_def)
qed simp

lemma fold_mark_simps [simp]:
  "mp_buffer (fold mark_published xs sh) = mp_buffer sh"
  "mp_capacity (fold mark_published xs sh) = mp_capacity sh"
  "availability_words (fold mark_published xs sh) = availability_words sh"
  by (induction xs arbitrary: sh) (simp_all add: mark_published_def)

lemma mpsc_new:
  assumes "mpsc_channel_with_wait capacity = Done (sh, c)" "64 \<le> capacity"
  shows "mpsc_wf sh" "mp_capacity sh = capacity" "claim_cursor sh = - 1" "mp_consumer_cursor sh = - 1"
    "mrx_next_sequence c = 0" "0 \<le> s \<Longrightarrow> s < uint capacity \<Longrightarrow> \<not> is_published sh s"
proof -
  obtain rb where rb: "ring_new capacity = Done rb" "sh = mp_create_shared capacity rb"
    "mrx_next_sequence c = 0"
    using assms(1) by (auto simp: mpsc_channel_with_wait_def run_bind_eq_Done)
  have wf: "ring_wf rb" "rb_capacity rb = capacity" using rb(1) ring_new_wf ring_new_capacity by blast+
  then have p: "is_power_of_two capacity" by (simp add: ring_wf_def)
  show w: "mpsc_wf sh" and cap: "mp_capacity sh = capacity" and "claim_cursor sh = - 1" "mp_consumer_cursor sh = - 1"
    "mrx_next_sequence c = 0"
    using rb wf mpsc_new_words [OF assms(2) p]
    by (simp_all add: mpsc_wf_def mp_create_shared_def Let_def)
  assume s: "0 \<le> s" "s < uint capacity"
  have ok: "seq_ok s" using s uint_bounded [of capacity] by (simp add: seq_ok_def)
  have "availability sh = replicate (length (availability sh)) (NOT 0)"
    using rb(2) by (simp add: mp_create_shared_def Let_def)
  then have "availability sh ! word_index sh s = NOT 0"
    using word_index_less [OF w] by (metis nth_replicate)
  moreover have "nat s < unat (mp_capacity sh)" unfolding cap using s by (simp add: nat_less_iff)
  ultimately show "\<not> is_published sh s"
    using bit_index_less [of s] by (simp add: is_published_bit [OF ok] bit_not_iff)
qed

end
