(* ===== verification/Mpsc_Interleaving.thy ===== *)
theory Mpsc_Interleaving
  imports Mpsc_Channel
begin

text \<open>
  Any number of producer threads and the consumer of an MPSC channel, interleaved at every
  access to shared memory: a producer claims a sequence by \<open>fetch_add\<close>, waits for room, writes
  its cell and flips its bit of the availability bitmap; the consumer tests the bit of its next
  sequence, moves the event out and stores its cursor. Ghost state records which event was
  claimed for which sequence, which sequences are published and what was received.

  The invariant relates the bitmap to the set of published sequences. It needs a capacity of at
  least 64, so that the bitmap has one bit per cell, and sequences within the range of \<open>i64\<close>.
\<close>

section \<open>Steps\<close>

datatype 'a mtx_pc = MIdle | MClaimed i64 'a | MReady i64 'a | MWritten i64 'a

datatype 'a mrx_pc = MRxIdle | MRxChecked | MRxRead 'a

record 'a mil_state =
  mil_sh :: "'a mpsc_shared"
  mil_rx :: mpsc_consumer
  mtx_at :: "nat \<Rightarrow> 'a mtx_pc"
  mrx_at :: "'a mrx_pc"
  event_of :: "i64 \<Rightarrow> 'a option"
  published :: "i64 set"
  mreceived :: "'a list"

abbreviation mil_buf :: "'a mil_state \<Rightarrow> 'a ring_buffer" where
  "mil_buf s \<equiv> mp_buffer (mil_sh s)"

abbreviation mil_next :: "'a mil_state \<Rightarrow> i64" where
  "mil_next s \<equiv> mrx_next_sequence (mil_rx s)"

inductive mil_step :: "'a mil_state \<Rightarrow> 'a mil_state \<Rightarrow> bool" where
  m_claim: "mtx_at s t = MIdle \<Longrightarrow> claim_cursor (mil_sh s) + 1 < 2 ^ 62 \<Longrightarrow>
     mtx_fetch_add 1 (mil_sh s) = (seq, sh') \<Longrightarrow>
     mil_step s (s\<lparr>mil_sh := sh', mtx_at := (mtx_at s)(t := MClaimed seq e),
                  event_of := (event_of s)(seq \<mapsto> e)\<rparr>)"
| m_room: "mtx_at s t = MClaimed seq e \<Longrightarrow>
     \<not> mp_consumer_cursor (mil_sh s) < seq - sint (mp_capacity (mil_sh s)) \<Longrightarrow>
     mil_step s (s\<lparr>mtx_at := (mtx_at s)(t := MReady seq e)\<rparr>)"
| m_write: "mtx_at s t = MReady seq e \<Longrightarrow>
     mil_step s (s\<lparr>mil_sh := (mil_sh s)\<lparr>mp_buffer := ring_write (mil_buf s) seq e\<rparr>,
                  mtx_at := (mtx_at s)(t := MWritten seq e)\<rparr>)"
| m_publish: "mtx_at s t = MWritten seq e \<Longrightarrow>
     mil_step s (s\<lparr>mil_sh := mark_published seq (mil_sh s),
                  mtx_at := (mtx_at s)(t := MIdle), published := insert seq (published s)\<rparr>)"
| m_check: "mrx_at s = MRxIdle \<Longrightarrow> is_published (mil_sh s) (mil_next s) \<Longrightarrow>
     mil_step s (s\<lparr>mrx_at := MRxChecked\<rparr>)"
| m_read: "mrx_at s = MRxChecked \<Longrightarrow> ring_read (mil_buf s) (mil_next s) = Some (e, rb) \<Longrightarrow>
     mil_step s (s\<lparr>mil_sh := (mil_sh s)\<lparr>mp_buffer := rb\<rparr>, mrx_at := MRxRead e\<rparr>)"
| m_advance: "mrx_at s = MRxRead e \<Longrightarrow>
     mil_step s (s\<lparr>mil_sh := (mil_sh s)\<lparr>mp_consumer_cursor := mil_next s\<rparr>,
                  mil_rx := (mil_rx s)\<lparr>mrx_next_sequence := mil_next s + 1\<rparr>,
                  mrx_at := MRxIdle, mreceived := mreceived s @ [e]\<rparr>)"

definition mil_init :: "'a mpsc_shared \<times> mpsc_consumer \<Rightarrow> 'a mil_state" where
  "mil_init = (\<lambda>(sh, c).
     \<lparr>mil_sh = sh, mil_rx = c, mtx_at = (\<lambda>_. MIdle), mrx_at = MRxIdle, event_of = (\<lambda>_. None),
      published = {}, mreceived = []\<rparr>)"

inductive mil_reachable :: "'a mil_state \<Rightarrow> bool" where
  start: "mpsc_channel_with_wait capacity = Done s0 \<Longrightarrow> 64 \<le> capacity \<Longrightarrow> capacity \<noteq> 2 ^ 63 \<Longrightarrow>
     mil_reachable (mil_init s0)"
| step: "mil_reachable s \<Longrightarrow> mil_step s s' \<Longrightarrow> mil_reachable s'"

section \<open>Invariant\<close>

text \<open>The sequence a producer is working on, and whether it has been given room.\<close>

fun mtx_seq :: "'a mtx_pc \<Rightarrow> (i64 \<times> 'a) option" where
  "mtx_seq MIdle = None"
| "mtx_seq (MClaimed seq e) = Some (seq, e)"
| "mtx_seq (MReady seq e) = Some (seq, e)"
| "mtx_seq (MWritten seq e) = Some (seq, e)"

fun mtx_has_room :: "'a mtx_pc \<Rightarrow> bool" where
  "mtx_has_room (MReady seq e) = True"
| "mtx_has_room (MWritten seq e) = True"
| "mtx_has_room _ = False"

definition mil_live :: "'a mil_state \<Rightarrow> i64" where
  "mil_live s = mil_next s + (case mrx_at s of MRxRead _ \<Rightarrow> 1 | _ \<Rightarrow> 0)"

text \<open>The shape of the shared state and the range of its sequences.\<close>

definition mil_shape :: "'a mil_state \<Rightarrow> bool" where
  "mil_shape s \<longleftrightarrow>
     mpsc_wf (mil_sh s) \<and> sint (mp_capacity (mil_sh s)) = ring_size (mil_buf s) \<and>
     ring_size (mil_buf s) \<le> 2 ^ 62 \<and> claim_cursor (mil_sh s) < 2 ^ 62 \<and>
     mp_consumer_cursor (mil_sh s) = mil_next s - 1 \<and> 0 \<le> mil_next s \<and>
     mil_next s \<le> claim_cursor (mil_sh s) + 1"

text \<open>The published sequences, and that the bitmap shows them throughout the window.\<close>

definition mil_bitmap :: "'a mil_state \<Rightarrow> bool" where
  "mil_bitmap s \<longleftrightarrow>
     {0..<mil_next s} \<subseteq> published s \<and>
     (\<forall>q \<in> published s. 0 \<le> q \<and> q \<le> claim_cursor (mil_sh s) \<and> q < mil_next s + ring_size (mil_buf s)) \<and>
     (\<forall>q \<in> {mil_next s..<mil_next s + ring_size (mil_buf s)}. is_published (mil_sh s) q \<longleftrightarrow> q \<in> published s)"

definition mil_producers :: "'a mil_state \<Rightarrow> bool" where
  "mil_producers s \<longleftrightarrow>
     (\<forall>t q e. mtx_seq (mtx_at s t) = Some (q, e) \<longrightarrow>
        0 \<le> q \<and> q \<le> claim_cursor (mil_sh s) \<and> q \<notin> published s \<and> event_of s q = Some e \<and>
        (mtx_has_room (mtx_at s t) \<longrightarrow> q < mil_next s + ring_size (mil_buf s))) \<and>
     (\<forall>t u q e f. mtx_seq (mtx_at s t) = Some (q, e) \<and> mtx_seq (mtx_at s u) = Some (q, f) \<longrightarrow> t = u)"

text \<open>The cells of the window hold the events of their sequences.\<close>

definition mil_cells :: "'a mil_state \<Rightarrow> bool" where
  "mil_cells s \<longleftrightarrow>
     (\<forall>q \<in> published s. mil_live s \<le> q \<longrightarrow> ring_get (mil_buf s) q = event_of s q \<and> event_of s q \<noteq> None) \<and>
     (\<forall>t q e. mtx_at s t = MWritten q e \<longrightarrow> ring_get (mil_buf s) q = Some e)"

definition mil_consumer :: "'a mil_state \<Rightarrow> bool" where
  "mil_consumer s \<longleftrightarrow>
     map Some (mreceived s) = map (event_of s) [0..mil_next s - 1] \<and>
     (mrx_at s \<noteq> MRxIdle \<longrightarrow> mil_next s \<in> published s) \<and>
     (\<forall>e. mrx_at s = MRxRead e \<longrightarrow> event_of s (mil_next s) = Some e)"

definition mil_inv :: "'a mil_state \<Rightarrow> bool" where
  "mil_inv s \<longleftrightarrow> mil_shape s \<and> mil_bitmap s \<and> mil_producers s \<and> mil_cells s \<and> mil_consumer s"

lemmas mil_defs = mil_shape_def mil_bitmap_def mil_producers_def mil_cells_def mil_consumer_def

lemma mil_producersD:
  assumes "mil_producers s" "mtx_seq (mtx_at s t) = Some (q, e)"
  shows "0 \<le> q" "q \<le> claim_cursor (mil_sh s)" "q \<notin> published s" "event_of s q = Some e"
    "mtx_has_room (mtx_at s t) \<Longrightarrow> q < mil_next s + ring_size (mil_buf s)"
    "mtx_seq (mtx_at s u) = Some (q, f) \<Longrightarrow> t = u"
  using assms unfolding mil_producers_def by blast+

lemma mil_producersI:
  assumes "\<And>t q e. mtx_seq (mtx_at s t) = Some (q, e) \<Longrightarrow>
        0 \<le> q \<and> q \<le> claim_cursor (mil_sh s) \<and> q \<notin> published s \<and> event_of s q = Some e \<and>
        (mtx_has_room (mtx_at s t) \<longrightarrow> q < mil_next s + ring_size (mil_buf s))"
    and "\<And>t u q e f. mtx_seq (mtx_at s t) = Some (q, e) \<Longrightarrow> mtx_seq (mtx_at s u) = Some (q, f) \<Longrightarrow> t = u"
  shows "mil_producers s"
  using assms unfolding mil_producers_def by blast

lemma mil_window:
  assumes "mil_inv s" "mtx_seq (mtx_at s t) = Some (q, e)"
  shows "mil_next s \<le> q" "mrx_at s \<noteq> MRxIdle \<Longrightarrow> mil_next s < q"
proof -
  have "q \<notin> published s" "0 \<le> q" using assms by (auto simp: mil_inv_def mil_producers_def)
  moreover have "{0..<mil_next s} \<subseteq> published s" "mrx_at s \<noteq> MRxIdle \<Longrightarrow> mil_next s \<in> published s"
    using assms(1) by (simp_all add: mil_inv_def mil_bitmap_def mil_consumer_def)
  ultimately show "mil_next s \<le> q" "mrx_at s \<noteq> MRxIdle \<Longrightarrow> mil_next s < q"
    by (meson atLeastLessThan_iff in_mono linorder_not_less, metis atLeastLessThan_iff in_mono linorder_neqE_linordered_idom)
qed

lemma mil_seq_ok:
  assumes "mil_shape s" "mil_next s \<le> q" "q \<le> mil_next s + ring_size (mil_buf s)"
  shows "seq_ok q"
proof -
  have "0 \<le> mil_next s" "mil_next s \<le> 2 ^ 62" "ring_size (mil_buf s) \<le> 2 ^ 62"
    using assms(1) by (auto simp: mil_shape_def)
  with assms(2,3) show ?thesis by (auto simp: seq_ok_def)
qed

lemma ring_get_write:
  "ring_wf rb \<Longrightarrow> ring_get (ring_write rb s v) t =
     (if ring_index rb s = ring_index rb t then Some v else ring_get rb t)"
  by (simp add: ring_get_def ring_slot_write)

lemma ring_get_read:
  assumes "ring_wf rb" "ring_read rb s = Some (v, rb')"
  shows "ring_get rb' t = (if ring_index rb s = ring_index rb t then None else ring_get rb t)"
  by (simp add: ring_get_def ring_slot_read [OF assms])

text \<open>Two different sequences of the window are at different cells.\<close>

lemma mil_index_neq:
  assumes "mil_shape s" "mil_next s \<le> p" "p < mil_next s + ring_size (mil_buf s)"
    "mil_next s \<le> q" "q < mil_next s + ring_size (mil_buf s)" "p \<noteq> q"
  shows "ring_index (mil_buf s) p \<noteq> ring_index (mil_buf s) q"
proof -
  have "ring_wf (mil_buf s)" using assms(1) by (simp add: mil_shape_def mpsc_wf_def)
  with assms(2-6) ring_index_neq [of "mil_buf s" p q] ring_index_neq [of "mil_buf s" q p] show ?thesis
    by (cases "p < q") auto
qed

section \<open>Every step keeps the invariant\<close>

lemma mil_inv_claim:
  assumes "mil_inv s" "mtx_at s t = MIdle" "claim_cursor (mil_sh s) + 1 < 2 ^ 62"
    "mtx_fetch_add 1 (mil_sh s) = (seq, sh')"
  shows "mil_inv (s\<lparr>mil_sh := sh', mtx_at := (mtx_at s)(t := MClaimed seq e),
                  event_of := (event_of s)(seq \<mapsto> e)\<rparr>)" (is "mil_inv ?s'")
proof -
  have sh: "mil_shape s" and bm: "mil_bitmap s" and pr: "mil_producers s" using assms(1) by (simp_all add: mil_inv_def)
  have seq: "seq = claim_cursor (mil_sh s) + 1" "sh' = (mil_sh s)\<lparr>claim_cursor := seq\<rparr>"
    using assms(4) by (auto simp: mtx_fetch_add_def)
  have wi: "word_index sh' q = word_index (mil_sh s) q" "is_published sh' q = is_published (mil_sh s) q" for q
    using seq by (simp_all add: word_index_def is_published_def)
  have "mil_shape ?s'" using assms(1,3) seq by (auto simp: mil_inv_def mil_shape_def mpsc_wf_def)
  moreover have "mil_bitmap ?s'" using assms(1) seq wi by (fastforce simp: mil_inv_def mil_bitmap_def)
  moreover have "mil_producers ?s'"
  proof (rule mil_producersI)
    fix u q f
    assume u: "mtx_seq (mtx_at ?s' u) = Some (q, f)"
    show "0 \<le> q \<and> q \<le> claim_cursor (mil_sh ?s') \<and> q \<notin> published ?s' \<and> event_of ?s' q = Some f \<and>
        (mtx_has_room (mtx_at ?s' u) \<longrightarrow> q < mil_next ?s' + ring_size (mil_buf ?s'))"
    proof (cases "u = t")
      case True
      then show ?thesis using u seq sh bm by (auto simp: mil_shape_def mil_bitmap_def)
    next
      case False
      with u have "mtx_seq (mtx_at s u) = Some (q, f)" by simp
      from mil_producersD [OF pr this] False seq show ?thesis by auto
    qed
  next
    fix u v q f g
    assume "mtx_seq (mtx_at ?s' u) = Some (q, f)" "mtx_seq (mtx_at ?s' v) = Some (q, g)"
    then show "u = v"
      using mil_producersD(2) [OF pr] mil_producersD(6) [OF pr] seq(1)
      by (cases "u = t"; cases "v = t") fastforce+
  qed
  moreover have "mil_cells ?s'"
    using assms(1,2) seq by (fastforce simp: mil_inv_def mil_cells_def mil_bitmap_def mil_live_def split: if_splits)
  moreover have "mil_consumer ?s'"
    using assms(1) seq by (auto simp: mil_inv_def mil_consumer_def mil_shape_def mil_bitmap_def)
  ultimately show ?thesis by (simp add: mil_inv_def)
qed

lemma mil_inv_room:
  assumes "mil_inv s" "mtx_at s t = MClaimed seq e"
    "\<not> mp_consumer_cursor (mil_sh s) < seq - sint (mp_capacity (mil_sh s))"
  shows "mil_inv (s\<lparr>mtx_at := (mtx_at s)(t := MReady seq e)\<rparr>)" (is "mil_inv ?s'")
proof -
  have room: "seq < mil_next s + ring_size (mil_buf s)" using assms(1,3) by (auto simp: mil_inv_def mil_shape_def)
  have sq: "mtx_seq (mtx_at ?s' u) = mtx_seq (mtx_at s u)" for u using assms(2) by simp
  have "mil_producers ?s'"
    using assms(1,2) room sq unfolding mil_inv_def mil_producers_def by (simp split: if_splits) metis
  with assms(1) show ?thesis by (simp add: mil_inv_def mil_shape_def mil_bitmap_def mil_cells_def mil_consumer_def mil_live_def)
qed

lemma mil_inv_check:
  assumes "mil_inv s" "mrx_at s = MRxIdle" "is_published (mil_sh s) (mil_next s)"
  shows "mil_inv (s\<lparr>mrx_at := MRxChecked\<rparr>)"
proof -
  have "0 < ring_size (mil_buf s)"
    using assms(1) ring_wf_size_pos by (auto simp: mil_inv_def mil_shape_def mpsc_wf_def)
  then have "mil_next s \<in> published s" using assms(1,3) by (auto simp: mil_inv_def mil_bitmap_def)
  with assms show ?thesis
    by (simp add: mil_inv_def mil_shape_def mil_bitmap_def mil_cells_def mil_consumer_def mil_live_def mil_producers_def)
qed

lemma mil_inv_write:
  assumes "mil_inv s" "mtx_at s t = MReady seq e"
  shows "mil_inv (s\<lparr>mil_sh := (mil_sh s)\<lparr>mp_buffer := ring_write (mil_buf s) seq e\<rparr>,
                  mtx_at := (mtx_at s)(t := MWritten seq e)\<rparr>)" (is "mil_inv ?s'")
proof -
  have sh: "mil_shape s" and pr: "mil_producers s" using assms(1) by (simp_all add: mil_inv_def)
  then have wf: "ring_wf (mil_buf s)" by (simp add: mil_shape_def mpsc_wf_def)
  have sq: "mtx_seq (mtx_at s t) = Some (seq, e)" using assms(2) by simp
  note w = mil_window(1) [OF assms(1) sq]
  have r: "seq < mil_next s + ring_size (mil_buf s)" "seq \<notin> published s"
    using mil_producersD(5,3) [OF pr sq] assms(2) by simp_all
  have other: "ring_get (mil_buf ?s') q = ring_get (mil_buf s) q"
    if "mil_next s \<le> q" "q < mil_next s + ring_size (mil_buf s)" "q \<noteq> seq" for q
    using mil_index_neq [OF sh w r(1) that(1,2)] that(3) wf by (simp add: ring_get_write)
  have mine: "ring_get (mil_buf ?s') seq = Some e" using wf by (simp add: ring_get_write)
  have pub: "is_published (mil_sh ?s') q = is_published (mil_sh s) q" for q
    by (simp add: is_published_def word_index_def)
  have "mil_shape ?s'" using sh by (auto simp: mil_shape_def mpsc_wf_def)
  moreover have "mil_bitmap ?s'" using assms(1) pub by (simp add: mil_inv_def mil_bitmap_def)
  moreover have "mtx_seq (mtx_at ?s' u) = mtx_seq (mtx_at s u)"
    "mtx_has_room (mtx_at ?s' u) = mtx_has_room (mtx_at s u)" for u using assms(2) by simp_all
  then have "mil_producers ?s'"
    using pr unfolding mil_producers_def by simp
  moreover have "mil_cells ?s'"
    unfolding mil_cells_def
  proof (intro conjI ballI allI impI)
    fix q
    assume q: "q \<in> published ?s'" "mil_live ?s' \<le> q"
    then have "mil_next s \<le> q" "q < mil_next s + ring_size (mil_buf s)" "q \<noteq> seq"
      using assms(1) r(2) by (auto simp: mil_inv_def mil_bitmap_def mil_live_def split: mrx_pc.splits)
    from other [OF this] show "ring_get (mil_buf ?s') q = event_of ?s' q" "event_of ?s' q \<noteq> None"
      using assms(1) q by (simp_all add: mil_inv_def mil_cells_def mil_live_def)
  next
    fix u q f
    assume u: "mtx_at ?s' u = MWritten q f"
    show "ring_get (mil_buf ?s') q = Some f"
    proof (cases "u = t")
      case True
      then show ?thesis using u mine by simp
    next
      case False
      then have su: "mtx_at s u = MWritten q f" using u by simp
      then have mu: "mtx_seq (mtx_at s u) = Some (q, f)" "mtx_has_room (mtx_at s u)" by simp_all
      then have "q \<noteq> seq" "q < mil_next s + ring_size (mil_buf s)"
        using assms(1) sq False unfolding mil_inv_def mil_producers_def by metis+
      with other mil_window(1) [OF assms(1) mu(1)] su assms(1) show ?thesis
        by (simp add: mil_inv_def mil_cells_def)
    qed
  qed
  moreover have "mil_consumer ?s'" using assms(1) by (simp add: mil_inv_def mil_consumer_def)
  ultimately show ?thesis by (simp add: mil_inv_def)
qed

lemma mil_inv_publish:
  assumes "mil_inv s" "mtx_at s t = MWritten seq e"
  shows "mil_inv (s\<lparr>mil_sh := mark_published seq (mil_sh s),
                  mtx_at := (mtx_at s)(t := MIdle), published := insert seq (published s)\<rparr>)" (is "mil_inv ?s'")
proof -
  have sh: "mil_shape s" and bm: "mil_bitmap s" and pr: "mil_producers s" and ce: "mil_cells s"
    and co: "mil_consumer s" using assms(1) by (simp_all add: mil_inv_def)
  have wf: "mpsc_wf (mil_sh s)" using sh by (simp add: mil_shape_def)
  have sq: "mtx_seq (mtx_at s t) = Some (seq, e)" using assms(2) by simp
  note w = mil_window(1) [OF assms(1) sq]
  note p = mil_producersD [OF pr sq]
  have r: "seq < mil_next s + ring_size (mil_buf s)" using p(5) assms(2) by simp
  have pub: "is_published (mil_sh ?s') q \<longleftrightarrow> q = seq \<or> is_published (mil_sh s) q"
    if "mil_next s \<le> q" "q < mil_next s + ring_size (mil_buf s)" for q
  proof -
    have "seq_ok seq" "seq_ok q" using mil_seq_ok [OF sh] w r that by auto
    note m = is_published_mark [OF wf this]
    have "seq \<noteq> q \<Longrightarrow> seq mod ring_size (mil_buf s) \<noteq> q mod ring_size (mil_buf s)"
      using mil_index_neq [OF sh w r that] wf by (simp add: ring_index_eq_iff mpsc_wf_def)
    moreover have "\<not> is_published (mil_sh s) seq" using bm w r p(3) by (auto simp: mil_bitmap_def)
    ultimately show ?thesis using m by auto
  qed
  have "mil_shape ?s'" using sh by (simp add: mil_shape_def)
  moreover have "mil_bitmap ?s'"
    using bm pub p w r by (auto simp: mil_bitmap_def)
  moreover have "mil_producers ?s'"
  proof (rule mil_producersI)
    fix u q f
    assume u: "mtx_seq (mtx_at ?s' u) = Some (q, f)"
    then have n: "u \<noteq> t" "mtx_seq (mtx_at s u) = Some (q, f)" by (auto split: if_splits)
    then have "q \<noteq> seq" using p(6) [of u f] by auto
    with mil_producersD [OF pr n(2)] n(1)
    show "0 \<le> q \<and> q \<le> claim_cursor (mil_sh ?s') \<and> q \<notin> published ?s' \<and> event_of ?s' q = Some f \<and>
        (mtx_has_room (mtx_at ?s' u) \<longrightarrow> q < mil_next ?s' + ring_size (mil_buf ?s'))" by simp
  next
    fix u v q f g
    assume "mtx_seq (mtx_at ?s' u) = Some (q, f)" "mtx_seq (mtx_at ?s' v) = Some (q, g)"
    then show "u = v" using mil_producersD(6) [OF pr] by (auto split: if_splits)
  qed
  moreover have "mil_cells ?s'"
    using ce p(4) assms(2) by (auto simp: mil_cells_def mil_live_def split: if_splits)
  moreover have "mil_consumer ?s'" using co by (auto simp: mil_consumer_def)
  ultimately show ?thesis by (simp add: mil_inv_def)
qed

lemma mil_inv_read:
  assumes "mil_inv s" "mrx_at s = MRxChecked" "ring_read (mil_buf s) (mil_next s) = Some (e, rb)"
  shows "mil_inv (s\<lparr>mil_sh := (mil_sh s)\<lparr>mp_buffer := rb\<rparr>, mrx_at := MRxRead e\<rparr>)" (is "mil_inv ?s'")
proof -
  have sh: "mil_shape s" and bm: "mil_bitmap s" and pr: "mil_producers s" and ce: "mil_cells s"
    and co: "mil_consumer s" using assms(1) by (simp_all add: mil_inv_def)
  then have wf: "ring_wf (mil_buf s)" by (simp add: mil_shape_def mpsc_wf_def)
  note f = ring_read_frame [OF assms(3)] and n0 = ring_wf_size_pos [OF wf]
  have pub: "is_published (mil_sh ?s') q = is_published (mil_sh s) q" for q
    by (simp add: is_published_def word_index_def)
  have other: "ring_get rb q = ring_get (mil_buf s) q"
    if "mil_next s < q" "q < mil_next s + ring_size (mil_buf s)" for q
    using mil_index_neq [OF sh, of "mil_next s" q] that n0 by (simp add: ring_get_read [OF wf assms(3)])
  have np: "mil_next s \<in> published s" using co assms(2) by (simp add: mil_consumer_def)
  have ev: "event_of s (mil_next s) = Some e"
    using ce np assms(2) ring_read_Some(1) [OF assms(3)] by (auto simp: mil_cells_def mil_live_def)
  have "mil_shape ?s'" using sh f by (auto simp: mil_shape_def mpsc_wf_def)
  moreover have "mil_bitmap ?s'" using bm pub f by (simp add: mil_bitmap_def)
  moreover have "mil_producers ?s'" using pr f by (simp add: mil_producers_def)
  moreover have "mil_cells ?s'"
    unfolding mil_cells_def
  proof (intro conjI ballI allI impI)
    fix q
    assume q: "q \<in> published ?s'" "mil_live ?s' \<le> q"
    then have "mil_next s < q" "q < mil_next s + ring_size (mil_buf s)"
      using bm by (auto simp: mil_bitmap_def mil_live_def)
    from other [OF this] this(1) q show "ring_get (mil_buf ?s') q = event_of ?s' q" "event_of ?s' q \<noteq> None"
      using ce assms(2) by (simp_all add: mil_cells_def mil_live_def)
  next
    fix u q g
    assume "mtx_at ?s' u = MWritten q g"
    then have u: "mtx_at s u = MWritten q g" by simp
    then have mu: "mtx_seq (mtx_at s u) = Some (q, g)" "mtx_has_room (mtx_at s u)" by simp_all
    have "mil_next s < q" "q < mil_next s + ring_size (mil_buf s)"
      using mil_window(2) [OF assms(1) mu(1)] mil_producersD(5) [OF pr mu] assms(2) by simp_all
    from other [OF this] u ce show "ring_get (mil_buf ?s') q = Some g" by (simp add: mil_cells_def)
  qed
  moreover have "mil_consumer ?s'" using co np ev by (simp add: mil_consumer_def)
  ultimately show ?thesis by (simp add: mil_inv_def)
qed

lemma mil_inv_advance:
  assumes "mil_inv s" "mrx_at s = MRxRead e"
  shows "mil_inv (s\<lparr>mil_sh := (mil_sh s)\<lparr>mp_consumer_cursor := mil_next s\<rparr>,
                  mil_rx := (mil_rx s)\<lparr>mrx_next_sequence := mil_next s + 1\<rparr>,
                  mrx_at := MRxIdle, mreceived := mreceived s @ [e]\<rparr>)" (is "mil_inv ?s'")
proof -
  let ?n = "mil_next s" and ?N = "ring_size (mil_buf s)"
  have sh: "mil_shape s" and bm: "mil_bitmap s" and pr: "mil_producers s" and ce: "mil_cells s"
    and co: "mil_consumer s" using assms(1) by (simp_all add: mil_inv_def)
  have wf: "mpsc_wf (mil_sh s)" using sh by (simp add: mil_shape_def)
  then have N: "0 < ?N" using ring_wf_size_pos by (auto simp: mpsc_wf_def)
  have np: "?n \<in> published s" using co assms(2) by (simp add: mil_consumer_def)
  have pub: "is_published (mil_sh ?s') q = is_published (mil_sh s) q" for q
    by (simp add: is_published_def word_index_def)
  have "seq_ok ?n" "seq_ok (?n + ?N)" using mil_seq_ok [OF sh] N by simp_all
  from is_published_lap [OF wf this] have lap: "is_published (mil_sh s) (?n + ?N) = (\<not> is_published (mil_sh s) ?n)" .
  moreover have "is_published (mil_sh s) ?n" using bm np N by (auto simp: mil_bitmap_def)
  ultimately have new: "\<not> is_published (mil_sh s) (?n + ?N)" by simp
  have "mil_shape ?s'" using sh bm np by (auto simp: mil_shape_def mil_bitmap_def mpsc_wf_def)
  moreover have "mil_bitmap ?s'"
    unfolding mil_bitmap_def
  proof (intro conjI ballI)
    have "{0..<?n + 1} \<subseteq> insert ?n {0..<?n}" by auto
    then show "{0..<mil_next ?s'} \<subseteq> published ?s'" using bm np by (auto simp: mil_bitmap_def)
    fix q
    show "q \<in> published ?s' \<Longrightarrow> 0 \<le> q" "q \<in> published ?s' \<Longrightarrow> q \<le> claim_cursor (mil_sh ?s')"
      "q \<in> published ?s' \<Longrightarrow> q < mil_next ?s' + ring_size (mil_buf ?s')"
      using bm by (force simp: mil_bitmap_def)+
    assume "q \<in> {mil_next ?s'..<mil_next ?s' + ring_size (mil_buf ?s')}"
    then have q: "q = ?n + ?N \<or> q \<in> {?n..<?n + ?N}" using N by auto
    have "?n + ?N \<notin> published s" using bm by (auto simp: mil_bitmap_def)
    with q bm pub new show "is_published (mil_sh ?s') q \<longleftrightarrow> q \<in> published ?s'" by (auto simp: mil_bitmap_def)
  qed
  moreover have "mil_producers ?s'" using pr by (force simp: mil_producers_def)
  moreover have "mil_cells ?s'" using ce assms(2) by (auto simp: mil_cells_def mil_live_def)
  moreover have "mil_consumer ?s'"
    using co assms(2) sh by (simp add: mil_consumer_def mil_shape_def upto_snoc)
  ultimately show ?thesis by (simp add: mil_inv_def)
qed

lemma mil_step_inv: "mil_step s s' \<Longrightarrow> mil_inv s \<Longrightarrow> mil_inv s'"
  by (induction rule: mil_step.induct)
    (rule mil_inv_claim mil_inv_room mil_inv_write mil_inv_publish mil_inv_check mil_inv_read
      mil_inv_advance; assumption)+

lemma mil_inv_init:
  assumes "mpsc_channel_with_wait capacity = Done s0" "64 \<le> capacity" "capacity \<noteq> 2 ^ 63"
  shows "mil_inv (mil_init s0)"
proof -
  obtain sh c where s0: "s0 = (sh, c)" by (cases s0)
  note n = mpsc_new [OF assms(1) [unfolded s0] assms(2)]
  have cap: "rb_capacity (mp_buffer sh) = capacity" using n(1,2) by (simp add: mpsc_wf_def)
  obtain k where k: "k < 63" "capacity = 2 ^ k"
  proof -
    obtain k where "k < 64" "capacity = 2 ^ k"
      using n(1) cap by (auto simp: mpsc_wf_def ring_wf_def is_power_of_two_iff)
    moreover have "k \<noteq> 63" using assms(3) calculation(2) by auto
    ultimately show thesis using that [of k] by simp
  qed
  have size: "sint capacity = 2 ^ k" "uint capacity = 2 ^ k" "(2::int) ^ k \<le> 2 ^ 62"
    using k sint_pow2 [OF k(1)] uint_pow2 [of k] power_increasing [of k 62 "2::int"] by simp_all
  have "mil_shape (mil_init (sh, c))"
    using n size cap by (simp add: mil_init_def mil_shape_def)
  moreover have "mil_bitmap (mil_init (sh, c))"
    using n cap by (simp add: mil_init_def mil_bitmap_def)
  ultimately show ?thesis
    using n(5) unfolding s0 by (simp add: mil_inv_def mil_init_def mil_producers_def mil_cells_def mil_consumer_def)
qed

lemma mil_reachable_inv: "mil_reachable s \<Longrightarrow> mil_inv s"
  by (induction rule: mil_reachable.induct) (auto intro: mil_inv_init mil_step_inv)

section \<open>Properties\<close>

text \<open>
  C2. In every reachable interleaving of any number of producers with the consumer of an MPSC
  channel of capacity at least 64, the received events are those of the claimed sequences
  \<open>0, 1, 2, \<dots>\<close> in claim order; no two producers are about to write the same cell; no producer
  is about to write the cell the consumer is about to read; and the consumer reads an
  initialised cell that holds the event of its sequence.
\<close>

theorem mpsc_interleaving_safe:
  assumes "mil_reachable s"
  shows "map Some (mreceived s) = map (event_of s) [0..int (length (mreceived s)) - 1] \<and>
     (\<forall>t u p q e f. t \<noteq> u \<and> mtx_at s t = MReady p e \<and> mtx_at s u = MReady q f \<longrightarrow>
        ring_index (mil_buf s) p \<noteq> ring_index (mil_buf s) q) \<and>
     (\<forall>t q e. mrx_at s = MRxChecked \<and> mtx_at s t = MReady q e \<longrightarrow>
        ring_index (mil_buf s) q \<noteq> ring_index (mil_buf s) (mil_next s)) \<and>
     (mrx_at s = MRxChecked \<longrightarrow>
        (\<exists>e rb. ring_read (mil_buf s) (mil_next s) = Some (e, rb) \<and> event_of s (mil_next s) = Some e))"
proof (intro conjI allI impI)
  have inv: "mil_inv s" using assms by (rule mil_reachable_inv)
  then have sh: "mil_shape s" and pr: "mil_producers s" and co: "mil_consumer s" and ce: "mil_cells s"
    by (simp_all add: mil_inv_def)
  have room: "mil_next s \<le> q \<and> q < mil_next s + ring_size (mil_buf s)" if "mtx_at s t = MReady q e" for t q e
    using mil_window(1) [OF inv] mil_producersD(5) [OF pr] that by (metis mtx_has_room.simps(1) mtx_seq.simps(3))
  have "length (mreceived s) = length [0..mil_next s - 1]" using co by (metis length_map mil_consumer_def)
  then have "int (length (mreceived s)) = mil_next s" using sh by (simp add: mil_shape_def)
  then show "map Some (mreceived s) = map (event_of s) [0..int (length (mreceived s)) - 1]"
    using co by (simp add: mil_consumer_def)
  {
    fix t u p q e f
    assume a: "t \<noteq> u \<and> mtx_at s t = MReady p e \<and> mtx_at s u = MReady q f"
    then have "p \<noteq> q" using mil_producersD(6) [OF pr, of t p e u f] by auto
    with a room show "ring_index (mil_buf s) p \<noteq> ring_index (mil_buf s) q"
      by (intro mil_index_neq [OF sh]) blast+
  next
    fix t q e
    assume a: "mrx_at s = MRxChecked \<and> mtx_at s t = MReady q e"
    then have "mil_next s < q" using mil_window(2) [OF inv, of t q e] by simp
    with a room show "ring_index (mil_buf s) q \<noteq> ring_index (mil_buf s) (mil_next s)"
      by (intro mil_index_neq [OF sh]) fastforce+
  next
    assume c: "mrx_at s = MRxChecked"
    then have "mil_next s \<in> published s" using co by (simp add: mil_consumer_def)
    then obtain e where "ring_get (mil_buf s) (mil_next s) = Some e" "event_of s (mil_next s) = Some e"
      using ce c by (auto simp: mil_cells_def mil_live_def)
    then show "\<exists>e rb. ring_read (mil_buf s) (mil_next s) = Some (e, rb) \<and> event_of s (mil_next s) = Some e"
      by (auto simp: ring_read_def)
  }
qed

theorem mpsc_interleaving_safe_witness:
  "\<exists>s :: nat mil_state. mil_reachable s \<and> mtx_at s 0 = MReady 0 10 \<and> mtx_at s 1 = MReady 1 20 \<and>
     ring_index (mil_buf s) 0 \<noteq> ring_index (mil_buf s) 1"
proof -
  have "is_power_of_two 64" by code_simp
  then obtain sh c where new: "mpsc_channel_with_wait 64 = Done (sh :: nat mpsc_shared, c)"
    by (auto simp: mpsc_channel_with_wait_def ring_new_def)
  have "(64 :: usize) \<le> 64" "(64 :: usize) \<noteq> 2 ^ 63" by simp_all
  then have r0: "mil_reachable (mil_init (sh, c))" by (rule mil_reachable.start [OF new])
  note n = mpsc_new [OF new]
  have cap: "sint (mp_capacity sh) = 64" using n(2) by simp
  let ?s0 = "mil_init (sh, c)"
  let ?s1 = "?s0\<lparr>mil_sh := sh\<lparr>claim_cursor := 0\<rparr>, mtx_at := (mtx_at ?s0)(0 := MClaimed 0 10),
      event_of := (event_of ?s0)(0 \<mapsto> 10)\<rparr>"
  let ?s2 = "?s1\<lparr>mil_sh := sh\<lparr>claim_cursor := 1\<rparr>, mtx_at := (mtx_at ?s1)(1 := MClaimed 1 20),
      event_of := (event_of ?s1)(1 \<mapsto> 20)\<rparr>"
  let ?s3 = "?s2\<lparr>mtx_at := (mtx_at ?s2)(0 := MReady 0 10)\<rparr>"
  let ?s4 = "?s3\<lparr>mtx_at := (mtx_at ?s3)(1 := MReady 1 20)\<rparr>"
  have "mil_reachable ?s1"
    by (rule mil_reachable.step [OF r0], rule mil_step.m_claim)
      (use n in \<open>simp_all add: mil_init_def mtx_fetch_add_def\<close>)
  then have "mil_reachable ?s2"
    by (rule mil_reachable.step, intro mil_step.m_claim)
      (use n in \<open>simp_all add: mil_init_def mtx_fetch_add_def\<close>)
  then have "mil_reachable ?s3"
    by (rule mil_reachable.step, intro mil_step.m_room)
      (use n cap in \<open>simp_all add: mil_init_def\<close>)
  then have r4: "mil_reachable ?s4"
    by (rule mil_reachable.step, intro mil_step.m_room)
      (use n cap in \<open>simp_all add: mil_init_def\<close>)
  have at: "mtx_at ?s4 0 = MReady 0 10" "mtx_at ?s4 1 = MReady 1 20" by simp_all
  have "ring_index (mil_buf ?s4) 0 \<noteq> ring_index (mil_buf ?s4) 1"
    using mpsc_interleaving_safe [OF r4] at by (metis zero_neq_one)
  with r4 at show ?thesis by blast
qed



text \<open>
  C28. With a capacity below 64 the bitmap has more bits than the ring has cells, and the
  alternating bit is ambiguous: once the first lap of a new channel has been published and
  received, the consumer takes the first sequence of the second lap for published although
  nobody has sent it, and moves an event out of an uninitialised cell.
\<close>

theorem mpsc_small_capacity_phantom:
  assumes "mpsc_channel_with_wait capacity = Done (sh0, c0)" "capacity < 64"
    and "mp_capacity sh = capacity" "availability_words sh = availability_words sh0"
    and "availability sh = availability (fold mark_published [0..uint capacity - 1] sh0)"
    and "mrx_next_sequence c = uint capacity" "ring_slot (mp_buffer sh) (uint capacity) = Uninit"
  shows "is_published sh (uint capacity) \<and> mrx_try_recv f sh c = Undefined"
proof -
  obtain rb where rb: "ring_new capacity = Done rb" "sh0 = mp_create_shared capacity rb"
    using assms(1) by (auto simp: mpsc_channel_with_wait_def run_bind_eq_Done)
  have wf: "ring_wf rb" "rb_capacity rb = capacity" using rb(1) ring_new_wf ring_new_capacity by blast+
  define n where "n = unat capacity"
  have u: "uint capacity = int n" unfolding n_def by (rule uint_nat)
  have c0: "0 < n" using ring_wf_size_pos [OF wf(1)] unfolding wf(2) u by simp
  have c64: "n < 64" using assms(2) by (simp add: word_less_nat_alt n_def)
  have ok: "seq_ok (uint capacity)" unfolding u using c64 by (simp add: seq_ok_def)
  have bi: "bit_index s = nat s" if "0 \<le> s" "s < 64" for s
  proof -
    have "seq_ok s" using that by (simp add: seq_ok_def)
    then have "bit_index s = nat s mod 64" by (rule bit_index_eq)
    also have "nat s < 64" using that by linarith
    then have "nat s mod 64 = nat s" by (rule mod_less)
    finally show ?thesis .
  qed
  have w: "unat (availability_words sh0) = 1"
    using rb(2) mpsc_new_words_small [OF c0 [unfolded n_def] c64 [unfolded n_def]]
    by (simp add: mp_create_shared_def Let_def)
  have wi: "word_index sh (uint capacity) = 0" using w assms(4) by (simp add: word_index_eq [OF ok])
  have "bit_index s \<noteq> bit_index (int n)" if "s \<in> set [0..int n - 1]" for s
  proof -
    have s: "0 \<le> s" "s < int n" using that by auto
    then have "bit_index s = nat s" "bit_index (int n) = n" using c64 bi [of s] bi [of "int n"] by auto
    with s show ?thesis by linarith
  qed
  then have "bit_index (uint capacity) \<notin> bit_index ` set [0..uint capacity - 1]"
    unfolding u by (metis imageE)
  then have "bit (availability sh ! 0) (bit_index (uint capacity)) = bit (availability sh0 ! 0) (bit_index (uint capacity))"
    unfolding assms(5) using rb(2) w by (intro fold_mark_other_bit) (simp_all add: mp_create_shared_def Let_def)
  also have "availability sh0 ! 0 = NOT 0"
    using rb(2) w by (simp add: mp_create_shared_def Let_def)
  finally have "bit (availability sh ! 0) (bit_index (uint capacity))"
    using bit_index_less by (simp add: bit_not_iff)
  moreover have "nat (uint capacity) div unat (mp_capacity sh) = 1"
    using c0 unfolding assms(3) u n_def [symmetric] by simp
  ultimately have "is_published sh (uint capacity)" by (simp add: is_published_bit [OF ok] wi)
  then show ?thesis
    using assms(6,7) by (simp add: mrx_try_recv_def mrx_take_def ring_read_def unsafe_run_def)
qed

theorem mpsc_small_capacity_phantom_witness:
  "\<exists>sh0 c0. mpsc_channel_with_wait 8 = Done (sh0 :: nat mpsc_shared, c0) \<and>
     mrx_try_recv id ((fold mark_published [0..7] sh0)\<lparr>claim_cursor := 7, mp_consumer_cursor := 7\<rparr>)
       \<lparr>mrx_next_sequence = 8\<rparr> = Undefined"
proof -
  have "is_power_of_two 8" by code_simp
  then obtain sh0 c0 where new: "mpsc_channel_with_wait 8 = Done (sh0 :: nat mpsc_shared, c0)"
    and cap: "mp_capacity sh0 = 8"
    and un: "ring_slot (mp_buffer sh0) 8 = Uninit"
    by (auto simp: mpsc_channel_with_wait_def ring_new_def mp_create_shared_def ring_slot_def ring_index_def Let_def)
  let ?sh = "(fold mark_published [0..7] sh0)\<lparr>claim_cursor := 7, mp_consumer_cursor := 7\<rparr>"
  have "mp_capacity ?sh = 8" "availability_words ?sh = availability_words sh0"
    "availability ?sh = availability (fold mark_published [0..uint (8::usize) - 1] sh0)"
    "mrx_next_sequence \<lparr>mrx_next_sequence = 8\<rparr> = uint (8::usize)"
    "ring_slot (mp_buffer ?sh) (uint (8::usize)) = Uninit"
    using cap un by simp_all
  from mpsc_small_capacity_phantom [OF new _ this] new show ?thesis by auto
qed

end
