(* ===== verification/Seq_Lock.thy ===== *)
theory Seq_Lock
  imports Land_Prelude
begin

text \<open>
  The sequence lock of \<open>src/sync/src/seqlock.rs\<close>: a version counter, odd while a write is in
  progress, beside data that readers copy out and validate afterwards.

  The data is a list of memory words, so that a copy can be torn: a reader takes one word at
  a time and the writer may store between two of them. The operations are functions of the
  states of the lock that their accesses observe, and \<open>sl_step\<close> interleaves the accesses of
  one writer with those of any number of readers. Executions are sequentially consistent.
\<close>

section \<open>The lock and its operations\<close>

record 'w seq_lock =
  sl_version :: u64
  sl_data :: "'w list"

definition version_increment :: "'w seq_lock \<Rightarrow> 'w seq_lock" where
  "version_increment l = l\<lparr>sl_version := sl_version l + 1\<rparr>"

definition seqlock_new :: "'w list \<Rightarrow> 'w seq_lock" where
  "seqlock_new value = \<lparr>sl_version = 0, sl_data = value\<rparr>"

definition seqlock_version :: "'w seq_lock \<Rightarrow> u64" where
  "seqlock_version l = sl_version l"

text \<open>
  One attempt to read: \<open>l1\<close> is the lock at the first load of the version, \<open>ls\<close> the lock at
  the load of each word, \<open>l2\<close> the lock at the second load of the version.
\<close>

definition torn_copy :: "'w seq_lock list \<Rightarrow> 'w list" where
  "torn_copy ls = map (\<lambda>(i, l). sl_data l ! i) (enumerate 0 ls)"

definition seqlock_try_read_with ::
  "('w list \<Rightarrow> 'r) \<Rightarrow> 'w seq_lock \<Rightarrow> 'w seq_lock list \<Rightarrow> 'w seq_lock \<Rightarrow> 'r option" where
  "seqlock_try_read_with f l1 ls l2 =
     (let v1 = sl_version l1 in
      if v1 AND 1 = 1 then None
      else
        let result = f (torn_copy ls);
            v2 = sl_version l2
        in if v1 \<noteq> v2 then None else Some result)"

definition seqlock_try_read ::
  "'w seq_lock \<Rightarrow> 'w seq_lock list \<Rightarrow> 'w seq_lock \<Rightarrow> 'w list option" where
  "seqlock_try_read l1 ls l2 =
     (let v1 = sl_version l1 in
      if v1 AND 1 = 1 then None
      else
        let value = torn_copy ls;
            v2 = sl_version l2
        in if v1 \<noteq> v2 then None else Some value)"

text \<open>The spin loop, over the observations of its successive attempts.\<close>

fun seqlock_read ::
  "('w seq_lock \<times> 'w seq_lock list \<times> 'w seq_lock) list \<Rightarrow> 'w list run" where
  "seqlock_read [] = Blocked"
| "seqlock_read ((l1, ls, l2) # obs) =
     (case seqlock_try_read l1 ls l2 of Some value \<Rightarrow> Done value | None \<Rightarrow> seqlock_read obs)"

fun seqlock_read_with ::
  "('w list \<Rightarrow> 'r) \<Rightarrow> ('w seq_lock \<times> 'w seq_lock list \<times> 'w seq_lock) list \<Rightarrow> 'r run" where
  "seqlock_read_with f [] = Blocked"
| "seqlock_read_with f ((l1, ls, l2) # obs) =
     (case seqlock_try_read_with f l1 ls l2 of
        Some result \<Rightarrow> Done result
      | None \<Rightarrow> seqlock_read_with f obs)"

definition seqlock_write :: "'w list \<Rightarrow> 'w seq_lock \<Rightarrow> 'w seq_lock" where
  "seqlock_write value l =
     (let l1 = version_increment l;
          l2 = l1\<lparr>sl_data := value\<rparr>
      in version_increment l2)"

definition seqlock_update :: "('w list \<Rightarrow> 'w list) \<Rightarrow> 'w seq_lock \<Rightarrow> 'w seq_lock" where
  "seqlock_update f l =
     (let l1 = version_increment l;
          l2 = l1\<lparr>sl_data := f (sl_data l1)\<rparr>
      in version_increment l2)"

section \<open>Executions of the writer\<close>

text \<open>
  The lock between two accesses of the writer. The ghost fields count the increments of the
  version and record the committed values, the newest first.
\<close>

record 'w sl_state =
  sl_lock :: "'w seq_lock"
  sl_writing :: bool
  sl_incs :: nat
  sl_committed :: "'w list list"

definition sl_init :: "'w list \<Rightarrow> 'w sl_state" where
  "sl_init d = \<lparr>sl_lock = seqlock_new d, sl_writing = False, sl_incs = 0, sl_committed = [d]\<rparr>"

text \<open>
  The writer stores any word at any index between its two increments: this covers \<open>write\<close>,
  whatever the order in which a copy stores the words, and the closure of \<open>update\<close>.
\<close>

inductive sl_step :: "'w sl_state \<Rightarrow> 'w sl_state \<Rightarrow> bool" where
  w_begin: "\<not> sl_writing s \<Longrightarrow>
     sl_step s (s\<lparr>sl_lock := version_increment (sl_lock s), sl_writing := True,
                 sl_incs := Suc (sl_incs s)\<rparr>)"
| w_store: "sl_writing s \<Longrightarrow> i < length (sl_data (sl_lock s)) \<Longrightarrow>
     sl_step s (s\<lparr>sl_lock := (sl_lock s)\<lparr>sl_data := (sl_data (sl_lock s))[i := x]\<rparr>\<rparr>)"
| w_end: "sl_writing s \<Longrightarrow>
     sl_step s (s\<lparr>sl_lock := version_increment (sl_lock s), sl_writing := False,
                 sl_incs := Suc (sl_incs s), sl_committed := sl_data (sl_lock s) # sl_committed s\<rparr>)"

text \<open>An execution: the state at every point in time, the writer doing at most one access in between.\<close>

definition sl_run :: "'w list \<Rightarrow> (nat \<Rightarrow> 'w sl_state) \<Rightarrow> bool" where
  "sl_run d \<sigma> \<longleftrightarrow> \<sigma> 0 = sl_init d \<and> (\<forall>k. \<sigma> (Suc k) = \<sigma> k \<or> sl_step (\<sigma> k) (\<sigma> (Suc k)))"

text \<open>
  A reader's attempt in an execution: the version is loaded at time \<open>a\<close>, the words at the
  times \<open>ts\<close>, the version again at time \<open>b\<close>, before the counter has gone round once.
\<close>

definition sl_attempt ::
  "(nat \<Rightarrow> 'w sl_state) \<Rightarrow> 'w seq_lock \<times> 'w seq_lock list \<times> 'w seq_lock \<Rightarrow> bool" where
  "sl_attempt \<sigma> ob \<longleftrightarrow>
     (\<exists>a ts b. ob = (sl_lock (\<sigma> a), map (\<lambda>t. sl_lock (\<sigma> t)) ts, sl_lock (\<sigma> b)) \<and>
        length ts = length (sl_data (sl_lock (\<sigma> 0))) \<and> (\<forall>t \<in> set ts. a \<le> t \<and> t \<le> b) \<and> a \<le> b \<and>
        sl_incs (\<sigma> b) < 2 ^ 64)"

text \<open>
  The invariant: the version is the number of increments, which is odd exactly while a write
  is in progress, and outside a write the data is the last committed value.
\<close>

definition sl_inv :: "'w sl_state \<Rightarrow> bool" where
  "sl_inv s \<longleftrightarrow>
     sl_version (sl_lock s) = word_of_nat (sl_incs s) \<and> sl_writing s = odd (sl_incs s) \<and>
     (\<not> sl_writing s \<longrightarrow> sl_data (sl_lock s) \<in> set (sl_committed s))"

lemma and_one_of_nat: "((word_of_nat n :: u64) AND 1 = 1) \<longleftrightarrow> odd n"
proof -
  have "odd (word_of_nat n :: u64) \<longleftrightarrow> odd n"
  proof (cases "even n")
    case True
    then obtain m where "n = 2 * m" by blast
    then show ?thesis by simp
  next
    case False
    then obtain m where "n = Suc (2 * m)" by (auto elim: oddE)
    then show ?thesis by simp
  qed
  then show ?thesis by (simp only: and_one_eq odd_iff_mod_2_eq_one)
qed

lemma word_of_nat_inj_small:
  "m < 2 ^ 64 \<Longrightarrow> n < 2 ^ 64 \<Longrightarrow> (word_of_nat m :: u64) = word_of_nat n \<longleftrightarrow> m = n"
  by (simp add: word_of_nat_eq_iff take_bit_eq_mod)

lemma sl_inv_step: "sl_step s s' \<Longrightarrow> sl_inv s \<Longrightarrow> sl_inv s'"
  by (induction rule: sl_step.induct) (auto simp: sl_inv_def version_increment_def)

lemma sl_run_inv: "sl_run d \<sigma> \<Longrightarrow> sl_inv (\<sigma> k)"
proof (induction k)
  case 0
  then show ?case by (simp add: sl_run_def sl_inv_def sl_init_def seqlock_new_def)
next
  case (Suc k)
  from Suc.prems have "\<sigma> (Suc k) = \<sigma> k \<or> sl_step (\<sigma> k) (\<sigma> (Suc k))" by (simp add: sl_run_def)
  then show ?case using Suc by (auto intro: sl_inv_step)
qed

text \<open>What one step keeps: the length of the data, the committed values, and outside a write all data.\<close>

lemma sl_step_mono:
  assumes "sl_step s s'" "sl_inv s"
  shows "sl_incs s \<le> sl_incs s'" "length (sl_data (sl_lock s')) = length (sl_data (sl_lock s))"
    "even (sl_incs s) \<Longrightarrow> sl_incs s' = sl_incs s \<Longrightarrow> s' = s"
  using assms by (induction rule: sl_step.induct) (auto simp: sl_inv_def version_increment_def)

lemma sl_run_mono:
  assumes "sl_run d \<sigma>" "a \<le> b"
  shows "sl_incs (\<sigma> a) \<le> sl_incs (\<sigma> b) \<and>
    length (sl_data (sl_lock (\<sigma> b))) = length (sl_data (sl_lock (\<sigma> a))) \<and>
    (even (sl_incs (\<sigma> a)) \<longrightarrow> sl_incs (\<sigma> b) = sl_incs (\<sigma> a) \<longrightarrow> \<sigma> b = \<sigma> a)"
  using assms(2)
proof (induction rule: dec_induct)
  case base
  then show ?case by simp
next
  case (step k)
  consider "\<sigma> (Suc k) = \<sigma> k" | "sl_step (\<sigma> k) (\<sigma> (Suc k))" using assms(1) by (auto simp: sl_run_def)
  then show ?case
  proof cases
    case 1
    then show ?thesis using step by simp
  next
    case 2
    note m = sl_step_mono [OF 2 sl_run_inv [OF assms(1)]]
    have le: "sl_incs (\<sigma> a) \<le> sl_incs (\<sigma> k)" using step.IH by (rule conjunct1)
    have "\<sigma> (Suc k) = \<sigma> a" if ev: "even (sl_incs (\<sigma> a))" and eq: "sl_incs (\<sigma> (Suc k)) = sl_incs (\<sigma> a)"
    proof -
      have k: "sl_incs (\<sigma> k) = sl_incs (\<sigma> a)" using m(1) le eq by linarith
      have "\<sigma> (Suc k) = \<sigma> k" by (rule m(3)) (simp_all only: k ev eq)
      also have "\<sigma> k = \<sigma> a" using step.IH k ev by blast
      finally show ?thesis .
    qed
    moreover have "length (sl_data (sl_lock (\<sigma> (Suc k)))) = length (sl_data (sl_lock (\<sigma> a)))"
      using m(2) step.IH by presburger
    ultimately show ?thesis using le m(1) order_trans by blast
  qed
qed

text \<open>An accepted copy was taken while nothing changed.\<close>

lemma sl_accept_quiet:
  assumes run: "sl_run d \<sigma>" and ord: "a \<le> b" and small: "sl_incs (\<sigma> b) < 2 ^ 64"
    and even: "\<not> sl_version (sl_lock (\<sigma> a)) AND 1 = 1"
    and eq: "sl_version (sl_lock (\<sigma> a)) = sl_version (sl_lock (\<sigma> b))"
  shows "\<not> sl_writing (\<sigma> a) \<and> (\<forall>t. a \<le> t \<longrightarrow> t \<le> b \<longrightarrow> \<sigma> t = \<sigma> a)"
proof -
  have va: "sl_version (sl_lock (\<sigma> a)) = word_of_nat (sl_incs (\<sigma> a))"
    and vb: "sl_version (sl_lock (\<sigma> b)) = word_of_nat (sl_incs (\<sigma> b))"
    and w: "sl_writing (\<sigma> a) = odd (sl_incs (\<sigma> a))"
    using sl_run_inv [OF run, of a] sl_run_inv [OF run, of b] unfolding sl_inv_def by blast+
  have ev: "even (sl_incs (\<sigma> a))" using even unfolding va and_one_of_nat by simp
  have le: "sl_incs (\<sigma> a) \<le> sl_incs (\<sigma> b)" using sl_run_mono [OF run ord] by simp
  have same: "sl_incs (\<sigma> a) = sl_incs (\<sigma> b)"
    using eq le small word_of_nat_inj_small [of "sl_incs (\<sigma> a)" "sl_incs (\<sigma> b)"]
    unfolding va vb by linarith
  have "\<sigma> t = \<sigma> a" if t: "a \<le> t" "t \<le> b" for t
  proof -
    have "sl_incs (\<sigma> a) \<le> sl_incs (\<sigma> t)" "sl_incs (\<sigma> t) \<le> sl_incs (\<sigma> b)"
      using sl_run_mono [OF run t(1)] sl_run_mono [OF run t(2)] by blast+
    then have "sl_incs (\<sigma> t) = sl_incs (\<sigma> a)" using same by linarith
    then show ?thesis using sl_run_mono [OF run t(1)] ev by blast
  qed
  with w ev show ?thesis by blast
qed

lemma torn_copy_same: "length ts = length (sl_data l) \<Longrightarrow> \<forall>t \<in> set ts. f t = l \<Longrightarrow>
    torn_copy (map f ts) = sl_data l"
  by (rule nth_equalityI) (auto simp: torn_copy_def enumerate_eq_zip)

lemma sl_attempt_result:
  assumes run: "sl_run d \<sigma>" and at: "sl_attempt \<sigma> (l1, ls, l2)"
    and some: "seqlock_try_read_with f l1 ls l2 = Some r"
  shows "\<exists>a. \<not> sl_writing (\<sigma> a) \<and> r = f (sl_data (sl_lock (\<sigma> a)))"
proof -
  obtain a ts b where ob: "l1 = sl_lock (\<sigma> a)" "ls = map (\<lambda>t. sl_lock (\<sigma> t)) ts" "l2 = sl_lock (\<sigma> b)"
    and len: "length ts = length (sl_data (sl_lock (\<sigma> 0)))" and mid: "\<forall>t \<in> set ts. a \<le> t \<and> t \<le> b"
    and ord: "a \<le> b" and small: "sl_incs (\<sigma> b) < 2 ^ 64"
    using at unfolding sl_attempt_def by blast
  have v: "\<not> sl_version (sl_lock (\<sigma> a)) AND 1 = 1"
    "sl_version (sl_lock (\<sigma> a)) = sl_version (sl_lock (\<sigma> b))" and r: "r = f (torn_copy ls)"
    using some by (auto simp: seqlock_try_read_with_def Let_def ob split: if_splits)
  note quiet = sl_accept_quiet [OF run ord small v]
  have "length ts = length (sl_data (sl_lock (\<sigma> a)))"
    using len conjunct1 [OF conjunct2 [OF sl_run_mono [OF run, of 0 a]]] by simp
  then have copy: "torn_copy ls = sl_data (sl_lock (\<sigma> a))"
    unfolding ob(2)
  proof (rule torn_copy_same, intro ballI)
    fix t assume "t \<in> set ts"
    with mid have "\<sigma> t = \<sigma> a" by (intro conjunct2 [OF quiet, rule_format]) blast+
    then show "sl_lock (\<sigma> t) = sl_lock (\<sigma> a)" by (rule arg_cong)
  qed
  have "\<not> sl_writing (\<sigma> a)" using quiet by (rule conjunct1)
  with r copy show ?thesis by (intro exI [of _ a]) simp
qed

lemma seqlock_read_is_read_with: "seqlock_read obs = seqlock_read_with id obs"
  by (induction obs rule: seqlock_read.induct)
    (auto simp: seqlock_try_read_def seqlock_try_read_with_def Let_def split: option.splits)

lemma seqlock_read_with_Done:
  "seqlock_read_with f obs = Done r \<Longrightarrow> \<exists>(l1, ls, l2) \<in> set obs. seqlock_try_read_with f l1 ls l2 = Some r"
  by (induction f obs rule: seqlock_read_with.induct) (auto split: option.splits)

lemma seqlock_read_with_consistent:
  assumes "sl_run d \<sigma>" "\<forall>ob \<in> set obs. sl_attempt \<sigma> ob" "seqlock_read_with f obs = Done r"
  shows "\<exists>a. \<not> sl_writing (\<sigma> a) \<and> sl_data (sl_lock (\<sigma> a)) \<in> set (sl_committed (\<sigma> a)) \<and>
    r = f (sl_data (sl_lock (\<sigma> a)))"
proof -
  obtain l1 ls l2 where "(l1, ls, l2) \<in> set obs" "seqlock_try_read_with f l1 ls l2 = Some r"
    using seqlock_read_with_Done [OF assms(3)] by auto
  then obtain a where a: "\<not> sl_writing (\<sigma> a)" "r = f (sl_data (sl_lock (\<sigma> a)))"
    using sl_attempt_result [OF assms(1)] assms(2) by meson
  with sl_run_inv [OF assms(1), of a] show ?thesis unfolding sl_inv_def by blast
qed

section \<open>Writes as sequences of accesses\<close>

lemma sl_store_prefix:
  assumes "sl_writing s" "length v = length (sl_data (sl_lock s))" "n \<le> length v"
  shows "sl_step\<^sup>*\<^sup>* s (s\<lparr>sl_lock := (sl_lock s)\<lparr>sl_data := take n v @ drop n (sl_data (sl_lock s))\<rparr>\<rparr>)"
  using assms(3)
proof (induction n)
  case 0
  then show ?case by simp
next
  case (Suc n)
  let ?d = "\<lambda>n. take n v @ drop n (sl_data (sl_lock s))"
  let ?s = "s\<lparr>sl_lock := (sl_lock s)\<lparr>sl_data := ?d n\<rparr>\<rparr>"
  have "(?d n)[n := v ! n] = ?d (Suc n)"
    using Suc.prems assms(2)
    by (intro nth_equalityI) (auto simp: nth_append nth_list_update less_Suc_eq min_def)
  moreover have "sl_step ?s (?s\<lparr>sl_lock := (sl_lock ?s)\<lparr>sl_data := (sl_data (sl_lock ?s))[n := v ! n]\<rparr>\<rparr>)"
    using Suc.prems assms by (intro sl_step.w_store) auto
  ultimately have "sl_step ?s (s\<lparr>sl_lock := (sl_lock s)\<lparr>sl_data := ?d (Suc n)\<rparr>\<rparr>)" by simp
  with Suc show ?case by simp
qed

lemma sl_update_steps:
  assumes "\<not> sl_writing s" "length (f (sl_data (sl_lock s))) = length (sl_data (sl_lock s))"
  shows "\<exists>s'. sl_step\<^sup>*\<^sup>* s s' \<and> sl_lock s' = seqlock_update f (sl_lock s) \<and> \<not> sl_writing s' \<and>
    sl_committed s' = f (sl_data (sl_lock s)) # sl_committed s"
proof -
  let ?v = "f (sl_data (sl_lock s))"
  let ?s1 = "s\<lparr>sl_lock := version_increment (sl_lock s), sl_writing := True, sl_incs := Suc (sl_incs s)\<rparr>"
  let ?s2 = "?s1\<lparr>sl_lock := (sl_lock ?s1)\<lparr>sl_data := ?v\<rparr>\<rparr>"
  have "sl_step s ?s1" using assms(1) by (rule sl_step.w_begin)
  moreover have "sl_step\<^sup>*\<^sup>* ?s1 ?s2"
    using sl_store_prefix [of ?s1 ?v "length ?v"] assms(2) by (simp add: version_increment_def)
  moreover have "sl_step ?s2 (?s2\<lparr>sl_lock := version_increment (sl_lock ?s2), sl_writing := False,
      sl_incs := Suc (sl_incs ?s2), sl_committed := sl_data (sl_lock ?s2) # sl_committed ?s2\<rparr>)" (is "sl_step _ ?s3")
    by (rule sl_step.w_end) simp
  ultimately have "sl_step\<^sup>*\<^sup>* s ?s3" by (meson converse_rtranclp_into_rtranclp rtranclp.rtrancl_into_rtrancl)
  moreover have "sl_lock ?s3 = seqlock_update f (sl_lock s)"
    by (simp add: seqlock_update_def version_increment_def)
  ultimately show ?thesis by (intro exI [of _ ?s3]) simp
qed

lemma seqlock_write_is_update: "seqlock_write v l = seqlock_update (\<lambda>_. v) l"
  by (simp add: seqlock_write_def seqlock_update_def)

text \<open>
  C5. A sequence lock never hands out a torn value. In every execution of the single writer,
  a value that \<open>read\<close> returns, or that the closure of \<open>read_with\<close> is applied to, is the whole
  data at one point of the execution at which no write was in progress, and it was committed by
  a finished write (or is the initial value), although the reader takes the words one by one.
\<close>

theorem seqlock_read_consistent:
  assumes "sl_run d \<sigma>" "\<forall>ob \<in> set obs. sl_attempt \<sigma> ob"
  shows "(seqlock_read obs = Done v \<longrightarrow>
      (\<exists>a. \<not> sl_writing (\<sigma> a) \<and> v = sl_data (sl_lock (\<sigma> a)) \<and> v \<in> set (sl_committed (\<sigma> a)))) \<and>
    (seqlock_read_with f obs = Done r \<longrightarrow>
      (\<exists>a. \<not> sl_writing (\<sigma> a) \<and> r = f (sl_data (sl_lock (\<sigma> a))) \<and>
        sl_data (sl_lock (\<sigma> a)) \<in> set (sl_committed (\<sigma> a))))"
  using seqlock_read_with_consistent [OF assms, of id v] seqlock_read_with_consistent [OF assms, of f r]
  unfolding seqlock_read_is_read_with by auto

text \<open>A concrete execution: one write of two words, and then no more accesses of the writer.\<close>

definition sl_demo :: "nat \<Rightarrow> nat sl_state" where
  "sl_demo k =
     (if k = 0 then \<lparr>sl_lock = \<lparr>sl_version = 0, sl_data = [1, 2]\<rparr>, sl_writing = False, sl_incs = 0, sl_committed = [[1, 2]]\<rparr>
      else if k = 1 then \<lparr>sl_lock = \<lparr>sl_version = 1, sl_data = [1, 2]\<rparr>, sl_writing = True, sl_incs = 1, sl_committed = [[1, 2]]\<rparr>
      else if k = 2 then \<lparr>sl_lock = \<lparr>sl_version = 1, sl_data = [3, 2]\<rparr>, sl_writing = True, sl_incs = 1, sl_committed = [[1, 2]]\<rparr>
      else if k = 3 then \<lparr>sl_lock = \<lparr>sl_version = 1, sl_data = [3, 4]\<rparr>, sl_writing = True, sl_incs = 1, sl_committed = [[1, 2]]\<rparr>
      else \<lparr>sl_lock = \<lparr>sl_version = 2, sl_data = [3, 4]\<rparr>, sl_writing = False, sl_incs = 2, sl_committed = [[3, 4], [1, 2]]\<rparr>)"

lemma sl_demo_run: "sl_run [1, 2] sl_demo"
proof -
  have s0: "sl_step (sl_demo 0) (sl_demo (Suc 0))"
    using sl_step.w_begin [of "sl_demo 0"] by (simp add: sl_demo_def version_increment_def)
  have s1: "sl_step (sl_demo 1) (sl_demo (Suc 1))"
    using sl_step.w_store [of "sl_demo 1" 0 3] by (simp add: sl_demo_def)
  have s2: "sl_step (sl_demo 2) (sl_demo (Suc 2))"
    using sl_step.w_store [of "sl_demo 2" 1 4] by (simp add: sl_demo_def)
  have s3: "sl_step (sl_demo 3) (sl_demo (Suc 3))"
    using sl_step.w_end [of "sl_demo 3"] by (simp add: sl_demo_def version_increment_def numeral_2_eq_2)
  have "sl_demo (Suc k) = sl_demo k \<or> sl_step (sl_demo k) (sl_demo (Suc k))" for k
  proof -
    consider "k = 0" | "k = 1" | "k = 2" | "k = 3" | "4 \<le> k" by linarith
    then show ?thesis
    proof cases
      case 5
      then show ?thesis by (simp add: sl_demo_def)
    qed (use s0 s1 s2 s3 in \<open>simp_all only: simp_thms\<close>)
  qed
  then have "\<forall>k. sl_demo (Suc k) = sl_demo k \<or> sl_step (sl_demo k) (sl_demo (Suc k))" by (rule allI)
  moreover have "sl_demo 0 = sl_init [1, 2]" by (simp add: sl_demo_def sl_init_def seqlock_new_def)
  ultimately show ?thesis unfolding sl_run_def by (intro conjI)
qed

theorem seqlock_read_consistent_witness:
  "\<exists>a. \<not> sl_writing (sl_demo a) \<and> [3, 4] = sl_data (sl_lock (sl_demo a)) \<and> [3, 4] \<in> set (sl_committed (sl_demo a))"
proof -
  let ?ob = "\<lambda>a t u b. (sl_lock (sl_demo a), map (\<lambda>t. sl_lock (sl_demo t)) [t, u], sl_lock (sl_demo b))"
  have "sl_attempt sl_demo (?ob 0 2 2 4)" unfolding sl_attempt_def
    by (rule exI [of _ 0], rule exI [of _ "[2, 2]"], rule exI [of _ 4]) (simp add: sl_demo_def)
  moreover have "sl_attempt sl_demo (?ob 4 5 6 7)" unfolding sl_attempt_def
    by (rule exI [of _ 4], rule exI [of _ "[5, 6]"], rule exI [of _ 7]) (simp add: sl_demo_def)
  ultimately have obs: "\<forall>ob \<in> set [?ob 0 2 2 4, ?ob 4 5 6 7]. sl_attempt sl_demo ob"
    by (simp only: list.set ball_simps simp_thms)
  have read: "seqlock_read [?ob 0 2 2 4, ?ob 4 5 6 7] = Done [3, 4]"
    by (simp add: seqlock_try_read_def torn_copy_def sl_demo_def)
  show ?thesis by (rule mp [OF conjunct1 [OF seqlock_read_consistent [OF sl_demo_run obs]] read])
qed

lemma and_one_add_two: "(v + 2 :: u64) AND 1 = v AND 1"
  by (rule bit_word_eqI) (auto simp: bit_simps bit_0 and_one_eq bit_1_iff)

lemma seqlock_update_result:
  "sl_version (seqlock_update f l) = sl_version l + 2" "sl_data (seqlock_update f l) = f (sl_data l)"
  by (simp_all add: seqlock_update_def version_increment_def)

lemma seqlock_read_quiet:
  assumes "\<not> sl_version l AND 1 = 1"
  shows "seqlock_read ((l, replicate (length (sl_data l)) l, l) # obs) = Done (sl_data l)"
proof -
  have "torn_copy (map (\<lambda>_. l) (replicate (length (sl_data l)) ())) = sl_data l"
    by (rule torn_copy_same) simp_all
  then show ?thesis using assms by (simp add: seqlock_try_read_def)
qed

text \<open>
  C27. What a finished write stored is what the next undisturbed read returns, for \<open>write\<close> and
  for \<open>update\<close>, and each of them is a sequence of accesses of the writer that commits exactly
  that value and leaves the version even: the round trip through the lock.
\<close>

theorem seqlock_roundtrip:
  assumes "\<not> sl_version l AND 1 = 1"
  shows "(let l' = seqlock_write v l in seqlock_read ((l', replicate (length v) l', l') # obs) = Done v) \<and>
    (let l' = seqlock_update f l in
       seqlock_read ((l', replicate (length (f (sl_data l))) l', l') # obs) = Done (f (sl_data l))) \<and>
    (sl_lock s = l \<and> \<not> sl_writing s \<and> length (f (sl_data l)) = length (sl_data l) \<longrightarrow>
       (\<exists>s'. sl_step\<^sup>*\<^sup>* s s' \<and> sl_lock s' = seqlock_update f l \<and> sl_committed s' = f (sl_data l) # sl_committed s))"
proof -
  have r: "seqlock_read ((l', replicate (length (g (sl_data l))) l', l') # obs) = Done (g (sl_data l))"
    if "l' = seqlock_update g l" for g l'
    using seqlock_read_quiet [of l' obs] assms unfolding that
    by (simp add: seqlock_update_result and_one_add_two)
  show ?thesis
    using r [OF refl, of "\<lambda>_. v"] r [OF refl, of f] sl_update_steps [of s f]
    by (simp add: seqlock_write_is_update Let_def) blast
qed

theorem seqlock_roundtrip_witness:
  "let l' = seqlock_write [5, 6] (seqlock_new [1, 2 :: nat]) in seqlock_read [(l', [l', l'], l')] = Done [5, 6]"
proof -
  have "\<not> sl_version (seqlock_new [1, 2 :: nat]) AND 1 = 1" by (simp add: seqlock_new_def)
  from conjunct1 [OF seqlock_roundtrip [OF this, of "[5, 6]" "[]"]] show ?thesis
    by (simp add: numeral_2_eq_2)
qed

end
