(* ===== verification/Leader_Buffer.thy ===== *)
theory Leader_Buffer
  imports Seq_Lock
begin

text \<open>
  Leader entries and the leader buffer of \<open>src/leader/src/leader_entry.rs\<close> and
  \<open>src/leader/src/leader_buffer.rs\<close>: ten entries behind a sequence lock, entry \<open>i\<close> the leader
  of the \<open>i\<close>-th group of four slots from the current one.

  Slots are 64-bit words with the wrapping arithmetic of a release build. A reader copies an
  entry field by field, each field from the buffer as it is at that moment.
\<close>

section \<open>Leader entries\<close>

type_synonym pubkey = "u8 list"

record leader_entry =
  le_pubkey :: pubkey
  tpu_quic_ip :: "u8 list"
  tpu_quic_port :: u16
  tpu_quic_fwd_ip :: "u8 list"
  tpu_quic_fwd_port :: u16
  le_start_slot :: u64

definition entry_EMPTY :: leader_entry where
  "entry_EMPTY = \<lparr>le_pubkey = replicate 32 0, tpu_quic_ip = replicate 4 0, tpu_quic_port = 0,
     tpu_quic_fwd_ip = replicate 4 0, tpu_quic_fwd_port = 0, le_start_slot = 0\<rparr>"

text \<open>\<open>Ipv6Addr::to_ipv4_mapped\<close>: the addresses \<open>::ffff:a.b.c.d\<close>.\<close>

definition to_ipv4_mapped :: "u8 list \<Rightarrow> u8 list option" where
  "to_ipv4_mapped ip =
     (if take 12 ip = replicate 10 0 @ [0xff, 0xff] then Some (drop 12 ip) else None)"

fun extract_ipv4 :: "socket_addr \<Rightarrow> u8 list \<times> u16" where
  "extract_ipv4 (V4 ip port) = (ip, port)"
| "extract_ipv4 (V6 ip port) =
     (case to_ipv4_mapped ip of Some ipv4 \<Rightarrow> (ipv4, port) | None \<Rightarrow> (replicate 4 0, port))"

definition entry_new :: "pubkey \<Rightarrow> socket_addr \<Rightarrow> socket_addr \<Rightarrow> leader_entry" where
  "entry_new pubkey tpu_quic tpu_quic_fwd =
     (let (quic_ip, quic_port) = extract_ipv4 tpu_quic;
          (fwd_ip, fwd_port) = extract_ipv4 tpu_quic_fwd
      in \<lparr>le_pubkey = pubkey, tpu_quic_ip = quic_ip, tpu_quic_port = quic_port,
          tpu_quic_fwd_ip = fwd_ip, tpu_quic_fwd_port = fwd_port, le_start_slot = 0\<rparr>)"

definition entry_tpu_quic :: "leader_entry \<Rightarrow> socket_addr" where
  "entry_tpu_quic e = V4 (tpu_quic_ip e) (tpu_quic_port e)"

definition entry_tpu_quic_fwd :: "leader_entry \<Rightarrow> socket_addr" where
  "entry_tpu_quic_fwd e = V4 (tpu_quic_fwd_ip e) (tpu_quic_fwd_port e)"

definition entry_is_valid :: "leader_entry \<Rightarrow> bool" where
  "entry_is_valid e \<longleftrightarrow> tpu_quic_port e \<noteq> 0"

definition entry_end_slot :: "leader_entry \<Rightarrow> u64" where
  "entry_end_slot e = le_start_slot e + 3"

definition set_start_slot :: "u64 \<Rightarrow> leader_entry \<Rightarrow> leader_entry" where
  "set_start_slot slot e = e\<lparr>le_start_slot := slot\<rparr>"

section \<open>The buffer: state and writer\<close>

abbreviation LEADER_BUFFER_SIZE :: nat where "LEADER_BUFFER_SIZE \<equiv> 10"

abbreviation SLOTS_PER_LEADER :: u64 where "SLOTS_PER_LEADER \<equiv> 4"

record leader_buffer =
  lb_version :: u64
  lb_entries :: "leader_entry list"
  lb_current_slot :: u64

definition lb_new :: leader_buffer where
  "lb_new = \<lparr>lb_version = 0, lb_entries = replicate LEADER_BUFFER_SIZE entry_EMPTY, lb_current_slot = 0\<rparr>"

definition lb_begin_write :: "leader_buffer \<Rightarrow> leader_buffer" where
  "lb_begin_write b = b\<lparr>lb_version := lb_version b + 1\<rparr>"

definition lb_end_write :: "leader_buffer \<Rightarrow> leader_buffer" where
  "lb_end_write b = b\<lparr>lb_version := lb_version b + 1\<rparr>"

definition lb_set_current_slot :: "u64 \<Rightarrow> leader_buffer \<Rightarrow> leader_buffer" where
  "lb_set_current_slot slot b = b\<lparr>lb_current_slot := slot\<rparr>"

text \<open>
  The memory accesses of the writer, in the order of the code: the two increments of the version, a
  store of an entry, a copy of one entry to another position, a store of the first slot of an entry
  and the store of the current slot. An operation of the writer is the list of its accesses. The copy
  of overlapping slices by \<open>copy_within\<close> goes upwards, towards lower positions.
\<close>

datatype lb_access =
    Begin_Write
  | Store_Entry nat leader_entry
  | Move_Entry nat nat
  | Set_Start nat u64
  | Store_Slot u64
  | End_Write

fun lb_access_exec :: "lb_access \<Rightarrow> leader_buffer \<Rightarrow> leader_buffer" where
  "lb_access_exec Begin_Write b = lb_begin_write b"
| "lb_access_exec (Store_Entry i e) b = b\<lparr>lb_entries := (lb_entries b)[i := e]\<rparr>"
| "lb_access_exec (Move_Entry dst src) b = b\<lparr>lb_entries := (lb_entries b)[dst := lb_entries b ! src]\<rparr>"
| "lb_access_exec (Set_Start i slot) b = b\<lparr>lb_entries := (lb_entries b)[i := set_start_slot slot (lb_entries b ! i)]\<rparr>"
| "lb_access_exec (Store_Slot slot) b = lb_set_current_slot slot b"
| "lb_access_exec End_Write b = lb_end_write b"

definition lb_exec :: "lb_access list \<Rightarrow> leader_buffer \<Rightarrow> leader_buffer" where
  "lb_exec as b = fold lb_access_exec as b"

definition copy_in :: "nat \<Rightarrow> leader_entry list \<Rightarrow> lb_access list" where
  "copy_in p new = map (\<lambda>i. Store_Entry i (new ! (i - p))) [p..<p + length new]"

definition clear_from :: "nat \<Rightarrow> lb_access list" where
  "clear_from p = map (\<lambda>i. Store_Entry i entry_EMPTY) [p..<LEADER_BUFFER_SIZE]"

definition number_from :: "u64 \<Rightarrow> nat \<Rightarrow> lb_access list" where
  "number_from base_slot k =
     map (\<lambda>i. Set_Start i (base_slot + of_nat i * SLOTS_PER_LEADER)) [k..<LEADER_BUFFER_SIZE]"

definition shift_left :: "nat \<Rightarrow> lb_access list" where
  "shift_left n = map (\<lambda>i. Move_Entry i (i + n)) [0..<LEADER_BUFFER_SIZE - n]"

definition lb_update_accesses :: "u64 \<Rightarrow> leader_entry list \<Rightarrow> lb_access list" where
  "lb_update_accesses new_slot new_entries =
     (let base_slot = new_slot div SLOTS_PER_LEADER * SLOTS_PER_LEADER;
          copy_len = min (length new_entries) LEADER_BUFFER_SIZE
      in [Begin_Write] @ copy_in 0 (take copy_len new_entries) @ clear_from copy_len @
         number_from base_slot 0 @ [Store_Slot new_slot, End_Write])"

definition lb_update :: "u64 \<Rightarrow> leader_entry list \<Rightarrow> leader_buffer \<Rightarrow> leader_buffer" where
  "lb_update new_slot new_entries b = lb_exec (lb_update_accesses new_slot new_entries) b"

definition lb_shift_and_append_accesses :: "leader_entry \<Rightarrow> u64 \<Rightarrow> lb_access list" where
  "lb_shift_and_append_accesses new_leader new_slot =
     (let base_slot = new_slot div SLOTS_PER_LEADER * SLOTS_PER_LEADER;
          new_leader = set_start_slot (base_slot + of_nat (LEADER_BUFFER_SIZE - 1) * SLOTS_PER_LEADER) new_leader
      in [Begin_Write] @ shift_left 1 @ [Store_Entry (LEADER_BUFFER_SIZE - 1) new_leader,
         Store_Slot new_slot, End_Write])"

definition lb_shift_and_append :: "leader_entry \<Rightarrow> u64 \<Rightarrow> leader_buffer \<Rightarrow> leader_buffer" where
  "lb_shift_and_append new_leader new_slot b = lb_exec (lb_shift_and_append_accesses new_leader new_slot) b"

definition lb_shift_multiple_accesses :: "usize \<Rightarrow> leader_entry list \<Rightarrow> u64 \<Rightarrow> lb_access list" where
  "lb_shift_multiple_accesses count new_leaders new_slot =
     (if count = 0 then []
      else
        let base_slot = new_slot div SLOTS_PER_LEADER * SLOTS_PER_LEADER
        in [Begin_Write] @
           (if of_nat LEADER_BUFFER_SIZE \<le> count then
              let copy_len = min (length new_leaders) LEADER_BUFFER_SIZE
              in copy_in 0 (take copy_len new_leaders) @ clear_from copy_len @ number_from base_slot 0
            else
              let n = unat count;
                  start_pos = LEADER_BUFFER_SIZE - n;
                  new_count = min (length new_leaders) n
              in shift_left n @ copy_in start_pos (take new_count new_leaders) @
                 clear_from (start_pos + new_count) @ number_from base_slot start_pos) @
           [Store_Slot new_slot, End_Write])"

definition lb_shift_multiple :: "usize \<Rightarrow> leader_entry list \<Rightarrow> u64 \<Rightarrow> leader_buffer \<Rightarrow> leader_buffer" where
  "lb_shift_multiple count new_leaders new_slot b = lb_exec (lb_shift_multiple_accesses count new_leaders new_slot) b"

section \<open>Readers\<close>

text \<open>
  The copy of the entry at a position: field \<open>k\<close> is taken from the buffer \<open>ob k\<close>. An access
  out of bounds panics.
\<close>

definition torn_entry :: "nat \<Rightarrow> (nat \<Rightarrow> leader_buffer) \<Rightarrow> leader_entry" where
  "torn_entry position ob =
     (let at = (\<lambda>k. lb_entries (ob k) ! position)
      in \<lparr>le_pubkey = le_pubkey (at 0), tpu_quic_ip = tpu_quic_ip (at 1),
          tpu_quic_port = tpu_quic_port (at 2), tpu_quic_fwd_ip = tpu_quic_fwd_ip (at 3),
          tpu_quic_fwd_port = tpu_quic_fwd_port (at 4), le_start_slot = le_start_slot (at 5)\<rparr>)"

definition lb_try_read ::
  "nat \<Rightarrow> leader_buffer \<Rightarrow> (nat \<Rightarrow> leader_buffer) \<Rightarrow> leader_buffer \<Rightarrow> leader_entry option run" where
  "lb_try_read position b1 ob b2 =
     (let v1 = lb_version b1 in
      if v1 AND 1 = 1 then Done None
      else if LEADER_BUFFER_SIZE \<le> position then Panicked
      else
        let entry = torn_entry position ob;
            v2 = lb_version b2
        in if v1 \<noteq> v2 then Done None else Done (Some entry))"

fun lb_read ::
  "nat \<Rightarrow> (leader_buffer \<times> (nat \<Rightarrow> leader_buffer) \<times> leader_buffer) list \<Rightarrow> leader_entry run" where
  "lb_read position [] = Blocked"
| "lb_read position ((b1, ob, b2) # obs) =
     run_bind (lb_try_read position b1 ob b2)
       (\<lambda>r. case r of Some entry \<Rightarrow> Done entry | None \<Rightarrow> lb_read position obs)"

definition lb_try_read_all ::
  "leader_buffer \<Rightarrow> (nat \<Rightarrow> nat \<Rightarrow> leader_buffer) \<Rightarrow> leader_buffer \<Rightarrow> leader_entry list option" where
  "lb_try_read_all b1 ob b2 =
     (let v1 = lb_version b1 in
      if v1 AND 1 = 1 then None
      else
        let entries = map (\<lambda>i. torn_entry i (ob i)) [0..<LEADER_BUFFER_SIZE];
            v2 = lb_version b2
        in if v1 \<noteq> v2 then None else Some entries)"

fun lb_read_all ::
  "(leader_buffer \<times> (nat \<Rightarrow> nat \<Rightarrow> leader_buffer) \<times> leader_buffer) list \<Rightarrow> leader_entry list run" where
  "lb_read_all [] = Blocked"
| "lb_read_all ((b1, ob, b2) # obs) =
     (case lb_try_read_all b1 ob b2 of Some entries \<Rightarrow> Done entries | None \<Rightarrow> lb_read_all obs)"

type_synonym lb_obs = "(leader_buffer \<times> (nat \<Rightarrow> leader_buffer) \<times> leader_buffer) list"

definition lookup_get_leader :: "nat \<Rightarrow> lb_obs \<Rightarrow> (socket_addr \<times> socket_addr) option run" where
  "lookup_get_leader index obs =
     (if LEADER_BUFFER_SIZE \<le> index then Done None
      else run_bind (lb_read index obs) (\<lambda>entry.
        if entry_is_valid entry then Done (Some (entry_tpu_quic entry, entry_tpu_quic_fwd entry))
        else Done None))"

definition lookup_is_valid :: "nat \<Rightarrow> lb_obs \<Rightarrow> bool run" where
  "lookup_is_valid index obs =
     (if LEADER_BUFFER_SIZE \<le> index then Done False
      else run_bind (lb_read index obs) (\<lambda>entry. Done (entry_is_valid entry)))"

definition lookup_get_leader_slots :: "nat \<Rightarrow> lb_obs \<Rightarrow> (u64 \<times> u64) option run" where
  "lookup_get_leader_slots index obs =
     (if LEADER_BUFFER_SIZE \<le> index then Done None
      else run_bind (lb_read index obs) (\<lambda>entry.
        Done (Some (le_start_slot entry, entry_end_slot entry))))"

section \<open>The writer's operations, entry by entry\<close>

lemma lb_exec_Nil [simp]: "lb_exec [] b = b"
  by (simp add: lb_exec_def)

lemma lb_exec_Cons [simp]: "lb_exec (a # as) b = lb_exec as (lb_access_exec a b)"
  by (simp add: lb_exec_def)

lemma lb_exec_append [simp]: "lb_exec (as @ as') b = lb_exec as' (lb_exec as b)"
  by (simp add: lb_exec_def)

text \<open>A block of accesses that changes the entries \<open>p\<close> up to \<open>q\<close>, each on its own.\<close>

lemma lb_exec_block:
  assumes "\<And>i b. lb_access_exec (A i) b = b\<lparr>lb_entries := (lb_entries b)[i := f i (lb_entries b ! i)]\<rparr>"
    and "q \<le> length (lb_entries b)"
  shows "lb_exec (map A [p..<q]) b = b\<lparr>lb_entries :=
    map (\<lambda>j. if p \<le> j \<and> j < q then f j (lb_entries b ! j) else lb_entries b ! j) [0..<length (lb_entries b)]\<rparr>"
  using assms(2)
proof (induction q)
  case 0
  have "map (\<lambda>j. lb_entries b ! j) [0..<length (lb_entries b)] = lb_entries b" by (rule map_nth)
  then show ?case by simp
next
  case (Suc q)
  show ?case
  proof (cases "p \<le> q")
    case True
    have "(map (\<lambda>j. if p \<le> j \<and> j < q then f j (lb_entries b ! j) else lb_entries b ! j) [0..<length (lb_entries b)])
        [q := f q (lb_entries b ! q)] =
      map (\<lambda>j. if p \<le> j \<and> j < Suc q then f j (lb_entries b ! j) else lb_entries b ! j) [0..<length (lb_entries b)]"
      using True by (intro nth_equalityI) (auto simp: nth_list_update less_Suc_eq)
    with Suc True show ?thesis by (simp add: assms(1))
  next
    case False
    then have "map (\<lambda>j. if p \<le> j \<and> j < Suc q then f j (lb_entries b ! j) else lb_entries b ! j) [0..<length (lb_entries b)] =
        map (\<lambda>j. lb_entries b ! j) [0..<length (lb_entries b)]" by (intro map_cong) auto
    then show ?thesis using False by (simp add: map_nth)
  qed
qed

lemma lb_exec_blocks:
  "p + length new \<le> length (lb_entries b) \<Longrightarrow> lb_exec (copy_in p new) b = b\<lparr>lb_entries :=
     map (\<lambda>j. if p \<le> j \<and> j < p + length new then new ! (j - p) else lb_entries b ! j) [0..<length (lb_entries b)]\<rparr>"
  "LEADER_BUFFER_SIZE \<le> length (lb_entries b) \<Longrightarrow> lb_exec (clear_from p) b = b\<lparr>lb_entries :=
     map (\<lambda>j. if p \<le> j \<and> j < LEADER_BUFFER_SIZE then entry_EMPTY else lb_entries b ! j) [0..<length (lb_entries b)]\<rparr>"
  "LEADER_BUFFER_SIZE \<le> length (lb_entries b) \<Longrightarrow> lb_exec (number_from base p) b = b\<lparr>lb_entries :=
     map (\<lambda>j. if p \<le> j \<and> j < LEADER_BUFFER_SIZE then set_start_slot (base + of_nat j * SLOTS_PER_LEADER) (lb_entries b ! j)
       else lb_entries b ! j) [0..<length (lb_entries b)]\<rparr>"
  unfolding copy_in_def clear_from_def number_from_def by (subst lb_exec_block; simp)+

lemma lb_exec_shift_left:
  assumes "n \<le> LEADER_BUFFER_SIZE" "length (lb_entries b) = LEADER_BUFFER_SIZE"
  shows "lb_exec (shift_left n) b = b\<lparr>lb_entries :=
    map (\<lambda>j. if j < LEADER_BUFFER_SIZE - n then lb_entries b ! (j + n) else lb_entries b ! j) [0..<LEADER_BUFFER_SIZE]\<rparr>"
proof -
  have "lb_exec (map (\<lambda>i. Move_Entry i (i + n)) [0..<m]) b = b\<lparr>lb_entries :=
      map (\<lambda>j. if j < m then lb_entries b ! (j + n) else lb_entries b ! j) [0..<length (lb_entries b)]\<rparr>"
    if "m + n \<le> length (lb_entries b)" for m
    using that
  proof (induction m)
    case 0
    have "map (\<lambda>j. lb_entries b ! j) [0..<length (lb_entries b)] = lb_entries b" by (rule map_nth)
    then show ?case by simp
  next
    case (Suc m)
    have "(map (\<lambda>j. if j < m then lb_entries b ! (j + n) else lb_entries b ! j) [0..<length (lb_entries b)])
        [m := lb_entries b ! (m + n)] =
      map (\<lambda>j. if j < Suc m then lb_entries b ! (j + n) else lb_entries b ! j) [0..<length (lb_entries b)]"
      by (intro nth_equalityI) (auto simp: nth_list_update less_Suc_eq)
    with Suc show ?case by simp
  qed
  from this [of "LEADER_BUFFER_SIZE - n"] assms show ?thesis by (simp add: shift_left_def)
qed

lemma lb_begin_write_sel [simp]:
  "lb_entries (lb_begin_write b) = lb_entries b" "lb_current_slot (lb_begin_write b) = lb_current_slot b"
  "lb_version (lb_begin_write b) = lb_version b + 1"
  by (simp_all add: lb_begin_write_def)

lemma lb_end_write_sel [simp]:
  "lb_entries (lb_end_write b) = lb_entries b" "lb_current_slot (lb_end_write b) = lb_current_slot b"
  "lb_version (lb_end_write b) = lb_version b + 1"
  by (simp_all add: lb_end_write_def)

lemma lb_set_current_slot_sel [simp]:
  "lb_entries (lb_set_current_slot slot b) = lb_entries b" "lb_current_slot (lb_set_current_slot slot b) = slot"
  "lb_version (lb_set_current_slot slot b) = lb_version b"
  by (simp_all add: lb_set_current_slot_def)

definition leader_or_empty :: "leader_entry list \<Rightarrow> nat \<Rightarrow> leader_entry" where
  "leader_or_empty es i = (if i < length es then es ! i else entry_EMPTY)"

definition lb_wf :: "leader_buffer \<Rightarrow> bool" where
  "lb_wf b \<longleftrightarrow> length (lb_entries b) = LEADER_BUFFER_SIZE \<and> \<not> lb_version b AND 1 = 1"

definition base_of :: "u64 \<Rightarrow> u64" where
  "base_of slot = slot div SLOTS_PER_LEADER * SLOTS_PER_LEADER"

definition lb_aligned :: "leader_buffer \<Rightarrow> bool" where
  "lb_aligned b \<longleftrightarrow> (\<forall>i < LEADER_BUFFER_SIZE.
     le_start_slot (lb_entries b ! i) = base_of (lb_current_slot b) + of_nat i * SLOTS_PER_LEADER)"

lemma start_set_start_slot [simp]: "le_start_slot (set_start_slot s e) = s"
  by (simp add: set_start_slot_def)

text \<open>The buffer as a sequence lock; each writer operation is one update of the lock.\<close>

definition lb_lock :: "leader_buffer \<Rightarrow> leader_entry seq_lock" where
  "lb_lock b = \<lparr>sl_version = lb_version b, sl_data = lb_entries b\<rparr>"

lemma lb_wf_version: "lb_wf b \<Longrightarrow> \<not> (2 + lb_version b) AND 1 = 1"
  using and_one_add_two [of "lb_version b"] by (simp add: lb_wf_def add.commute)

lemma lb_update_entries:
  assumes "length (lb_entries b) = LEADER_BUFFER_SIZE"
  shows "lb_entries (lb_update slot new b) =
      map (\<lambda>i. set_start_slot (base_of slot + of_nat i * SLOTS_PER_LEADER) (leader_or_empty new i)) [0..<LEADER_BUFFER_SIZE]"
    and "lb_version (lb_update slot new b) = 2 + lb_version b" "lb_current_slot (lb_update slot new b) = slot"
  using assms
  by (auto simp: lb_update_def lb_update_accesses_def Let_def lb_exec_blocks base_of_def leader_or_empty_def
      simp del: upt_rec_numeral)

lemma lb_update_spec:
  assumes "lb_wf b"
  shows "lb_wf (lb_update slot new b)" "lb_current_slot (lb_update slot new b) = slot"
    "i < LEADER_BUFFER_SIZE \<Longrightarrow> lb_entries (lb_update slot new b) ! i =
       set_start_slot (base_of slot + of_nat i * SLOTS_PER_LEADER) (leader_or_empty new i)"
proof -
  note v = lb_wf_version [OF assms]
  have "length (lb_entries b) = LEADER_BUFFER_SIZE" using assms by (simp add: lb_wf_def)
  note e = lb_update_entries [OF this, of slot new]
  show "lb_wf (lb_update slot new b)" "lb_current_slot (lb_update slot new b) = slot"
    using v by (simp_all add: lb_wf_def e del: upt_rec_numeral)
  show "lb_entries (lb_update slot new b) ! i =
       set_start_slot (base_of slot + of_nat i * SLOTS_PER_LEADER) (leader_or_empty new i)"
    if "i < LEADER_BUFFER_SIZE"
    using that by (simp add: e del: upt_rec_numeral)
qed

lemma lb_shift_multiple_entries:
  assumes "length (lb_entries b) = LEADER_BUFFER_SIZE" "0 < n" "n < LEADER_BUFFER_SIZE" "count = of_nat n"
  shows "lb_entries (lb_shift_multiple count new slot b) =
      map (\<lambda>i. if i < LEADER_BUFFER_SIZE - n then lb_entries b ! (i + n)
        else set_start_slot (base_of slot + of_nat i * SLOTS_PER_LEADER)
          (leader_or_empty (take n new) (i - (LEADER_BUFFER_SIZE - n)))) [0..<LEADER_BUFFER_SIZE]"
    and "lb_version (lb_shift_multiple count new slot b) = 2 + lb_version b"
    and "lb_current_slot (lb_shift_multiple count new slot b) = slot"
proof -
  have u: "unat count = n" unfolding assms(4) using assms(3) by (simp add: unat_of_nat)
  have c: "count \<noteq> 0" "\<not> 10 \<le> count"
    using u assms(2,3) by (auto simp: word_le_nat_alt)
  have sum: "10 - n + min (length new) n \<le> 10" using assms(3) by simp
  show "lb_entries (lb_shift_multiple count new slot b) =
      map (\<lambda>i. if i < LEADER_BUFFER_SIZE - n then lb_entries b ! (i + n)
        else set_start_slot (base_of slot + of_nat i * SLOTS_PER_LEADER)
          (leader_or_empty (take n new) (i - (LEADER_BUFFER_SIZE - n)))) [0..<LEADER_BUFFER_SIZE]"
    using assms c u sum
    by (simp add: lb_shift_multiple_def lb_shift_multiple_accesses_def Let_def lb_exec_blocks lb_exec_shift_left
        base_of_def leader_or_empty_def del: upt_rec_numeral)
      (auto simp: min_def)
  show "lb_version (lb_shift_multiple count new slot b) = 2 + lb_version b"
    "lb_current_slot (lb_shift_multiple count new slot b) = slot"
    using assms c u sum
    by (simp_all add: lb_shift_multiple_def lb_shift_multiple_accesses_def Let_def lb_exec_blocks lb_exec_shift_left
        del: upt_rec_numeral)
qed

lemma lb_shift_multiple_spec:
  assumes "lb_wf b" "0 < n" "n < LEADER_BUFFER_SIZE" "count = of_nat n"
  shows "lb_wf (lb_shift_multiple count new slot b)"
    "lb_current_slot (lb_shift_multiple count new slot b) = slot"
    "i < LEADER_BUFFER_SIZE - n \<Longrightarrow> lb_entries (lb_shift_multiple count new slot b) ! i = lb_entries b ! (i + n)"
    "LEADER_BUFFER_SIZE - n \<le> i \<Longrightarrow> i < LEADER_BUFFER_SIZE \<Longrightarrow>
       lb_entries (lb_shift_multiple count new slot b) ! i =
         set_start_slot (base_of slot + of_nat i * SLOTS_PER_LEADER)
           (leader_or_empty (take n new) (i - (LEADER_BUFFER_SIZE - n)))"
proof -
  have "length (lb_entries b) = LEADER_BUFFER_SIZE" using assms(1) by (simp add: lb_wf_def)
  note e = lb_shift_multiple_entries [OF this assms(2-4), of new slot]
  show "lb_wf (lb_shift_multiple count new slot b)" "lb_current_slot (lb_shift_multiple count new slot b) = slot"
    using lb_wf_version [OF assms(1)] by (simp_all add: lb_wf_def e del: upt_rec_numeral)
  show "lb_entries (lb_shift_multiple count new slot b) ! i = lb_entries b ! (i + n)"
    if "i < LEADER_BUFFER_SIZE - n"
    using that by (simp add: e del: upt_rec_numeral)
  show "lb_entries (lb_shift_multiple count new slot b) ! i =
         set_start_slot (base_of slot + of_nat i * SLOTS_PER_LEADER)
           (leader_or_empty (take n new) (i - (LEADER_BUFFER_SIZE - n)))"
    if "LEADER_BUFFER_SIZE - n \<le> i" "i < LEADER_BUFFER_SIZE"
    using that by (simp add: e del: upt_rec_numeral)
qed

lemma lb_shift_multiple_zero: "lb_shift_multiple 0 new slot b = b"
  by (simp add: lb_shift_multiple_def lb_shift_multiple_accesses_def)

lemma lb_shift_multiple_full:
  "of_nat LEADER_BUFFER_SIZE \<le> count \<Longrightarrow> lb_shift_multiple count new slot b = lb_update slot new b"
  by (auto simp: lb_shift_multiple_def lb_shift_multiple_accesses_def lb_update_def lb_update_accesses_def Let_def
      word_le_nat_alt)

lemma lb_shift_one:
  assumes "lb_wf b"
  shows "lb_shift_and_append leader slot b = lb_shift_multiple 1 [leader] slot b"
proof -
  have len: "length (lb_entries b) = LEADER_BUFFER_SIZE" using assms by (simp add: lb_wf_def)
  note e = lb_shift_multiple_entries [OF len, of 1 1 "[leader]" slot]
  have last: "i < 10 \<Longrightarrow> \<not> i < 9 \<Longrightarrow> i = 9" for i :: nat by simp
  have "lb_entries (lb_shift_and_append leader slot b) = lb_entries (lb_shift_multiple 1 [leader] slot b)"
    using len
    by (simp add: e lb_shift_and_append_def lb_shift_and_append_accesses_def Let_def lb_exec_shift_left
        base_of_def leader_or_empty_def del: upt_rec_numeral)
      (auto intro!: nth_equalityI simp: nth_list_update base_of_def leader_or_empty_def dest!: last simp del: upt_rec_numeral)
  moreover have "lb_version (lb_shift_and_append leader slot b) = 2 + lb_version b"
    "lb_current_slot (lb_shift_and_append leader slot b) = slot"
    using len by (simp_all add: lb_shift_and_append_def lb_shift_and_append_accesses_def Let_def lb_exec_shift_left
        del: upt_rec_numeral)
  ultimately show ?thesis using e by simp
qed

lemma lb_aligned_update: "lb_wf b \<Longrightarrow> lb_aligned (lb_update slot new b)"
  by (simp add: lb_aligned_def lb_update_spec)

lemma lb_aligned_shift:
  assumes "lb_wf b" "lb_aligned b" "0 < n" "n < LEADER_BUFFER_SIZE"
    and "slot div SLOTS_PER_LEADER = lb_current_slot b div SLOTS_PER_LEADER + of_nat n"
  shows "lb_aligned (lb_shift_multiple (of_nat n) new slot b)"
  unfolding lb_aligned_def
proof (intro allI impI)
  fix i :: nat assume i: "i < 10"
  note spec = lb_shift_multiple_spec [OF assms(1,3,4) refl, where new = new and slot = slot]
  have base: "base_of slot = base_of (lb_current_slot b) + of_nat n * 4"
    unfolding base_of_def assms(5) by (simp add: distrib_right)
  show "le_start_slot (lb_entries (lb_shift_multiple (of_nat n) new slot b) ! i) =
      base_of (lb_current_slot (lb_shift_multiple (of_nat n) new slot b)) + of_nat i * 4"
  proof (cases "i < 10 - n")
    case True
    then have "le_start_slot (lb_entries b ! (i + n)) = base_of (lb_current_slot b) + of_nat (i + n) * 4"
      using assms(2) unfolding lb_aligned_def by (simp only: less_diff_conv)
    with True spec base show ?thesis by (simp add: algebra_simps)
  next
    case False
    with i spec show ?thesis by simp
  qed
qed

text \<open>
  C11. The numbering invariant of the leader buffer: entry \<open>i\<close> starts at the first slot of the
  \<open>i\<close>-th leader after the current one. \<open>update\<close> establishes it from any buffer, with the given
  leaders in order and empty entries behind them; \<open>shift_multiple\<close> keeps it when the slot has
  advanced by as many leaders as it is told, moving the other entries down unchanged;
  \<open>shift_and_append\<close> is the shift by one; and no operation changes the size or leaves the version odd.
\<close>

theorem leader_buffer_numbering:
  assumes "lb_wf b"
  shows "lb_wf (lb_update slot new b) \<and> lb_aligned (lb_update slot new b) \<and>
    (\<forall>i < LEADER_BUFFER_SIZE. lb_entries (lb_update slot new b) ! i =
       set_start_slot (base_of slot + of_nat i * SLOTS_PER_LEADER) (leader_or_empty new i)) \<and>
    (0 < n \<and> n < LEADER_BUFFER_SIZE \<and> lb_aligned b \<and>
     slot div SLOTS_PER_LEADER = lb_current_slot b div SLOTS_PER_LEADER + of_nat n \<longrightarrow>
       lb_wf (lb_shift_multiple (of_nat n) new slot b) \<and>
       lb_aligned (lb_shift_multiple (of_nat n) new slot b) \<and>
       (\<forall>i < LEADER_BUFFER_SIZE - n.
          lb_entries (lb_shift_multiple (of_nat n) new slot b) ! i = lb_entries b ! (i + n))) \<and>
    lb_shift_and_append leader slot b = lb_shift_multiple 1 [leader] slot b"
proof (intro conjI impI allI)
  assume a: "0 < n \<and> n < LEADER_BUFFER_SIZE \<and> lb_aligned b \<and>
     slot div SLOTS_PER_LEADER = lb_current_slot b div SLOTS_PER_LEADER + of_nat n"
  then have n: "0 < n" "n < LEADER_BUFFER_SIZE" by blast+
  show "lb_wf (lb_shift_multiple (of_nat n) new slot b)"
    by (rule lb_shift_multiple_spec(1) [OF assms n refl])
  show "lb_aligned (lb_shift_multiple (of_nat n) new slot b)"
    using a assms by (intro lb_aligned_shift) blast+
  show "lb_entries (lb_shift_multiple (of_nat n) new slot b) ! i = lb_entries b ! (i + n)"
    if "i < LEADER_BUFFER_SIZE - n" for i
    by (rule lb_shift_multiple_spec(3) [OF assms n refl that])
qed (use assms in \<open>simp_all add: lb_update_spec lb_aligned_update lb_shift_one\<close>)

lemma lb_wf_new: "lb_wf lb_new"
  by (simp add: lb_wf_def lb_new_def)

theorem leader_buffer_numbering_witness:
  "lb_aligned (lb_shift_multiple 2 [] 1009 (lb_update 1001 [entry_EMPTY] lb_new))"
proof -
  let ?b = "lb_update 1001 [entry_EMPTY] lb_new"
  have wf: "lb_wf ?b" "lb_aligned ?b"
    using leader_buffer_numbering [OF lb_wf_new, of 1001 "[entry_EMPTY]" 1 entry_EMPTY] by blast+
  have slot: "(1009 :: u64) div 4 = lb_current_slot ?b div 4 + of_nat 2"
    by (simp add: lb_update_spec(2) [OF lb_wf_new])
  show ?thesis
    using leader_buffer_numbering [OF wf(1), of 1009 "[]" 2 entry_EMPTY] wf(2) slot by simp
qed

section \<open>Readers of the buffer\<close>

text \<open>The buffer over time, its lock an execution of the writer's accesses.\<close>

definition lb_run :: "leader_entry list \<Rightarrow> (nat \<Rightarrow> leader_entry sl_state) \<Rightarrow> (nat \<Rightarrow> leader_buffer) \<Rightarrow> bool" where
  "lb_run d \<sigma> \<beta> \<longleftrightarrow> sl_run d \<sigma> \<and> (\<forall>t. lb_lock (\<beta> t) = sl_lock (\<sigma> t))"

text \<open>A reader's attempt: the version at time \<open>a\<close>, field \<open>k\<close> at time \<open>ts k\<close>, the version at time \<open>b\<close>.\<close>

definition lb_attempt ::
  "(nat \<Rightarrow> leader_entry sl_state) \<Rightarrow> (nat \<Rightarrow> leader_buffer) \<Rightarrow>
   leader_buffer \<times> (nat \<Rightarrow> leader_buffer) \<times> leader_buffer \<Rightarrow> bool" where
  "lb_attempt \<sigma> \<beta> att \<longleftrightarrow>
     (\<exists>a ts b. att = (\<beta> a, (\<lambda>k. \<beta> (ts k)), \<beta> b) \<and> (\<forall>k. a \<le> ts k \<and> ts k \<le> b) \<and> sl_incs (\<sigma> b) < 2 ^ 64)"

lemma torn_entry_same: "\<forall>k. lb_entries (ob k) = es \<Longrightarrow> torn_entry i ob = es ! i"
  by (simp add: torn_entry_def)

lemma lb_try_read_consistent:
  assumes run: "lb_run d \<sigma> \<beta>" and at: "lb_attempt \<sigma> \<beta> (b1, ob, b2)"
    and read: "lb_try_read i b1 ob b2 = Done (Some e)"
  shows "\<exists>a. \<not> sl_writing (\<sigma> a) \<and> i < LEADER_BUFFER_SIZE \<and> e = lb_entries (\<beta> a) ! i"
proof -
  obtain a ts b where ob: "b1 = \<beta> a" "ob = (\<lambda>k. \<beta> (ts k))" "b2 = \<beta> b"
    and mid: "\<And>k. a \<le> ts k \<and> ts k \<le> b" and small: "sl_incs (\<sigma> b) < 2 ^ 64"
    using at unfolding lb_attempt_def by blast
  have l: "sl_run d \<sigma>" "\<And>t. lb_lock (\<beta> t) = sl_lock (\<sigma> t)" using run by (auto simp: lb_run_def)
  have ver: "\<And>t. lb_version (\<beta> t) = sl_version (sl_lock (\<sigma> t))"
    and ent: "\<And>t. lb_entries (\<beta> t) = sl_data (sl_lock (\<sigma> t))"
    by (simp_all add: lb_lock_def flip: l(2))
  have v: "\<not> lb_version (\<beta> a) AND 1 = 1" "lb_version (\<beta> a) = lb_version (\<beta> b)"
    and e: "i < LEADER_BUFFER_SIZE" "e = torn_entry i ob"
    using read by (auto simp: lb_try_read_def Let_def ob split: if_splits)
  have ord: "a \<le> b" using mid le_trans by blast
  note quiet = sl_accept_quiet [OF l(1) ord small v [unfolded ver]]
  have "torn_entry i ob = lb_entries (\<beta> a) ! i"
  proof (rule torn_entry_same, rule allI)
    fix k
    have "\<sigma> (ts k) = \<sigma> a" using mid [of k] by (intro conjunct2 [OF quiet, rule_format]) blast+
    then show "lb_entries (ob k) = lb_entries (\<beta> a)" unfolding ob ent by simp
  qed
  with e conjunct1 [OF quiet] show ?thesis by blast
qed

lemma lb_read_Done:
  "lb_read i obs = Done e \<Longrightarrow> \<exists>(b1, ob, b2) \<in> set obs. lb_try_read i b1 ob b2 = Done (Some e)"
  by (induction i obs rule: lb_read.induct) (auto simp: run_bind_eq_Done split: option.splits)

lemma lb_read_consistent:
  assumes "lb_run d \<sigma> \<beta>" "\<forall>att \<in> set obs. lb_attempt \<sigma> \<beta> att" "lb_read i obs = Done e"
  shows "\<exists>a. \<not> sl_writing (\<sigma> a) \<and> i < LEADER_BUFFER_SIZE \<and> e = lb_entries (\<beta> a) ! i"
proof -
  obtain b1 ob b2 where "(b1, ob, b2) \<in> set obs" "lb_try_read i b1 ob b2 = Done (Some e)"
    using lb_read_Done [OF assms(3)] by auto
  then show ?thesis using lb_try_read_consistent [OF assms(1)] assms(2) by meson
qed

text \<open>
  C14. Concurrent lookups are consistent: whatever the interleaving with the writer's accesses,
  the two addresses that \<open>get_leader\<close> returns are those of one valid entry of the buffer at an
  instant without a write in progress, the range that \<open>get_leader_slots\<close> returns is the range of
  four slots of such an entry, and an index outside the buffer is answered without a read.
\<close>

theorem leader_lookup_consistent:
  assumes "lb_run d \<sigma> \<beta>" "\<forall>att \<in> set obs. lb_attempt \<sigma> \<beta> att"
  shows "(lookup_get_leader i obs = Done (Some (q, f)) \<longrightarrow>
      (\<exists>a. \<not> sl_writing (\<sigma> a) \<and> i < LEADER_BUFFER_SIZE \<and> entry_is_valid (lb_entries (\<beta> a) ! i) \<and>
        q = entry_tpu_quic (lb_entries (\<beta> a) ! i) \<and> f = entry_tpu_quic_fwd (lb_entries (\<beta> a) ! i))) \<and>
    (lookup_get_leader_slots i obs = Done (Some (s, e)) \<longrightarrow>
      (\<exists>a. \<not> sl_writing (\<sigma> a) \<and> i < LEADER_BUFFER_SIZE \<and> s = le_start_slot (lb_entries (\<beta> a) ! i) \<and> e = s + 3)) \<and>
    (LEADER_BUFFER_SIZE \<le> i \<longrightarrow>
      lookup_get_leader i obs = Done None \<and> lookup_get_leader_slots i obs = Done None \<and> lookup_is_valid i obs = Done False)"
proof (intro conjI impI)
  assume "lookup_get_leader i obs = Done (Some (q, f))"
  then obtain e where e: "lb_read i obs = Done e" "entry_is_valid e" "q = entry_tpu_quic e" "f = entry_tpu_quic_fwd e"
    by (auto simp: lookup_get_leader_def run_bind_eq_Done split: if_splits)
  from lb_read_consistent [OF assms e(1)] e(2-4)
  show "\<exists>a. \<not> sl_writing (\<sigma> a) \<and> i < LEADER_BUFFER_SIZE \<and> entry_is_valid (lb_entries (\<beta> a) ! i) \<and>
      q = entry_tpu_quic (lb_entries (\<beta> a) ! i) \<and> f = entry_tpu_quic_fwd (lb_entries (\<beta> a) ! i)" by blast
next
  assume "lookup_get_leader_slots i obs = Done (Some (s, e))"
  then obtain en where en: "lb_read i obs = Done en" "s = le_start_slot en" "e = s + 3"
    by (auto simp: lookup_get_leader_slots_def run_bind_eq_Done entry_end_slot_def split: if_splits)
  from lb_read_consistent [OF assms en(1)] en(2,3)
  show "\<exists>a. \<not> sl_writing (\<sigma> a) \<and> i < LEADER_BUFFER_SIZE \<and> s = le_start_slot (lb_entries (\<beta> a) ! i) \<and> e = s + 3"
    by blast
qed (simp_all add: lookup_get_leader_def lookup_get_leader_slots_def lookup_is_valid_def)

definition demo_entry :: leader_entry where
  "demo_entry = entry_new (replicate 32 7) (V4 [10, 0, 0, 1] 8009) (V4 [10, 0, 0, 2] 8010)"

definition lb_demo :: leader_buffer where
  "lb_demo = \<lparr>lb_version = 0, lb_entries = replicate 10 demo_entry, lb_current_slot = 0\<rparr>"

theorem leader_lookup_consistent_witness:
  "entry_is_valid (lb_entries lb_demo ! 3) \<and>
   V4 [10, 0, 0, 1] 8009 = entry_tpu_quic (lb_entries lb_demo ! 3)"
proof -
  let ?\<sigma> = "\<lambda>t :: nat. sl_init (replicate 10 demo_entry)"
  have run: "lb_run (replicate 10 demo_entry) ?\<sigma> (\<lambda>_. lb_demo)"
    by (simp add: lb_run_def sl_run_def lb_demo_def lb_lock_def sl_init_def seqlock_new_def)
  have at: "\<forall>att \<in> set [(lb_demo, \<lambda>_. lb_demo, lb_demo)]. lb_attempt ?\<sigma> (\<lambda>_. lb_demo) att"
    by (auto simp: lb_attempt_def sl_init_def intro!: exI [of _ "0 :: nat"] exI [of _ "\<lambda>_. 0 :: nat"])
  have "lookup_get_leader 3 [(lb_demo, \<lambda>_. lb_demo, lb_demo)] =
      Done (Some (V4 [10, 0, 0, 1] 8009, V4 [10, 0, 0, 2] 8010))"
    by (simp add: lookup_get_leader_def lb_try_read_def torn_entry_def lb_demo_def demo_entry_def
        entry_new_def entry_is_valid_def entry_tpu_quic_def entry_tpu_quic_fwd_def)
  with conjunct1 [OF leader_lookup_consistent [OF run at, of 3 "V4 [10, 0, 0, 1] 8009" "V4 [10, 0, 0, 2] 8010" 0 0]]
  show ?thesis by blast
qed

section \<open>The protocol of the writer\<close>

text \<open>
  Which sequences of accesses keep the protocol of the lock: \<open>w\<close> tells whether a write is in
  progress. Entries are stored only during a write, and the end finds none in progress.
\<close>

fun lb_protocol :: "bool \<Rightarrow> lb_access list \<Rightarrow> bool" where
  "lb_protocol w [] \<longleftrightarrow> \<not> w"
| "lb_protocol w (Begin_Write # as) \<longleftrightarrow> \<not> w \<and> lb_protocol True as"
| "lb_protocol w (Store_Entry i e # as) \<longleftrightarrow> w \<and> i < LEADER_BUFFER_SIZE \<and> lb_protocol w as"
| "lb_protocol w (Move_Entry dst src # as) \<longleftrightarrow> w \<and> dst < LEADER_BUFFER_SIZE \<and> lb_protocol w as"
| "lb_protocol w (Set_Start i slot # as) \<longleftrightarrow> w \<and> i < LEADER_BUFFER_SIZE \<and> lb_protocol w as"
| "lb_protocol w (Store_Slot slot # as) \<longleftrightarrow> lb_protocol w as"
| "lb_protocol w (End_Write # as) \<longleftrightarrow> w \<and> lb_protocol False as"

text \<open>One access, seen by the lock.\<close>

lemma lb_access_step:
  assumes "lb_protocol w (a # as)" "sl_lock s = lb_lock b" "sl_writing s = w" "length (lb_entries b) = LEADER_BUFFER_SIZE"
  shows "\<exists>s'. (s' = s \<or> sl_step s s') \<and> sl_lock s' = lb_lock (lb_access_exec a b) \<and>
    lb_protocol (sl_writing s') as \<and> length (lb_entries (lb_access_exec a b)) = LEADER_BUFFER_SIZE \<and>
    sl_committed s' = (if a = End_Write then lb_entries b # sl_committed s else sl_committed s)"
proof -
  have lock: "version_increment (lb_lock b) = lb_lock (lb_begin_write b)" "lb_lock (lb_end_write b) = lb_lock (lb_begin_write b)"
    "sl_data (lb_lock b) = lb_entries b"
    by (simp_all add: lb_lock_def version_increment_def)
  have store: "\<exists>s'. sl_step s s' \<and> sl_lock s' = lb_lock (b\<lparr>lb_entries := (lb_entries b)[i := x]\<rparr>) \<and>
      sl_writing s' = w \<and> sl_committed s' = sl_committed s" if "w" "i < LEADER_BUFFER_SIZE" for i x
  proof -
    have "sl_step s (s\<lparr>sl_lock := (sl_lock s)\<lparr>sl_data := (sl_data (sl_lock s))[i := x]\<rparr>\<rparr>)"
      using that assms(2-4) lock(3) by (intro sl_step.w_store) simp_all
    then show ?thesis by (intro exI conjI) (assumption, simp_all add: assms(2,3) lb_lock_def)
  qed
  show ?thesis
  proof (cases a)
    case Begin_Write
    then have "sl_step s (s\<lparr>sl_lock := version_increment (sl_lock s), sl_writing := True, sl_incs := Suc (sl_incs s)\<rparr>)"
      (is "sl_step s ?s'") using assms(1,3) by (intro sl_step.w_begin) simp
    then show ?thesis using assms Begin_Write lock by (intro exI [of _ ?s']) simp
  next
    case (Store_Entry i e)
    then show ?thesis using store [of i e] assms by auto
  next
    case (Move_Entry dst src)
    then show ?thesis using store [of dst "lb_entries b ! src"] assms by auto
  next
    case (Set_Start i slot)
    then show ?thesis using store [of i "set_start_slot slot (lb_entries b ! i)"] assms by auto
  next
    case (Store_Slot slot)
    then show ?thesis using assms by (intro exI [of _ s]) (simp add: lb_lock_def)
  next
    case End_Write
    then have "sl_step s (s\<lparr>sl_lock := version_increment (sl_lock s), sl_writing := False,
        sl_incs := Suc (sl_incs s), sl_committed := sl_data (sl_lock s) # sl_committed s\<rparr>)"
      (is "sl_step s ?s'") using assms(1,3) by (intro sl_step.w_end) simp
    then show ?thesis using assms End_Write lock by (intro exI [of _ ?s']) simp
  qed
qed

text \<open>A list of accesses that keeps the protocol is an execution of the lock, state by state.\<close>

lemma lb_protocol_run:
  assumes "lb_protocol w as" "sl_lock s = lb_lock b" "sl_writing s = w" "length (lb_entries b) = LEADER_BUFFER_SIZE"
  shows "\<exists>\<sigma>. \<sigma> 0 = s \<and> (\<forall>k < length as. \<sigma> (Suc k) = \<sigma> k \<or> sl_step (\<sigma> k) (\<sigma> (Suc k))) \<and>
    (\<forall>k \<le> length as. sl_lock (\<sigma> k) = lb_lock (lb_exec (take k as) b)) \<and> \<not> sl_writing (\<sigma> (length as)) \<and>
    (End_Write \<notin> set (butlast as) \<and> as \<noteq> [] \<and> last as = End_Write \<longrightarrow>
       sl_committed (\<sigma> (length as)) = lb_entries (lb_exec as b) # sl_committed s)"
  using assms
proof (induction as arbitrary: w s b)
  case Nil
  then show ?case by (intro exI [of _ "\<lambda>_. s"]) simp
next
  case (Cons a as)
  obtain s' where s': "s' = s \<or> sl_step s s'" "sl_lock s' = lb_lock (lb_access_exec a b)" "lb_protocol (sl_writing s') as"
    "length (lb_entries (lb_access_exec a b)) = LEADER_BUFFER_SIZE"
    "sl_committed s' = (if a = End_Write then lb_entries b # sl_committed s else sl_committed s)"
    using lb_access_step [OF Cons.prems] by blast
  from Cons.IH [OF s'(3,2) refl s'(4)] obtain \<sigma> where \<sigma>: "\<sigma> 0 = s'"
    "\<forall>k < length as. \<sigma> (Suc k) = \<sigma> k \<or> sl_step (\<sigma> k) (\<sigma> (Suc k))"
    "\<forall>k \<le> length as. sl_lock (\<sigma> k) = lb_lock (lb_exec (take k as) (lb_access_exec a b))" "\<not> sl_writing (\<sigma> (length as))"
    "End_Write \<notin> set (butlast as) \<and> as \<noteq> [] \<and> last as = End_Write \<longrightarrow>
       sl_committed (\<sigma> (length as)) = lb_entries (lb_exec as (lb_access_exec a b)) # sl_committed s'" by blast
  let ?\<sigma> = "\<lambda>k. case k of 0 \<Rightarrow> s | Suc k' \<Rightarrow> \<sigma> k'"
  have "?\<sigma> (Suc k) = ?\<sigma> k \<or> sl_step (?\<sigma> k) (?\<sigma> (Suc k))" if "k < length (a # as)" for k
    using that \<sigma>(1,2) s'(1) by (cases k) auto
  moreover have "sl_lock (?\<sigma> k) = lb_lock (lb_exec (take k (a # as)) b)" if "k \<le> length (a # as)" for k
    using that \<sigma>(3) Cons.prems(2) by (cases k) auto
  moreover have "sl_committed (?\<sigma> (length (a # as))) = lb_entries (lb_exec (a # as) b) # sl_committed s"
    if "End_Write \<notin> set (butlast (a # as)) \<and> a # as \<noteq> [] \<and> last (a # as) = End_Write"
    using that \<sigma>(1,5) s'(5) by (cases "as = []") auto
  ultimately show ?case using \<sigma>(4) by (intro exI [of _ ?\<sigma>]) auto
qed

lemma lb_protocol_block:
  "(\<And>i. i \<in> set js \<Longrightarrow> i < LEADER_BUFFER_SIZE) \<Longrightarrow>
     (\<And>i as. lb_protocol True (A i # as) \<longleftrightarrow> i < LEADER_BUFFER_SIZE \<and> lb_protocol True as) \<Longrightarrow>
     lb_protocol True (map A js @ as) \<longleftrightarrow> lb_protocol True as"
  by (induction js) auto

lemma lb_protocol_blocks:
  "p + length new \<le> LEADER_BUFFER_SIZE \<Longrightarrow> lb_protocol True (copy_in p new @ as) \<longleftrightarrow> lb_protocol True as"
  "lb_protocol True (clear_from p @ as) \<longleftrightarrow> lb_protocol True as"
  "lb_protocol True (number_from base p @ as) \<longleftrightarrow> lb_protocol True as"
  "lb_protocol True (shift_left n @ as) \<longleftrightarrow> lb_protocol True as"
  unfolding copy_in_def clear_from_def number_from_def shift_left_def
  by (rule lb_protocol_block; auto simp del: upt_rec_numeral)+

lemma lb_blocks_no_end:
  "End_Write \<notin> set (copy_in p new)" "End_Write \<notin> set (clear_from p)" "End_Write \<notin> set (number_from base p)"
  "End_Write \<notin> set (shift_left n)"
  by (auto simp: copy_in_def clear_from_def number_from_def shift_left_def simp del: upt_rec_numeral)

lemma lb_writer_protocol:
  assumes "as = lb_update_accesses slot new \<or> as = lb_shift_and_append_accesses leader slot \<or>
    count \<noteq> 0 \<and> as = lb_shift_multiple_accesses count new slot"
  shows "lb_protocol False as" "\<exists>as'. as = as' @ [End_Write] \<and> End_Write \<notin> set as'"
proof -
  have n: "\<not> 10 \<le> count \<Longrightarrow> unat count < 10" by (simp add: word_le_nat_alt)
  show "lb_protocol False as"
    using assms n
    by (auto simp: lb_update_accesses_def lb_shift_and_append_accesses_def lb_shift_multiple_accesses_def Let_def
        lb_protocol_blocks min_def)
  show "\<exists>as'. as = as' @ [End_Write] \<and> End_Write \<notin> set as'"
    using assms lb_blocks_no_end
    by (elim disjE conjE)
      (simp_all add: lb_update_accesses_def lb_shift_and_append_accesses_def lb_shift_multiple_accesses_def Let_def
        flip: append_assoc append_Cons)
qed



end
