(* ===== verification/Leader_Schedule.thy ===== *)
theory Leader_Schedule
  imports Leader_Buffer
begin

text \<open>
  The schedule fetcher of \<open>src/leader/src/schedule_fetcher.rs\<close>: the cached schedule of an epoch
  as a flat table indexed by the offset of a slot, its construction from the answers of the RPC
  node, and the lookups of the hot path.

  The RPC client and the parser of public keys are not part of the repository: their answers
  are arguments of \<open>fetcher_refresh\<close>. The hash maps that the code fills while it builds the
  table are maps, and the association lists it iterates over are in iteration order.
\<close>

record tpu_addresses =
  ta_tpu_quic :: "socket_addr option"
  ta_tpu_quic_fwd :: "socket_addr option"

record epoch_schedule =
  es_epoch :: u64
  es_epoch_start_slot :: u64
  es_slots_in_epoch :: u64
  es_leaders :: "leader_entry list"

type_synonym fetcher = "epoch_schedule option"

datatype 'e fetcher_error = FetchRpc 'e | NoSchedule | InvalidPubkey

record epoch_info =
  ei_epoch :: u64
  ei_absolute_slot :: u64
  ei_slot_index :: u64
  ei_slots_in_epoch :: u64

record contact_info =
  ci_pubkey :: string
  ci_tpu_quic :: "socket_addr option"
  ci_tpu_forwards_quic :: "socket_addr option"

record 'e rpc_client =
  get_epoch_info :: "'e + epoch_info"
  get_leader_schedule :: "u64 \<Rightarrow> 'e + (string \<times> usize list) list option"
  get_cluster_nodes :: "'e + contact_info list"

definition fetcher_new :: fetcher where
  "fetcher_new = None"

text \<open>The two loops that fill the hash maps; a key that does not parse ends them.\<close>

fun build_slot_leaders ::
  "(string \<Rightarrow> pubkey option) \<Rightarrow> u64 \<Rightarrow> (string \<times> usize list) list \<Rightarrow> (u64 \<rightharpoonup> pubkey) \<Rightarrow>
   'e fetcher_error + (u64 \<rightharpoonup> pubkey)" where
  "build_slot_leaders parse epoch_start_slot [] slot_leaders = Inr slot_leaders"
| "build_slot_leaders parse epoch_start_slot ((leader_str, slots) # schedule) slot_leaders =
     (case parse leader_str of
        None \<Rightarrow> Inl InvalidPubkey
      | Some leader \<Rightarrow>
          build_slot_leaders parse epoch_start_slot schedule
            (fold (\<lambda>relative_slot m. m(epoch_start_slot + relative_slot \<mapsto> leader)) slots slot_leaders))"

fun build_tpu_addresses ::
  "(string \<Rightarrow> pubkey option) \<Rightarrow> contact_info list \<Rightarrow> (pubkey \<rightharpoonup> tpu_addresses) \<Rightarrow>
   'e fetcher_error + (pubkey \<rightharpoonup> tpu_addresses)" where
  "build_tpu_addresses parse [] tpu = Inr tpu"
| "build_tpu_addresses parse (node # nodes) tpu =
     (case parse (ci_pubkey node) of
        None \<Rightarrow> Inl InvalidPubkey
      | Some pubkey \<Rightarrow>
          build_tpu_addresses parse nodes
            (tpu(pubkey \<mapsto> \<lparr>ta_tpu_quic = ci_tpu_quic node, ta_tpu_quic_fwd = ci_tpu_forwards_quic node\<rparr>)))"

definition join_entry :: "(u64 \<rightharpoonup> pubkey) \<Rightarrow> (pubkey \<rightharpoonup> tpu_addresses) \<Rightarrow> u64 \<Rightarrow> leader_entry" where
  "join_entry slot_leaders tpu_addresses absolute_slot =
     (case slot_leaders absolute_slot of
        Some leader \<Rightarrow>
          (let tpu = (case tpu_addresses leader of
                        Some t \<Rightarrow> t
                      | None \<Rightarrow> \<lparr>ta_tpu_quic = None, ta_tpu_quic_fwd = None\<rparr>)
           in case (ta_tpu_quic tpu, ta_tpu_quic_fwd tpu) of
                (Some tpu_quic, Some tpu_quic_fwd) \<Rightarrow> entry_new leader tpu_quic tpu_quic_fwd
              | _ \<Rightarrow> entry_EMPTY)
      | None \<Rightarrow> entry_EMPTY)"

definition fetcher_refresh ::
  "(string \<Rightarrow> pubkey option) \<Rightarrow> 'e rpc_client \<Rightarrow> fetcher \<Rightarrow> ('e fetcher_error + unit) \<times> fetcher" where
  "fetcher_refresh parse rpc cache =
     (case get_epoch_info rpc of
        Inl err \<Rightarrow> (Inl (FetchRpc err), cache)
      | Inr info \<Rightarrow>
          let current_epoch = ei_epoch info;
              epoch_start_slot = ei_absolute_slot info - ei_slot_index info;
              slots_in_epoch = ei_slots_in_epoch info
          in if (case cache of Some c \<Rightarrow> es_epoch c = current_epoch | None \<Rightarrow> False) then (Inr (), cache)
          else
            (case get_leader_schedule rpc epoch_start_slot of
               Inl err \<Rightarrow> (Inl (FetchRpc err), cache)
             | Inr None \<Rightarrow> (Inl NoSchedule, cache)
             | Inr (Some schedule) \<Rightarrow>
                 (case build_slot_leaders parse epoch_start_slot schedule Map.empty of
                    Inl err \<Rightarrow> (Inl err, cache)
                  | Inr slot_leaders \<Rightarrow>
                      (case get_cluster_nodes rpc of
                         Inl err \<Rightarrow> (Inl (FetchRpc err), cache)
                       | Inr nodes \<Rightarrow>
                           (case build_tpu_addresses parse nodes Map.empty of
                              Inl err \<Rightarrow> (Inl err, cache)
                            | Inr tpu_addresses \<Rightarrow>
                                let leaders = map (\<lambda>slot_offset.
                                      join_entry slot_leaders tpu_addresses (epoch_start_slot + of_nat slot_offset))
                                      [0..<unat slots_in_epoch]
                                in (Inr (), Some \<lparr>es_epoch = current_epoch, es_epoch_start_slot = epoch_start_slot,
                                      es_slots_in_epoch = slots_in_epoch, es_leaders = leaders\<rparr>))))))"

definition current_epoch :: "fetcher \<Rightarrow> u64 option" where
  "current_epoch cache = map_option es_epoch cache"

definition is_slot_in_cache :: "fetcher \<Rightarrow> u64 \<Rightarrow> bool" where
  "is_slot_in_cache cache slot =
     (case cache of
        Some c \<Rightarrow> es_epoch_start_slot c \<le> slot \<and> slot < es_epoch_start_slot c + es_slots_in_epoch c
      | None \<Rightarrow> False)"

text \<open>An index into a vector; out of bounds it panics.\<close>

definition vec_index :: "'a list \<Rightarrow> usize \<Rightarrow> 'a run" where
  "vec_index xs i = (if unat i < length xs then Done (xs ! unat i) else Panicked)"

definition get_leader_at_slot :: "fetcher \<Rightarrow> u64 \<Rightarrow> leader_entry option run" where
  "get_leader_at_slot cache slot =
     (case cache of
        None \<Rightarrow> Done None
      | Some c \<Rightarrow>
          if slot < es_epoch_start_slot c \<or> es_epoch_start_slot c + es_slots_in_epoch c \<le> slot then Done None
          else run_bind (vec_index (es_leaders c) (slot - es_epoch_start_slot c)) (\<lambda>e. Done (Some e)))"

text \<open>The loop of \<open>get_next_leaders_into\<close>: the entries of the caller's buffer in turn.\<close>

fun next_leaders_loop ::
  "epoch_schedule \<Rightarrow> u64 \<Rightarrow> u64 \<Rightarrow> usize \<Rightarrow> leader_entry list \<Rightarrow> (usize \<times> leader_entry list) run" where
  "next_leaders_loop c max_slot slot written [] = Done (written, [])"
| "next_leaders_loop c max_slot slot written (entry # buffer) =
     (if max_slot \<le> slot then Done (written, entry # buffer)
      else if es_epoch_start_slot c \<le> slot then
        run_bind (vec_index (es_leaders c) (slot - es_epoch_start_slot c)) (\<lambda>e.
          run_bind (next_leaders_loop c max_slot (slot + SLOTS_PER_LEADER) (written + 1) buffer) (\<lambda>(w, es).
            Done (w, e # es)))
      else
        run_bind (next_leaders_loop c max_slot (slot + SLOTS_PER_LEADER) written buffer) (\<lambda>(w, es).
          Done (w, entry # es)))"

definition get_next_leaders_into ::
  "fetcher \<Rightarrow> u64 \<Rightarrow> leader_entry list \<Rightarrow> (usize \<times> leader_entry list) run" where
  "get_next_leaders_into cache start_slot buffer =
     (case cache of
        None \<Rightarrow> Done (0, buffer)
      | Some c \<Rightarrow>
          let slot = start_slot div SLOTS_PER_LEADER * SLOTS_PER_LEADER;
              max_slot = es_epoch_start_slot c + es_slots_in_epoch c
          in next_leaders_loop c max_slot slot 0 buffer)"

section \<open>The table and its lookups\<close>

text \<open>A schedule whose table has one entry per slot of an epoch that ends within the \<open>u64\<close> range.\<close>

definition schedule_wf :: "epoch_schedule \<Rightarrow> bool" where
  "schedule_wf c \<longleftrightarrow> length (es_leaders c) = unat (es_slots_in_epoch c) \<and>
     unat (es_epoch_start_slot c) + unat (es_slots_in_epoch c) < 2 ^ 64"

definition fetcher_wf :: "fetcher \<Rightarrow> bool" where
  "fetcher_wf cache \<longleftrightarrow> (case cache of None \<Rightarrow> True | Some c \<Rightarrow> schedule_wf c)"

text \<open>What the schedule says of a slot, the empty entry outside the epoch.\<close>

definition sched_entry :: "fetcher \<Rightarrow> nat \<Rightarrow> leader_entry" where
  "sched_entry cache n =
     (case cache of
        None \<Rightarrow> entry_EMPTY
      | Some c \<Rightarrow>
          if unat (es_epoch_start_slot c) \<le> n \<and> n < unat (es_epoch_start_slot c) + unat (es_slots_in_epoch c)
          then es_leaders c ! (n - unat (es_epoch_start_slot c)) else entry_EMPTY)"

lemma unat_add_small: "unat a + unat b < 2 ^ 64 \<Longrightarrow> unat (a + b :: u64) = unat a + unat b"
  by (simp add: unat_word_ariths)

lemma schedule_wf_max:
  "schedule_wf c \<Longrightarrow> unat (es_epoch_start_slot c + es_slots_in_epoch c) =
     unat (es_epoch_start_slot c) + unat (es_slots_in_epoch c)"
  by (simp add: schedule_wf_def unat_add_small)

lemma vec_index_in_epoch:
  assumes "schedule_wf c" "es_epoch_start_slot c \<le> slot" "slot < es_epoch_start_slot c + es_slots_in_epoch c"
  shows "vec_index (es_leaders c) (slot - es_epoch_start_slot c) = Done (sched_entry (Some c) (unat slot))"
proof -
  have u: "unat (slot - es_epoch_start_slot c) = unat slot - unat (es_epoch_start_slot c)"
    using assms(2) by (rule unat_sub)
  have "unat (es_epoch_start_slot c) \<le> unat slot"
    "unat slot < unat (es_epoch_start_slot c) + unat (es_slots_in_epoch c)"
    using assms(2,3) schedule_wf_max [OF assms(1)] by (auto simp: word_le_nat_alt word_less_nat_alt)
  moreover have "length (es_leaders c) = unat (es_slots_in_epoch c)"
    using assms(1) by (simp add: schedule_wf_def)
  ultimately show ?thesis unfolding vec_index_def u sched_entry_def by auto
qed

lemma sched_entry_outside:
  assumes "schedule_wf c"
    and "slot < es_epoch_start_slot c \<or> es_epoch_start_slot c + es_slots_in_epoch c \<le> slot" "unat slot \<le> n"
    and "slot < es_epoch_start_slot c \<Longrightarrow> n = unat slot"
  shows "sched_entry (Some c) n = entry_EMPTY"
  using assms schedule_wf_max [OF assms(1)]
  by (auto simp: sched_entry_def word_le_nat_alt word_less_nat_alt)

lemma get_leader_at_slot_spec:
  assumes "fetcher_wf cache"
  shows "get_leader_at_slot cache slot =
    Done (if is_slot_in_cache cache slot then Some (sched_entry cache (unat slot)) else None)"
proof (cases cache)
  case None
  then show ?thesis by (simp add: get_leader_at_slot_def is_slot_in_cache_def)
next
  case (Some c)
  then have wf: "schedule_wf c" using assms by (simp add: fetcher_wf_def)
  show ?thesis
    using vec_index_in_epoch [OF wf, of slot]
    by (auto simp: Some get_leader_at_slot_def is_slot_in_cache_def not_le not_less)
qed

lemma map_upt_Suc_shift: "map f [0..<Suc n] = f 0 # map (\<lambda>k. f (Suc k)) [0..<n]"
  by (simp only: upt_conv_Cons map_Suc_upt [symmetric] zero_less_Suc list.map map_map o_def)

lemma next_leaders_loop_spec:
  assumes "schedule_wf c" "unat slot + 4 * n < 2 ^ 64"
  shows "\<exists>w'. next_leaders_loop c (es_epoch_start_slot c + es_slots_in_epoch c) slot w (replicate n entry_EMPTY) =
    Done (w', map (\<lambda>k. sched_entry (Some c) (unat slot + 4 * k)) [0..<n])"
  using assms(2)
proof (induction n arbitrary: slot w)
  case 0
  then show ?case by simp
next
  case (Suc n)
  let ?max = "es_epoch_start_slot c + es_slots_in_epoch c"
  have u: "unat (slot + 4) = unat slot + 4"
    using Suc.prems unat_add_small [of slot 4] by simp
  have IH: "\<exists>w'. next_leaders_loop c ?max (slot + 4) w (replicate n entry_EMPTY) =
      Done (w', map (\<lambda>k. sched_entry (Some c) (unat slot + 4 * Suc k)) [0..<n])" for w
    using Suc.IH [of "slot + 4" w] Suc.prems by (simp add: u add.assoc)
  consider "?max \<le> slot" | "slot < ?max" "es_epoch_start_slot c \<le> slot" | "slot < ?max" "slot < es_epoch_start_slot c"
    by fastforce
  then show ?case
  proof cases
    case 1
    have "sched_entry (Some c) (unat slot + 4 * k) = entry_EMPTY" for k
      by (rule sched_entry_outside [OF assms(1) disjI2 [OF 1]])
        (use 1 schedule_wf_max [OF assms(1)] in \<open>auto simp: word_le_nat_alt word_less_nat_alt\<close>)
    then have "map (\<lambda>k. sched_entry (Some c) (unat slot + 4 * k)) [0..<Suc n] = replicate (Suc n) entry_EMPTY"
      by (simp add: map_replicate_const)
    with 1 show ?thesis by (simp del: upt_Suc)
  next
    case 2
    then show ?thesis using IH [of "w + 1"] vec_index_in_epoch [OF assms(1) 2(2,1)]
      by (auto simp: map_upt_Suc_shift not_le [symmetric] simp del: upt_Suc)
  next
    case 3
    have "sched_entry (Some c) (unat slot) = entry_EMPTY"
      by (rule sched_entry_outside [OF assms(1) disjI1 [OF 3(2)]]) simp_all
    then show ?thesis using IH [of w] 3
      by (auto simp: map_upt_Suc_shift not_le [symmetric] simp del: upt_Suc)
  qed
qed

lemma unat_base: "unat (slot div SLOTS_PER_LEADER * SLOTS_PER_LEADER) = unat slot div 4 * 4"
proof -
  have "unat slot < 2 ^ 64" using unsigned_less [of slot] by simp
  moreover have "unat (slot div 4) = unat slot div 4" by (simp add: unat_div)
  moreover have "unat slot div 4 * 4 \<le> unat slot" by simp
  ultimately show ?thesis by (simp add: unat_word_ariths)
qed

lemma get_next_leaders_into_spec:
  assumes "fetcher_wf cache" "unat slot + 4 * n < 2 ^ 64"
  shows "\<exists>w. get_next_leaders_into cache slot (replicate n entry_EMPTY) =
    Done (w, map (\<lambda>k. sched_entry cache (unat slot div 4 * 4 + 4 * k)) [0..<n])"
proof (cases cache)
  case None
  then show ?thesis by (simp add: get_next_leaders_into_def sched_entry_def map_replicate_const)
next
  case (Some c)
  have "unat slot div 4 * 4 + 4 * n < 2 ^ 64" using assms(2) by linarith
  then show ?thesis
    using next_leaders_loop_spec [of c "slot div 4 * 4" n 0] assms(1)
    by (simp add: Some get_next_leaders_into_def fetcher_wf_def unat_base)
qed

section \<open>Building the table\<close>

lemma fold_slots:
  "fold (\<lambda>r m. m(start + r \<mapsto> leader)) slots m s =
     (if s - start \<in> set slots then Some leader else (m (s :: u64) :: pubkey option))"
  by (induction slots arbitrary: m) auto

definition scheduled :: "(string \<Rightarrow> pubkey option) \<Rightarrow> u64 \<Rightarrow> (string \<times> usize list) list \<Rightarrow> u64 \<Rightarrow> pubkey \<Rightarrow> bool" where
  "scheduled parse start schedule slot leader \<longleftrightarrow>
     (\<exists>(str, slots) \<in> set schedule. parse str = Some leader \<and> slot - start \<in> set slots)"

lemma build_slot_leaders_spec:
  "build_slot_leaders parse start schedule m0 = (Inr m :: 'e fetcher_error + _) \<Longrightarrow>
     (\<forall>l. m s = Some l \<longrightarrow> m0 s = Some l \<or> scheduled parse start schedule s l) \<and>
     (m s = None \<longleftrightarrow> m0 s = None \<and> (\<forall>l. \<not> scheduled parse start schedule s l))"
proof (induction parse start schedule m0 rule: build_slot_leaders.induct)
  case (1 parse start m0)
  then show ?case by (simp add: scheduled_def)
next
  case (2 parse start str slots schedule m0)
  then obtain leader where p: "parse str = Some leader"
    and b: "build_slot_leaders parse start schedule (fold (\<lambda>r m. m(start + r \<mapsto> leader)) slots m0) = (Inr m :: 'e fetcher_error + _)"
    by (auto split: option.splits)
  have sch: "scheduled parse start ((str, slots) # schedule) s l \<longleftrightarrow>
      (l = leader \<and> s - start \<in> set slots) \<or> scheduled parse start schedule s l" for l
    using p by (auto simp: scheduled_def)
  from "2.IH" [OF p b] show ?case unfolding sch fold_slots by (auto split: if_splits)
qed

definition epoch_info_ok :: "epoch_info \<Rightarrow> bool" where
  "epoch_info_ok info \<longleftrightarrow> ei_slot_index info \<le> ei_absolute_slot info \<and>
     unat (ei_absolute_slot info) - unat (ei_slot_index info) + unat (ei_slots_in_epoch info) < 2 ^ 64"

lemma fetcher_refresh_cases:
  assumes "fetcher_refresh parse (rpc :: 'e rpc_client) cache = (r, cache')"
  obtains (failed) err where "r = Inl err" "cache' = cache"
    | (kept) info c where "r = Inr ()" "cache' = cache" "get_epoch_info rpc = Inr info" "cache = Some c" "es_epoch c = ei_epoch info"
    | (built) info schedule m nodes t where "r = Inr ()" "get_epoch_info rpc = Inr info"
      "get_leader_schedule rpc (ei_absolute_slot info - ei_slot_index info) = Inr (Some schedule)"
      "build_slot_leaders parse (ei_absolute_slot info - ei_slot_index info) schedule Map.empty = (Inr m :: 'e fetcher_error + _)"
      "get_cluster_nodes rpc = Inr nodes" "build_tpu_addresses parse nodes Map.empty = (Inr t :: 'e fetcher_error + _)"
      "cache' = Some \<lparr>es_epoch = ei_epoch info, es_epoch_start_slot = ei_absolute_slot info - ei_slot_index info,
         es_slots_in_epoch = ei_slots_in_epoch info,
         es_leaders = map (\<lambda>k. join_entry m t (ei_absolute_slot info - ei_slot_index info + of_nat k)) [0..<unat (ei_slots_in_epoch info)]\<rparr>"
  using assms
  by (auto simp: fetcher_refresh_def Let_def split: sum.splits option.splits if_splits)

lemma built_schedule_lookup:
  assumes "unat start + unat n < 2 ^ 64"
    and c: "c = \<lparr>es_epoch = e, es_epoch_start_slot = start, es_slots_in_epoch = n,
          es_leaders = map (\<lambda>k. f (start + of_nat k)) [0..<unat n]\<rparr>"
  shows "schedule_wf c" "is_slot_in_cache (Some c) slot \<Longrightarrow> get_leader_at_slot (Some c) slot = Done (Some (f slot))"
proof -
  show wf: "schedule_wf c" using assms by (simp add: schedule_wf_def)
  assume i: "is_slot_in_cache (Some c) slot"
  then have le: "start \<le> slot" and lt: "slot < start + n" by (auto simp: is_slot_in_cache_def c)
  have "unat slot - unat start < unat n" "unat start \<le> unat slot"
    using le lt unat_add_small [OF assms(1)] by (auto simp: word_le_nat_alt word_less_nat_alt)
  moreover have "start + of_nat (unat slot - unat start) = slot"
    using le by (simp add: word_le_nat_alt of_nat_diff)
  ultimately have "sched_entry (Some c) (unat slot) = f slot" by (auto simp: sched_entry_def c)
  with i wf show "get_leader_at_slot (Some c) slot = Done (Some (f slot))"
    by (simp add: get_leader_at_slot_spec fetcher_wf_def)
qed

lemma fetcher_refresh_wf:
  assumes "fetcher_wf cache" "\<forall>info. get_epoch_info rpc = Inr info \<longrightarrow> epoch_info_ok info"
    and ref: "fetcher_refresh parse (rpc :: 'e rpc_client) cache = (r, cache')"
  shows "fetcher_wf cache'"
  using ref
proof (cases rule: fetcher_refresh_cases)
  case (built info schedule m nodes t)
  let ?start = "ei_absolute_slot info - ei_slot_index info"
  have "unat ?start + unat (ei_slots_in_epoch info) < 2 ^ 64"
    using assms(2) built(2) by (simp add: epoch_info_ok_def unat_sub)
  from built_schedule_lookup(1) [OF this, where f = "join_entry m t"] show ?thesis
    unfolding built(7) fetcher_wf_def by simp
qed (use assms(1) in simp_all)

lemma join_entry_valid:
  "entry_is_valid (join_entry m t slot) \<Longrightarrow> m slot = Some (le_pubkey (join_entry m t slot))"
  by (auto simp: join_entry_def entry_is_valid_def entry_EMPTY_def entry_new_def Let_def
      split: option.splits prod.splits)

text \<open>
  C13. Refreshing the schedule keeps the table indexable: whatever the RPC node answers, no
  lookup of any slot panics afterwards, a failed refresh leaves the cache as it was, and a
  successful one caches the epoch the node reported. A valid entry that a lookup returns after
  a new epoch was loaded carries a public key that the node's schedule lists for that slot.
  The one thing relied on is that the node reports an epoch that starts before the current
  slot and ends within the range of \<open>u64\<close>.
\<close>

theorem schedule_refresh_sound:
  assumes wf: "fetcher_wf cache" and info: "\<forall>info. get_epoch_info rpc = Inr info \<longrightarrow> epoch_info_ok info"
    and ref: "fetcher_refresh parse (rpc :: 'e rpc_client) cache = (r, cache')"
  shows "fetcher_wf cache' \<and>
    (\<forall>slot. get_leader_at_slot cache' slot =
       Done (if is_slot_in_cache cache' slot then Some (sched_entry cache' (unat slot)) else None)) \<and>
    (r \<noteq> Inr () \<longrightarrow> cache' = cache) \<and>
    (r = Inr () \<longrightarrow> (\<exists>info. get_epoch_info rpc = Inr info \<and> current_epoch cache' = Some (ei_epoch info))) \<and>
    (cache' \<noteq> cache \<longrightarrow>
      (\<exists>info schedule. get_epoch_info rpc = Inr info \<and>
         get_leader_schedule rpc (ei_absolute_slot info - ei_slot_index info) = Inr (Some schedule) \<and>
         (\<forall>slot e. get_leader_at_slot cache' slot = Done (Some e) \<and> entry_is_valid e \<longrightarrow>
            scheduled parse (ei_absolute_slot info - ei_slot_index info) schedule slot (le_pubkey e))))"
proof -
  note wf' = fetcher_refresh_wf [OF assms]
  show ?thesis
    using ref
  proof (cases rule: fetcher_refresh_cases)
    case (failed err)
    then show ?thesis using wf' get_leader_at_slot_spec by simp
  next
    case (kept info c)
    then show ?thesis using wf' get_leader_at_slot_spec by (simp add: current_epoch_def)
  next
    case (built info schedule m nodes t)
    let ?start = "ei_absolute_slot info - ei_slot_index info"
    have fit: "unat ?start + unat (ei_slots_in_epoch info) < 2 ^ 64"
      using info built(2) by (simp add: epoch_info_ok_def unat_sub)
    have sch: "scheduled parse ?start schedule slot (le_pubkey e)"
      if e: "get_leader_at_slot cache' slot = Done (Some e)" "entry_is_valid e" for slot e
    proof -
      have "is_slot_in_cache cache' slot"
        using e(1) get_leader_at_slot_spec [OF wf', of slot] by (simp split: if_splits)
      then have "e = join_entry m t slot"
        using built_schedule_lookup(2) [OF fit, where f = "join_entry m t"] e(1) unfolding built(7) by simp
      with e(2) have "m slot = Some (le_pubkey e)" using join_entry_valid by simp
      then show ?thesis using build_slot_leaders_spec [OF built(4), of slot] by simp
    qed
    have "current_epoch cache' = Some (ei_epoch info)" unfolding built(7) by (simp add: current_epoch_def)
    with sch built(1-3) wf' get_leader_at_slot_spec [OF wf'] show ?thesis by blast
  qed
qed

text \<open>A node with an epoch of eight slots from slot 100, and one leader.\<close>

definition demo_parse :: "string \<Rightarrow> pubkey option" where
  "demo_parse s = (if s = ''A'' then Some (replicate 32 1) else None)"

definition demo_rpc :: "unit rpc_client" where
  "demo_rpc = \<lparr>get_epoch_info = Inr \<lparr>ei_epoch = 7, ei_absolute_slot = 102, ei_slot_index = 2, ei_slots_in_epoch = 8\<rparr>,
     get_leader_schedule = (\<lambda>_. Inr (Some [(''A'', [0, 1, 2, 3])])),
     get_cluster_nodes = Inr [\<lparr>ci_pubkey = ''A'', ci_tpu_quic = Some (V4 [10, 0, 0, 1] 8009),
       ci_tpu_forwards_quic = Some (V4 [10, 0, 0, 1] 8010)\<rparr>]\<rparr>"

theorem schedule_refresh_sound_witness:
  "fetcher_wf (snd (fetcher_refresh demo_parse demo_rpc None)) \<and>
   snd (fetcher_refresh demo_parse demo_rpc None) \<noteq> None \<and>
   get_leader_at_slot (snd (fetcher_refresh demo_parse demo_rpc None)) 108 = Done None"
proof -
  let ?cache = "snd (fetcher_refresh demo_parse demo_rpc None)"
  have wf: "fetcher_wf None" by (simp add: fetcher_wf_def)
  have ok: "\<forall>info. get_epoch_info demo_rpc = Inr info \<longrightarrow> epoch_info_ok info"
    by (simp add: demo_rpc_def epoch_info_ok_def word_le_nat_alt)
  have ref: "fetcher_refresh demo_parse demo_rpc None = (Inr (), ?cache)"
    by (simp add: fetcher_refresh_def demo_rpc_def demo_parse_def)
  have out: "?cache \<noteq> None" "\<not> is_slot_in_cache ?cache 108"
    by (simp_all add: fetcher_refresh_def demo_rpc_def demo_parse_def is_slot_in_cache_def)
  from schedule_refresh_sound [OF wf ok ref] out show ?thesis by simp
qed

end
