(* ===== verification/Leader_Tracker.thy ===== *)
theory Leader_Tracker
  imports Leader_Schedule
begin

text \<open>
  The leader tracker of \<open>src/leader/src/tracker.rs\<close>: start-up, the refresh task, and the
  busy-spin loop that follows the slot and keeps the leader buffer in step with the schedule.

  Threads and timers are driven by what they observe: an iteration of the spin loop is given
  the \<open>running\<close> flag, the slot and the schedule cache that it loads, and the waits of the
  start-up are given the loads and the outcome of the deadline checks in order. Websocket and
  RPC answers are arguments.
\<close>

datatype 'e tracker_error = Fetch "'e fetcher_error" | ConnectionTimeout | NoSlotReceived | AlreadyRunning | Internal string

record tracker =
  tk_buffer :: leader_buffer
  tk_fetcher :: fetcher
  tk_running :: bool
  tk_subscriber :: bool
  tk_refresh_task :: bool
  tk_tracker_thread :: bool

definition tracker_new :: tracker where
  "tracker_new = \<lparr>tk_buffer = lb_new, tk_fetcher = fetcher_new, tk_running = False,
     tk_subscriber = False, tk_refresh_task = False, tk_tracker_thread = False\<rparr>"

definition update_buffer_from_schedule :: "leader_buffer \<Rightarrow> fetcher \<Rightarrow> u64 \<Rightarrow> leader_buffer run" where
  "update_buffer_from_schedule buffer cache current_slot =
     run_bind (get_next_leaders_into cache current_slot (replicate LEADER_BUFFER_SIZE entry_EMPTY))
       (\<lambda>(_, entries). Done (lb_update current_slot entries buffer))"

definition fifo_shift_buffer :: "leader_buffer \<Rightarrow> fetcher \<Rightarrow> u64 \<Rightarrow> usize \<Rightarrow> leader_buffer run" where
  "fifo_shift_buffer buffer cache current_slot leaders_passed =
     (let new_entries = replicate LEADER_BUFFER_SIZE entry_EMPTY;
          lookahead_slot = (current_slot div SLOTS_PER_LEADER + (of_nat LEADER_BUFFER_SIZE - leaders_passed))
                             * SLOTS_PER_LEADER;
          count = min (unat leaders_passed) LEADER_BUFFER_SIZE
      in run_bind (get_next_leaders_into cache lookahead_slot (take count new_entries))
           (\<lambda>(_, new_leaders). Done (lb_shift_multiple leaders_passed new_leaders current_slot buffer)))"

text \<open>The locals of the spin loop, and one iteration of its main loop.\<close>

record spin_state =
  last_slot :: u64
  last_leader_idx :: u64
  spin_buffer :: leader_buffer

definition spin_iter :: "u64 \<Rightarrow> fetcher \<Rightarrow> spin_state \<Rightarrow> spin_state run" where
  "spin_iter current_slot cache s =
     (if current_slot \<noteq> last_slot s then
        let current_leader_idx = current_slot div SLOTS_PER_LEADER in
        if current_leader_idx \<noteq> last_leader_idx s then
          let leaders_passed = sat_sub current_leader_idx (last_leader_idx s) in
          run_bind
            (if of_nat LEADER_BUFFER_SIZE \<le> leaders_passed
             then update_buffer_from_schedule (spin_buffer s) cache current_slot
             else fifo_shift_buffer (spin_buffer s) cache current_slot leaders_passed)
            (\<lambda>buffer. Done \<lparr>last_slot = current_slot, last_leader_idx = current_leader_idx, spin_buffer = buffer\<rparr>)
        else Done (s\<lparr>spin_buffer := lb_set_current_slot current_slot (spin_buffer s), last_slot := current_slot\<rparr>)
      else Done s)"

type_synonym spin_obs = "bool \<times> u64 \<times> fetcher"

text \<open>The wait for a valid slot; the result keeps the observations that are left.\<close>

fun spin_wait :: "spin_obs list \<Rightarrow> ((u64 \<times> u64) \<times> spin_obs list) run" where
  "spin_wait [] = Blocked"
| "spin_wait ((running, slot, cache) # obs) =
     (if \<not> running then Done ((0, 0), obs)
      else if 0 < slot then Done ((slot, slot div SLOTS_PER_LEADER), obs)
      else spin_wait obs)"

text \<open>The main loop: the flag tells whether it has ended, or is still running after the last observation.\<close>

fun spin_main :: "spin_state \<Rightarrow> spin_obs list \<Rightarrow> (bool \<times> spin_state) run" where
  "spin_main s [] = Done (False, s)"
| "spin_main s ((running, slot, cache) # obs) =
     (if \<not> running then Done (True, s)
      else run_bind (spin_iter slot cache s) (\<lambda>s'. spin_main s' obs))"

definition busy_spin_loop :: "leader_buffer \<Rightarrow> spin_obs list \<Rightarrow> (bool \<times> spin_state) run" where
  "busy_spin_loop buffer obs =
     run_bind (spin_wait obs) (\<lambda>((slot, idx), obs').
       spin_main \<lparr>last_slot = slot, last_leader_idx = idx, spin_buffer = buffer\<rparr> obs')"

text \<open>The refresh task, over the rounds of its loop: the two loads of the flag, the slot and the node.\<close>

fun refresh_task ::
  "(string \<Rightarrow> pubkey option) \<Rightarrow> (bool \<times> bool \<times> u64 \<times> 'e rpc_client) list \<Rightarrow> fetcher \<Rightarrow> fetcher" where
  "refresh_task parse [] cache = cache"
| "refresh_task parse ((running, still_running, slot, rpc) # obs) cache =
     (if \<not> running then cache
      else if \<not> still_running then cache
      else if \<not> is_slot_in_cache cache slot then
        refresh_task parse obs (snd (fetcher_refresh parse rpc cache))
      else refresh_task parse obs cache)"

text \<open>The wait for the first slot: each round loads the slot and, at zero, checks the deadline.\<close>

fun wait_first_slot :: "(u64 \<times> bool) list \<Rightarrow> bool run" where
  "wait_first_slot [] = Blocked"
| "wait_first_slot ((slot, expired) # obs) =
     (if slot \<noteq> 0 then Done True else if expired then Done False else wait_first_slot obs)"

definition tracker_start ::
  "(string \<Rightarrow> pubkey option) \<Rightarrow> 'e rpc_client \<Rightarrow> bool \<Rightarrow> (u64 \<times> bool) list \<Rightarrow> u64 \<Rightarrow> tracker \<Rightarrow>
   (('e tracker_error + unit) \<times> tracker) run" where
  "tracker_start parse rpc connected waits initial_slot t =
     (if tk_running t then Done (Inl AlreadyRunning, t)
      else case fetcher_refresh parse rpc (tk_fetcher t) of
        (Inl err, cache) \<Rightarrow> Done (Inl (Fetch err), t\<lparr>tk_fetcher := cache\<rparr>)
      | (Inr _, cache) \<Rightarrow>
          let t1 = t\<lparr>tk_fetcher := cache\<rparr> in
          if \<not> connected then Done (Inl ConnectionTimeout, t1)
          else run_bind (wait_first_slot waits) (\<lambda>received.
            if \<not> received then Done (Inl NoSlotReceived, t1)
            else run_bind (update_buffer_from_schedule (tk_buffer t1) cache initial_slot) (\<lambda>buffer.
              Done (Inr (), t1\<lparr>tk_buffer := buffer, tk_running := True, tk_refresh_task := True,
                tk_tracker_thread := True, tk_subscriber := True\<rparr>))))"

definition tracker_stop :: "tracker \<Rightarrow> tracker" where
  "tracker_stop t = t\<lparr>tk_running := False, tk_subscriber := False, tk_refresh_task := False, tk_tracker_thread := False\<rparr>"

definition tracker_is_running :: "tracker \<Rightarrow> bool" where
  "tracker_is_running t = tk_running t"

section \<open>The buffer follows the schedule\<close>

text \<open>
  What the tracker promises at a slot: position \<open>i\<close> holds what the schedule says of the \<open>i\<close>-th
  leader from the current one, with the first slot of that leader.
\<close>

definition leader_at :: "fetcher \<Rightarrow> u64 \<Rightarrow> nat \<Rightarrow> leader_entry" where
  "leader_at cache slot i =
     set_start_slot (base_of slot + of_nat i * SLOTS_PER_LEADER) (sched_entry cache (unat slot div 4 * 4 + 4 * i))"

definition buffer_follows :: "fetcher \<Rightarrow> u64 \<Rightarrow> leader_buffer \<Rightarrow> bool" where
  "buffer_follows cache slot b \<longleftrightarrow> lb_wf b \<and>
     (\<forall>i < LEADER_BUFFER_SIZE. lb_entries b ! i = leader_at cache slot i)"

text \<open>The same when the schedule changes on the way: each entry is from one of the schedules \<open>C\<close> seen.\<close>

definition buffer_follows_one_of :: "fetcher set \<Rightarrow> u64 \<Rightarrow> leader_buffer \<Rightarrow> bool" where
  "buffer_follows_one_of C slot b \<longleftrightarrow> lb_wf b \<and>
     (\<forall>i < LEADER_BUFFER_SIZE. \<exists>cache \<in> C. lb_entries b ! i = leader_at cache slot i)"

lemma buffer_follows_one_ofI: "buffer_follows cache slot b \<Longrightarrow> cache \<in> C \<Longrightarrow> buffer_follows_one_of C slot b"
  by (auto simp: buffer_follows_def buffer_follows_one_of_def)

text \<open>The loop at a slot, \<open>first\<close> the one it began with: until the slot changes, the loop does not store it.\<close>

definition spin_follows :: "u64 \<Rightarrow> fetcher set \<Rightarrow> u64 \<Rightarrow> spin_state \<Rightarrow> bool" where
  "spin_follows first C slot s \<longleftrightarrow> last_slot s = slot \<and> last_leader_idx s = slot div SLOTS_PER_LEADER \<and>
     buffer_follows_one_of C slot (spin_buffer s) \<and> (slot \<noteq> first \<longrightarrow> lb_current_slot (spin_buffer s) = slot)"

text \<open>Far enough from the end of the range for the ten leaders ahead.\<close>

definition slot_ok :: "u64 \<Rightarrow> bool" where
  "slot_ok slot \<longleftrightarrow> unat slot + 80 < 2 ^ 64"

lemma update_buffer_follows:
  assumes "fetcher_wf cache" "slot_ok slot" "lb_wf b"
  shows "\<exists>b'. update_buffer_from_schedule b cache slot = Done b' \<and> buffer_follows cache slot b' \<and>
    lb_current_slot b' = slot"
proof -
  have "unat slot + 4 * 10 < 2 ^ 64" using assms(2) by (simp add: slot_ok_def)
  from get_next_leaders_into_spec [OF assms(1) this] obtain w where
    "get_next_leaders_into cache slot (replicate 10 entry_EMPTY) =
       Done (w, map (\<lambda>k. sched_entry cache (unat slot div 4 * 4 + 4 * k)) [0..<10])" by blast
  then show ?thesis
    using lb_update_spec [OF assms(3)]
    by (simp add: update_buffer_from_schedule_def buffer_follows_def leader_at_def leader_or_empty_def del: upt_rec_numeral)
qed

lemma eq_of_nat: "unat a = n \<Longrightarrow> a = of_nat n"
  by auto

lemma unat_lookahead:
  assumes "slot_ok slot" "n \<le> 10"
  shows "unat ((slot div SLOTS_PER_LEADER + (of_nat LEADER_BUFFER_SIZE - of_nat n)) * SLOTS_PER_LEADER) =
    unat slot div 4 * 4 + 4 * (10 - n)"
proof -
  have "(of_nat LEADER_BUFFER_SIZE - of_nat n :: u64) = of_nat (10 - n)" using assms(2) by (simp add: of_nat_diff)
  moreover have "slot div SLOTS_PER_LEADER = of_nat (unat slot div 4)"
    by (rule eq_of_nat) (simp add: unat_div)
  ultimately have eq: "(slot div SLOTS_PER_LEADER + (of_nat LEADER_BUFFER_SIZE - of_nat n)) * SLOTS_PER_LEADER =
      (of_nat ((unat slot div 4 + (10 - n)) * 4) :: u64)" by simp
  have d: "(unat slot div 4 + (10 - n)) * 4 = unat slot div 4 * 4 + 4 * (10 - n)" by simp
  have "unat slot div 4 * 4 \<le> unat slot" "4 * (10 - n) \<le> 40" by simp_all
  then have "unat slot div 4 * 4 + 4 * (10 - n) < 2 ^ LENGTH(64)"
    using assms(1) unfolding slot_ok_def by simp
  then show ?thesis unfolding eq d unat_of_nat by (rule mod_less)
qed

lemma fifo_shift_result:
  assumes wf: "fetcher_wf cache" and ok: "slot_ok slot" and n: "0 < n" "n < 10"
  shows "fifo_shift_buffer b cache slot (of_nat n) =
    Done (lb_shift_multiple (of_nat n)
      (map (\<lambda>k. sched_entry cache (unat slot div 4 * 4 + 4 * (10 - n) + 4 * k)) [0..<n]) slot b)"
proof -
  let ?look = "(slot div SLOTS_PER_LEADER + (of_nat LEADER_BUFFER_SIZE - of_nat n)) * SLOTS_PER_LEADER"
  have look: "unat ?look = unat slot div 4 * 4 + 4 * (10 - n)" using unat_lookahead [OF ok] n by simp
  have mult: "(unat slot div 4 * 4 + 4 * (10 - n)) div 4 * 4 = unat slot div 4 * 4 + 4 * (10 - n)" by simp
  have "unat ?look + 4 * n < 2 ^ 64" unfolding look using ok n by (simp add: slot_ok_def)
  from get_next_leaders_into_spec [OF wf this] obtain w where
    "get_next_leaders_into cache ?look (replicate n entry_EMPTY) =
       Done (w, map (\<lambda>k. sched_entry cache (unat slot div 4 * 4 + 4 * (10 - n) + 4 * k)) [0..<n])"
    unfolding look mult by blast
  moreover have "unat (of_nat n :: usize) = n" using n by (simp add: unat_of_nat)
  ultimately show ?thesis using n by (simp add: fifo_shift_buffer_def min_def)
qed

lemma fifo_shift_follows:
  assumes wf: "fetcher_wf cache" and ok: "slot_ok slot" and b: "buffer_follows_one_of C old b"
    and C: "cache \<in> C"
    and n: "0 < n" "n < 10" and idx: "unat slot div 4 = unat old div 4 + n"
  shows "\<exists>b'. fifo_shift_buffer b cache slot (of_nat n) = Done b' \<and> buffer_follows_one_of C slot b' \<and>
    lb_current_slot b' = slot"
proof -
  have wfb: "lb_wf b" and ent: "\<And>i. i < 10 \<Longrightarrow> \<exists>c \<in> C. lb_entries b ! i = leader_at c old i"
    using b by (auto simp: buffer_follows_one_of_def)
  let ?new = "map (\<lambda>k. sched_entry cache (unat slot div 4 * 4 + 4 * (10 - n) + 4 * k)) [0..<n]"
  have un: "unat (of_nat n :: usize) = n" using n by (simp add: unat_of_nat)
  note res = fifo_shift_result [OF wf ok n, of b]
  note spec = lb_shift_multiple_spec [OF wfb n refl, where new = ?new and slot = slot]
  have div: "slot div 4 = old div 4 + of_nat n"
  proof -
    have "unat slot < 2 ^ 64" using unsigned_less [of slot] by simp
    then have "unat slot div 4 < 2 ^ 64" by (rule le_less_trans [OF div_le_dividend])
    then have "unat (old div 4 + of_nat n) = unat slot div 4"
      using unat_add_small [of "old div 4" "of_nat n"] un by (simp add: unat_div idx)
    then show ?thesis by (simp add: word_unat_eq_iff unat_div)
  qed
  have base: "base_of slot = base_of old + of_nat n * 4"
    unfolding base_of_def div by (simp add: distrib_right)
  have "lb_entries (lb_shift_multiple (of_nat n) ?new slot b) ! i \<in> (\<lambda>c. leader_at c slot i) ` C" if i: "i < 10" for i
  proof (cases "i < 10 - n")
    case True
    have "unat old div 4 * 4 + 4 * (i + n) = unat slot div 4 * 4 + 4 * i" using idx by simp
    moreover have "base_of old + of_nat (i + n) * 4 = base_of slot + of_nat i * 4"
      unfolding base by (simp add: algebra_simps)
    ultimately have "leader_at c old (i + n) = leader_at c slot i" for c unfolding leader_at_def by (simp only:)
    moreover have "i + n < 10" using True by simp
    ultimately show ?thesis using True spec(3) ent [of "i + n"] by (auto simp: image_iff)
  next
    case False
    have pos: "unat slot div 4 * 4 + 4 * (10 - n) + 4 * (i - (10 - n)) = unat slot div 4 * 4 + 4 * i"
      using False n by simp
    have new: "leader_or_empty (take n ?new) (i - (10 - n)) =
        sched_entry cache (unat slot div 4 * 4 + 4 * (10 - n) + 4 * (i - (10 - n)))"
      using False i n by (simp add: leader_or_empty_def)
    have "lb_entries (lb_shift_multiple (of_nat n) ?new slot b) ! i =
        set_start_slot (base_of slot + of_nat i * 4) (leader_or_empty (take n ?new) (i - (10 - n)))"
      using False i by (intro spec(4)) simp_all
    then have "lb_entries (lb_shift_multiple (of_nat n) ?new slot b) ! i = leader_at cache slot i"
      unfolding new pos leader_at_def .
    with C show ?thesis by blast
  qed
  with spec(1,2) res show ?thesis by (auto simp: buffer_follows_one_of_def image_iff)
qed

lemma spin_iter_follows:
  assumes wf: "fetcher_wf cache" and ok: "slot_ok slot" and s: "spin_follows first C old s" and C: "cache \<in> C" and le: "old \<le> slot"
  shows "\<exists>s'. spin_iter slot cache s = Done s' \<and> spin_follows first C slot s'"
proof -
  have st: "last_slot s = old" "last_leader_idx s = old div 4" and b: "buffer_follows_one_of C old (spin_buffer s)"
    using s by (auto simp: spin_follows_def)
  have wfb: "lb_wf (spin_buffer s)" using b by (simp add: buffer_follows_one_of_def)
  define n where "n = unat slot div 4 - unat old div 4"
  have mono: "unat old div 4 \<le> unat slot div 4" using le by (simp add: word_le_nat_alt div_le_mono)
  have sub: "unat (sat_sub (slot div 4) (old div 4)) = n" by (simp add: unat_sat_sub n_def unat_div)
  have eq: "slot div 4 = old div 4 \<longleftrightarrow> n = 0"
    using mono by (auto simp: n_def word_unat_eq_iff unat_div)
  consider "slot = old" | "slot \<noteq> old" "n = 0" | "slot \<noteq> old" "0 < n" "n < 10" | "slot \<noteq> old" "10 \<le> n" by linarith
  then show ?thesis
  proof cases
    case 1
    then show ?thesis using s st by (simp add: spin_iter_def)
  next
    case 2
    then have "unat slot div 4 = unat old div 4" using mono by (simp add: n_def)
    then have "leader_at c slot = leader_at c old" for c
      using 2 eq by (intro ext) (simp add: leader_at_def base_of_def)
    then show ?thesis
      using 2 eq st b by (simp add: spin_iter_def spin_follows_def buffer_follows_one_of_def lb_wf_def)
  next
    case 3
    have "sat_sub (slot div 4) (old div 4) = of_nat n" using sub by (rule eq_of_nat)
    moreover have "\<not> (10 :: usize) \<le> of_nat n" using 3 by (simp add: word_le_nat_alt unat_of_nat)
    moreover have "unat slot div 4 = unat old div 4 + n" using mono by (simp add: n_def)
    ultimately show ?thesis
      using fifo_shift_follows [OF wf ok b C 3(2,3)] 3 eq st by (auto simp: spin_iter_def spin_follows_def)
  next
    case 4
    have "(10 :: usize) \<le> sat_sub (slot div 4) (old div 4)" using 4 sub by (simp add: word_le_nat_alt)
    then show ?thesis
      using update_buffer_follows [OF wf ok wfb] 4 eq st C
      by (auto simp: spin_iter_def spin_follows_def intro: buffer_follows_one_ofI)
  qed
qed

lemma spin_main_follows:
  assumes "spin_follows first C old s" "sorted (old # map fst obs)"
    and "\<forall>(x, cache) \<in> set obs. slot_ok x \<and> fetcher_wf cache \<and> cache \<in> C"
  shows "\<exists>s'. spin_main s (map (\<lambda>(x, cache). (True, x, cache)) obs) = Done (False, s') \<and>
    spin_follows first C (last (old # map fst obs)) s'"
  using assms
proof (induction obs arbitrary: old s)
  case Nil
  then show ?case by simp
next
  case (Cons ob obs)
  obtain x cache where ob: "ob = (x, cache)" by (cases ob)
  have x: "slot_ok x" "fetcher_wf cache" "cache \<in> C" "old \<le> x" using Cons.prems ob by auto
  from spin_iter_follows [OF x(2,1) Cons.prems(1) x(3,4)] obtain s1 where
    "spin_iter x cache s = Done s1" "spin_follows first C x s1" by blast
  with Cons.IH [of x s1] Cons.prems ob show ?case by auto
qed

lemma tracker_start_ok:
  assumes "tracker_start parse rpc connected waits initial t = Done (Inr (), t')"
  shows "update_buffer_from_schedule (tk_buffer t) (tk_fetcher t') initial = Done (tk_buffer t')"
    "tk_running t'" "\<not> tk_running t" "tk_fetcher t' = snd (fetcher_refresh parse rpc (tk_fetcher t))"
  using assms
  by (auto simp: tracker_start_def run_bind_eq_Done Let_def split: if_splits prod.splits sum.splits)

lemma buffer_follows_same_leader:
  assumes "buffer_follows cache old b" "slot div SLOTS_PER_LEADER = old div SLOTS_PER_LEADER"
  shows "buffer_follows cache slot b"
proof -
  have "unat slot div 4 = unat old div 4" using arg_cong [OF assms(2), of unat] by (simp add: unat_div)
  with assms show ?thesis by (simp add: buffer_follows_def leader_at_def base_of_def)
qed

text \<open>
  C1. The tracker keeps the leader buffer in step with the schedule, under three conditions. After a
  successful start that filled the buffer for the slot \<open>initial\<close>: the spin loop begins with a slot
  \<open>first\<close> of the same leader as \<open>initial\<close>; the slots it loads never go back and stay 80 slots away
  from the end of the range of \<open>u64\<close>; and every schedule cache it loads is well formed, as every
  refresh leaves it. Then, after any number of iterations, the loop has not panicked, and position
  \<open>i\<close> of the buffer holds the leader that a schedule gives for the \<open>i\<close>-th group of four slots from the
  last slot seen, with its first slot, where the schedule is the one of the start or one that the
  loop loaded; so it is the schedule itself when this did not change. Missed slots, jumps of ten and
  more leaders and the ends of the epoch are included. The current slot is stored as soon as it
  changes.
\<close>

theorem tracker_follows_schedule:
  assumes "tracker_start parse rpc connected waits initial t = Done (Inr (), t')"
    and "lb_wf (tk_buffer t)" "fetcher_wf (tk_fetcher t')" "slot_ok initial"
    and "0 < first" "first div SLOTS_PER_LEADER = initial div SLOTS_PER_LEADER"
    and "sorted (first # map fst obs)" "\<forall>(x, cache) \<in> set obs. slot_ok x \<and> fetcher_wf cache"
  shows "\<exists>s. busy_spin_loop (tk_buffer t') ((True, first, cache0) # map (\<lambda>(x, cache). (True, x, cache)) obs) = Done (False, s) \<and>
    (\<forall>i < LEADER_BUFFER_SIZE. \<exists>cache \<in> insert (tk_fetcher t') (snd ` set obs).
       lb_entries (spin_buffer s) ! i = leader_at cache (last (first # map fst obs)) i) \<and>
    (last (first # map fst obs) \<noteq> first \<longrightarrow> lb_current_slot (spin_buffer s) = last (first # map fst obs))"
proof -
  let ?C = "insert (tk_fetcher t') (snd ` set obs)"
  have "buffer_follows (tk_fetcher t') initial (tk_buffer t')"
    using update_buffer_follows [OF assms(3,4,2)] tracker_start_ok(1) [OF assms(1)] by auto
  then have "buffer_follows_one_of ?C first (tk_buffer t')"
    using assms(6) buffer_follows_same_leader by (blast intro: buffer_follows_one_ofI)
  then have "spin_follows first ?C first
      \<lparr>last_slot = first, last_leader_idx = first div SLOTS_PER_LEADER, spin_buffer = tk_buffer t'\<rparr>"
    by (simp add: spin_follows_def)
  moreover have "\<forall>(x, cache) \<in> set obs. slot_ok x \<and> fetcher_wf cache \<and> cache \<in> ?C" using assms(8) by force
  ultimately obtain s where
    "spin_main \<lparr>last_slot = first, last_leader_idx = first div SLOTS_PER_LEADER, spin_buffer = tk_buffer t'\<rparr>
       (map (\<lambda>(x, cache). (True, x, cache)) obs) = Done (False, s)"
    "spin_follows first ?C (last (first # map fst obs)) s"
    using spin_main_follows [OF _ assms(7), of first ?C] by blast
  then show ?thesis
    using assms(5) by (intro exI [of _ s]) (simp add: busy_spin_loop_def spin_follows_def buffer_follows_one_of_def)
qed

lemma demo_start:
  obtains t' where "tracker_start demo_parse demo_rpc True [(101, False)] 101 tracker_new = Done (Inr (), t')"
    "fetcher_wf (tk_fetcher t')" "lb_wf (tk_buffer tracker_new)"
proof -
  obtain cache where ref: "fetcher_refresh demo_parse demo_rpc None = (Inr (), cache)"
    by (simp add: fetcher_refresh_def demo_rpc_def demo_parse_def)
  have ok: "\<forall>info. get_epoch_info demo_rpc = Inr info \<longrightarrow> epoch_info_ok info"
    by (simp add: demo_rpc_def epoch_info_ok_def word_le_nat_alt)
  have wf: "fetcher_wf cache" by (rule fetcher_refresh_wf [OF _ ok ref]) (simp add: fetcher_wf_def)
  have "slot_ok 101" by (simp add: slot_ok_def)
  from update_buffer_follows [OF wf this lb_wf_new] obtain b where
    b: "update_buffer_from_schedule lb_new cache 101 = Done b" by blast
  show ?thesis
    by (rule that, simp add: tracker_start_def tracker_new_def fetcher_new_def ref b,
        simp_all add: tracker_new_def wf lb_wf_new)
qed

theorem tracker_follows_schedule_witness:
  "\<exists>t' s. tracker_start demo_parse demo_rpc True [(101, False)] 101 tracker_new = Done (Inr (), t') \<and>
     busy_spin_loop (tk_buffer t') [(True, 102, tk_fetcher t'), (True, 105, tk_fetcher t'), (True, 190, tk_fetcher t')] =
       Done (False, s) \<and>
     lb_entries (spin_buffer s) ! 3 = leader_at (tk_fetcher t') 190 3 \<and> lb_current_slot (spin_buffer s) = 190"
proof -
  obtain t' where t': "tracker_start demo_parse demo_rpc True [(101, False)] 101 tracker_new = Done (Inr (), t')"
    "fetcher_wf (tk_fetcher t')" "lb_wf (tk_buffer tracker_new)" by (rule demo_start)
  let ?obs = "[(105 :: u64, tk_fetcher t'), (190, tk_fetcher t')]"
  have "slot_ok 101" "(0 :: u64) < 102" "(102 :: u64) div 4 = 101 div 4" "sorted (102 # map fst ?obs)"
    "\<forall>(x, cache) \<in> set ?obs. slot_ok x \<and> fetcher_wf cache"
    using t'(2) by (simp_all add: slot_ok_def word_le_nat_alt word_less_nat_alt)
  from tracker_follows_schedule [OF t'(1,3,2) this, of "tk_fetcher t'"] t'(1) show ?thesis by auto
qed

text \<open>
  C31. The hand-over from start-up to the spin loop can lose leaders: the loop reads the slot
  afresh and takes the buffer to be filled for it. If the slot has moved on by \<open>k\<close> leaders since
  \<open>start\<close> filled the buffer, the next change of leader shifts a buffer that is \<open>k\<close> leaders behind,
  so every shifted position holds the leader of an earlier group of slots than its place says,
  while the current slot is up to date.
\<close>

theorem tracker_start_gap:
  assumes wf: "fetcher_wf cache" and b: "buffer_follows cache initial b" and ok: "slot_ok slot" "0 < first"
    and k: "unat first div 4 = unat initial div 4 + k" "0 < k"
    and n: "unat slot div 4 = unat first div 4 + n" "0 < n" "n < 10"
  shows "\<exists>s. busy_spin_loop b [(True, first, cache), (True, slot, cache)] = Done (False, s) \<and>
    lb_current_slot (spin_buffer s) = slot \<and>
    (\<forall>i < LEADER_BUFFER_SIZE - n. lb_entries (spin_buffer s) ! i = leader_at cache initial (i + n) \<and>
       unat (le_start_slot (lb_entries (spin_buffer s) ! i)) + 4 * k = unat slot div 4 * 4 + 4 * i)"
proof -
  have wfb: "lb_wf b" and ent: "\<And>i. i < 10 \<Longrightarrow> lb_entries b ! i = leader_at cache initial i"
    using b by (auto simp: buffer_follows_def)
  let ?b = "lb_shift_multiple (of_nat n) (map (\<lambda>j. sched_entry cache (unat slot div 4 * 4 + 4 * (10 - n) + 4 * j)) [0..<n]) slot b"
  have "sat_sub (slot div 4) (first div 4) = of_nat n"
    by (rule eq_of_nat) (use n in \<open>simp add: unat_sat_sub unat_div\<close>)
  moreover have "slot div 4 \<noteq> first div 4" using n by (simp add: word_unat_eq_iff unat_div)
  moreover from this have "slot \<noteq> first" by blast
  moreover have "\<not> (10 :: usize) \<le> of_nat n" using n by (simp add: word_le_nat_alt unat_of_nat)
  ultimately have loop: "busy_spin_loop b [(True, first, cache), (True, slot, cache)] =
      Done (False, \<lparr>last_slot = slot, last_leader_idx = slot div 4, spin_buffer = ?b\<rparr>)"
    using ok(2) fifo_shift_result [OF wf ok(1) n(2,3), of b] by (simp add: busy_spin_loop_def spin_iter_def)
  note spec = lb_shift_multiple_spec [OF wfb n(2,3) refl]
  have start: "unat (le_start_slot (leader_at cache initial (i + n))) + 4 * k = unat slot div 4 * 4 + 4 * i"
    if "i < 10 - n" for i
  proof -
    have "unat initial div 4 * 4 + 4 * (i + n) + 4 * k = unat slot div 4 * 4 + 4 * i" using k n by simp
    moreover have "unat initial div 4 * 4 + 4 * (i + n) < 2 ^ 64"
      using calculation ok(1) that unfolding slot_ok_def by linarith
    moreover have "unat (of_nat (i + n) * 4 :: u64) = 4 * (i + n)"
      using that n by (simp add: unat_word_ariths unat_of_nat)
    ultimately show ?thesis
      using unat_add_small [of "base_of initial" "of_nat (i + n) * 4"] unat_base [of initial]
      by (simp add: leader_at_def base_of_def)
  qed
  have "lb_entries ?b ! i = leader_at cache initial (i + n)" if "i < 10 - n" for i
    using spec(3) [OF that] ent [of "i + n"] that by simp
  with start loop spec(2) show ?thesis by simp
qed

theorem tracker_start_gap_witness:
  "\<exists>s. busy_spin_loop (lb_update 100 [] lb_new) [(True, 104, None), (True, 108, None)] = Done (False, s) \<and>
     unat (le_start_slot (lb_entries (spin_buffer s) ! 0)) + 4 = 108"
proof -
  have "slot_ok 100" by (simp add: slot_ok_def)
  from update_buffer_follows [OF _ this lb_wf_new, of None] obtain b where
    "update_buffer_from_schedule lb_new None 100 = Done b" "buffer_follows None 100 b"
    by (auto simp: fetcher_wf_def)
  moreover have "lb_update 100 (replicate 10 entry_EMPTY) lb_new = lb_update 100 [] lb_new"
  proof -
    have "leader_or_empty (replicate 10 entry_EMPTY) = leader_or_empty []" by (rule ext) (simp add: leader_or_empty_def)
    moreover have "length (lb_entries lb_new) = LEADER_BUFFER_SIZE" by (simp add: lb_new_def)
    ultimately show ?thesis
      by (intro leader_buffer.equality) (simp_all only: lb_update_entries, simp)
  qed
  ultimately have b: "buffer_follows None 100 (lb_update 100 [] lb_new)"
    by (simp add: update_buffer_from_schedule_def get_next_leaders_into_def)
  have "fetcher_wf None" "slot_ok 108" "(0 :: u64) < 104" by (simp_all add: fetcher_wf_def slot_ok_def word_less_nat_alt)
  from tracker_start_gap [OF this(1) b this(2,3), of 1 1] obtain s where
    s: "busy_spin_loop (lb_update 100 [] lb_new) [(True, 104, None), (True, 108, None)] = Done (False, s)"
    and "unat (le_start_slot (lb_entries (spin_buffer s) ! 0)) + 4 * 1 = unat (108 :: u64) div 4 * 4 + 4 * 0"
    by fastforce
  then show ?thesis by auto
qed

end
