(* ===== verification/Latency_Histogram.thy ===== *)
theory Latency_Histogram
  imports Land_Prelude "HOL-Library.Multiset"
begin

text \<open>
  The latency histogram of \<open>src/timing/src/histogram.rs\<close>: 64 buckets, one per power of two, with
  the number, sum, minimum and maximum of the samples.

  The counters are 64-bit words. The rank that \<open>percentiles\<close> looks for is a product in floating
  point, \<open>(count as f64 * p / 100.0) as u64\<close>; it is the argument \<open>rank\<close> here, and what is shown
  of a percentile holds for every rank. The retry loops of \<open>update_min\<close> and \<open>update_max\<close> are
  driven by the value that each compare-exchange finds.
\<close>

abbreviation NUM_BUCKETS :: nat where "NUM_BUCKETS \<equiv> 64"

record histogram =
  h_buckets :: "u64 list"
  h_count :: u64
  h_sum :: u64
  h_min :: u64
  h_max :: u64

definition histogram_new :: histogram where
  "histogram_new = \<lparr>h_buckets = replicate NUM_BUCKETS 0, h_count = 0, h_sum = 0, h_min = - 1, h_max = 0\<rparr>"

text \<open>\<open>u64::leading_zeros\<close>.\<close>

definition leading_zeros :: "u64 \<Rightarrow> nat" where
  "leading_zeros v = length (takeWhile (\<lambda>i. \<not> bit v i) (rev [0..<64]))"

definition value_to_bucket :: "u64 \<Rightarrow> nat" where
  "value_to_bucket v = (if v = 0 then 0 else min (63 - leading_zeros v) (NUM_BUCKETS - 1))"

definition bucket_to_value :: "nat \<Rightarrow> u64" where
  "bucket_to_value b = (if b = 0 then 0 else push_bit b 1)"

text \<open>
  The compare-exchange loops: \<open>current\<close> is the value loaded last, each observation the value in
  memory at the exchange and whether a weak exchange fails for no reason. The result is the
  value stored, if any.
\<close>

fun update_min_loop :: "u64 \<Rightarrow> u64 \<Rightarrow> (u64 \<times> bool) list \<Rightarrow> u64 option run" where
  "update_min_loop v current obs =
     (if \<not> v < current then Done None
      else case obs of
        [] \<Rightarrow> Blocked
      | (actual, spurious) # obs' \<Rightarrow>
          if actual = current \<and> \<not> spurious then Done (Some v) else update_min_loop v actual obs')"

fun update_max_loop :: "u64 \<Rightarrow> u64 \<Rightarrow> (u64 \<times> bool) list \<Rightarrow> u64 option run" where
  "update_max_loop v current obs =
     (if \<not> current < v then Done None
      else case obs of
        [] \<Rightarrow> Blocked
      | (actual, spurious) # obs' \<Rightarrow>
          if actual = current \<and> \<not> spurious then Done (Some v) else update_max_loop v actual obs')"

declare update_min_loop.simps [simp del] update_max_loop.simps [simp del]

text \<open>The updates by one thread, where the exchange finds the value that was loaded.\<close>

definition update_min :: "u64 \<Rightarrow> histogram \<Rightarrow> histogram" where
  "update_min v h =
     (case update_min_loop v (h_min h) [(h_min h, False)] of Done (Some m) \<Rightarrow> h\<lparr>h_min := m\<rparr> | _ \<Rightarrow> h)"

definition update_max :: "u64 \<Rightarrow> histogram \<Rightarrow> histogram" where
  "update_max v h =
     (case update_max_loop v (h_max h) [(h_max h, False)] of Done (Some m) \<Rightarrow> h\<lparr>h_max := m\<rparr> | _ \<Rightarrow> h)"

definition record_value :: "u64 \<Rightarrow> histogram \<Rightarrow> histogram" where
  "record_value value_ns h =
     (if value_ns = 0 then h
      else
        let bucket = value_to_bucket value_ns;
            h1 = h\<lparr>h_buckets := (h_buckets h)[bucket := h_buckets h ! bucket + 1]\<rparr>;
            h2 = h1\<lparr>h_count := h_count h1 + 1\<rparr>;
            h3 = h2\<lparr>h_sum := h_sum h2 + value_ns\<rparr>
        in update_max value_ns (update_min value_ns h3))"

definition histogram_clear :: "histogram \<Rightarrow> histogram" where
  "histogram_clear h = h\<lparr>h_buckets := map (\<lambda>_. 0) (h_buckets h), h_count := 0, h_sum := 0, h_min := - 1, h_max := 0\<rparr>"

definition histogram_min :: "histogram \<Rightarrow> u64" where
  "histogram_min h = (if h_min h = - 1 then 0 else h_min h)"

definition histogram_mean :: "histogram \<Rightarrow> u64" where
  "histogram_mean h = (if h_count h = 0 then 0 else h_sum h div h_count h)"

text \<open>The cumulated bucket counts, and the first bucket that reaches the rank.\<close>

fun cumulate :: "u64 \<Rightarrow> nat \<Rightarrow> u64 list \<Rightarrow> (u64 \<times> u64) list" where
  "cumulate cumulative i [] = []"
| "cumulate cumulative i (b # bs) = (bucket_to_value i, cumulative + b) # cumulate (cumulative + b) (Suc i) bs"

fun find_bucket :: "u64 \<Rightarrow> (u64 \<times> u64) list \<Rightarrow> u64" where
  "find_bucket target [] = 0"
| "find_bucket target ((bucket_value, cum_count) # bs) =
     (if target \<le> cum_count then bucket_value else find_bucket target bs)"

definition percentiles :: "(u64 \<Rightarrow> 'p \<Rightarrow> u64) \<Rightarrow> histogram \<Rightarrow> 'p list \<Rightarrow> u64 list" where
  "percentiles rank h ps =
     (if h_count h = 0 then replicate (length ps) 0
      else
        let buckets = cumulate 0 0 (h_buckets h)
        in map (\<lambda>p. find_bucket (max (rank (h_count h) p) 1) buckets) ps)"

section \<open>Buckets are binary logarithms\<close>

lemma leading_zeros_top:
  assumes "bit v k" "k < 64" "\<And>i. k < i \<Longrightarrow> i < 64 \<Longrightarrow> \<not> bit (v :: u64) i"
  shows "leading_zeros v = 63 - k"
proof -
  have "[0..<64] = [0..<k] @ k # [Suc k..<64]"
    using upt_add_eq_append [of 0 k "64 - k"] upt_conv_Cons [OF assms(2)] assms(2) by simp
  then have "rev [0..<64] = rev [Suc k..<64] @ k # rev [0..<k]" by simp
  moreover have "takeWhile (\<lambda>i. \<not> bit v i) (rev [Suc k..<64] @ k # rev [0..<k]) = rev [Suc k..<64]"
    by (subst takeWhile_append2) (use assms in auto)
  ultimately have "takeWhile (\<lambda>i. \<not> bit v i) (rev [0..<64]) = rev [Suc k..<64]" by (simp only:)
  then show ?thesis unfolding leading_zeros_def by (simp only: length_rev length_upt)
qed

lemma top_bit_exists:
  assumes "v \<noteq> (0 :: u64)"
  obtains k where "bit v k" "k < 64" "\<And>i. k < i \<Longrightarrow> \<not> bit v i"
proof -
  have fin: "{i. bit v i} \<subseteq> {..<64}"
  proof
    fix i assume "i \<in> {i. bit v i}"
    then have "i < LENGTH(64)" by (intro bit_imp_le_length) simp
    then show "i \<in> {..<64}" by simp
  qed
  obtain j where "bit v j" using assms bit_eq_iff [of v 0] by (metis bit_0_eq bot_apply bot_bool_def)
  then have ne: "{i. bit v i} \<noteq> {}" by blast
  let ?k = "Max {i. bit v i}"
  have finite: "finite {i. bit v i}" by (rule finite_subset [OF fin]) simp
  have k: "?k \<in> {i. bit v i}" using finite ne by (rule Max_in)
  have above: "\<not> bit v i" if "?k < i" for i using Max_ge [OF finite, of i] that by (metis CollectI leD)
  have "bit v ?k" using k by (rule CollectD)
  moreover have "?k < 64" using k fin by blast
  ultimately show ?thesis using above by (rule that)
qed

lemma bucket_bounds_nat:
  assumes "v \<noteq> (0 :: u64)"
  shows "value_to_bucket v < 64" "2 ^ value_to_bucket v \<le> unat v" "unat v < 2 ^ Suc (value_to_bucket v)"
proof -
  obtain k where k: "bit v k" "k < 64" "\<And>i. k < i \<Longrightarrow> \<not> bit v i" using top_bit_exists [OF assms] by blast
  have b: "value_to_bucket v = k"
    using assms k leading_zeros_top [OF k(1,2)] by (simp add: value_to_bucket_def)
  show "value_to_bucket v < 64" using b k(2) by simp
  have bn: "bit (unat v) i = bit v i" for i by (auto simp: bit_unsigned_iff dest: bit_imp_le_length)
  have "take_bit (Suc k) (unat v) = unat v"
  proof (rule bit_eqI)
    fix n
    show "bit (take_bit (Suc k) (unat v)) n = bit (unat v) n"
      using k(3) [of n] by (cases "n < Suc k") (simp_all add: bit_take_bit_iff bn)
  qed
  then show "unat v < 2 ^ Suc (value_to_bucket v)" unfolding b by (metis take_bit_nat_less_exp)
  show "2 ^ value_to_bucket v \<le> unat v"
  proof (rule ccontr)
    assume "\<not> 2 ^ value_to_bucket v \<le> unat v"
    then have "unat v div 2 ^ k = 0" by (simp add: b)
    then show False using k(1) bn [of k] by (simp add: bit_iff_odd)
  qed
qed

lemma bucket_mono: "x \<noteq> 0 \<Longrightarrow> x \<le> y \<Longrightarrow> value_to_bucket x \<le> value_to_bucket y"
proof -
  assume x: "x \<noteq> 0" "x \<le> y"
  then have y: "y \<noteq> 0" by auto
  have "(2 :: nat) ^ value_to_bucket x < 2 ^ Suc (value_to_bucket y)"
    using bucket_bounds_nat(2) [OF x(1)] bucket_bounds_nat(3) [OF y] x(2) by (simp add: word_le_nat_alt)
  then have "value_to_bucket x < Suc (value_to_bucket y)" by (rule power_less_imp_less_exp [rotated]) simp
  then show ?thesis by simp
qed

section \<open>What has been recorded\<close>

definition histogram_of :: "u64 list \<Rightarrow> histogram" where
  "histogram_of xs = fold record_value xs histogram_new"

definition recorded :: "u64 list \<Rightarrow> u64 list" where
  "recorded xs = filter (\<lambda>x. x \<noteq> 0) xs"

text \<open>The fields of the histogram, in terms of the samples that are not zero.\<close>

definition hist_inv :: "u64 list \<Rightarrow> histogram \<Rightarrow> bool" where
  "hist_inv ys h \<longleftrightarrow> length (h_buckets h) = NUM_BUCKETS \<and>
     (\<forall>b < NUM_BUCKETS. h_buckets h ! b = of_nat (length (filter (\<lambda>y. value_to_bucket y = b) ys))) \<and>
     h_count h = of_nat (length ys) \<and> h_sum h = sum_list ys \<and>
     h_min h = fold min ys (- 1) \<and> h_max h = fold max ys 0"

lemma update_min_eq: "update_min v h = h\<lparr>h_min := min (h_min h) v\<rparr>"
  by (simp add: update_min_def update_min_loop.simps min_def)

lemma update_max_eq: "update_max v h = h\<lparr>h_max := max (h_max h) v\<rparr>"
  by (auto simp: update_max_def update_max_loop.simps max_def)

lemma hist_inv_record:
  assumes "hist_inv ys h"
  shows "hist_inv (if v = 0 then ys else ys @ [v]) (record_value v h)"
proof (cases "v = 0")
  case True
  then show ?thesis using assms by (simp add: record_value_def)
next
  case False
  note b = bucket_bounds_nat(1) [OF False]
  have "length (h_buckets h) = 64" using assms by (simp add: hist_inv_def)
  then have "h_buckets (record_value v h) ! i = of_nat (length (filter (\<lambda>y. value_to_bucket y = i) (ys @ [v])))"
    if "i < 64" for i
    using assms that b False
    by (simp add: record_value_def update_min_eq update_max_eq Let_def hist_inv_def nth_list_update add.commute)
  moreover have "fold min (ys @ [v]) (- 1) = min (fold min ys (- 1)) v" "fold max (ys @ [v]) 0 = max (fold max ys 0) v"
    by (simp_all add: min.commute max.commute)
  ultimately show ?thesis
    using assms False
    by (simp add: hist_inv_def) (simp add: record_value_def update_min_eq update_max_eq Let_def add.commute)
qed

lemma hist_inv_fold: "hist_inv ys h \<Longrightarrow> hist_inv (ys @ recorded xs) (fold record_value xs h)"
proof (induction xs arbitrary: ys h)
  case Nil
  then show ?case by (simp add: recorded_def)
next
  case (Cons x xs)
  from Cons.IH [OF hist_inv_record [OF Cons.prems, of x]] show ?case
    by (simp add: recorded_def split: if_splits)
qed

lemma hist_inv_of: "hist_inv (recorded xs) (histogram_of xs)"
proof -
  have "hist_inv [] histogram_new" by (simp add: hist_inv_def histogram_new_def)
  from hist_inv_fold [OF this, of xs] show ?thesis by (simp add: histogram_of_def)
qed

lemma fold_min_Min: "ys \<noteq> [] \<Longrightarrow> fold min ys (- 1 :: u64) = Min (set ys)"
proof -
  assume ne: "ys \<noteq> []"
  have "fold min ys (- 1) = Min (insert (- 1) (set ys))" by (simp add: Min.set_eq_fold [symmetric])
  also have "\<dots> = min (- 1) (Min (set ys))" using ne by (simp add: Min_insert)
  also have "\<dots> = Min (set ys)" by (rule min_absorb2) simp
  finally show ?thesis .
qed

lemma fold_max_Max: "ys \<noteq> [] \<Longrightarrow> fold max ys (0 :: u64) = Max (set ys)"
proof -
  assume ne: "ys \<noteq> []"
  have "fold max ys 0 = Max (insert 0 (set ys))" by (simp add: Max.set_eq_fold [symmetric])
  also have "\<dots> = max 0 (Max (set ys))" using ne by (simp add: Max_insert)
  also have "\<dots> = Max (set ys)" by (simp add: max_def)
  finally show ?thesis .
qed

section \<open>Percentiles are order statistics\<close>

lemma find_cumulate:
  assumes "m < length bs" "\<And>i. i < m \<Longrightarrow> \<not> t \<le> acc + sum_list (take (Suc i) bs)"
    and "t \<le> acc + sum_list (take (Suc m) bs)"
  shows "find_bucket t (cumulate acc k bs) = bucket_to_value (k + m)"
  using assms
proof (induction bs arbitrary: acc k m)
  case Nil
  then show ?case by simp
next
  case (Cons b bs)
  show ?case
  proof (cases m)
    case 0
    then show ?thesis using Cons.prems by simp
  next
    case (Suc m')
    have "find_bucket t (cumulate (acc + b) (Suc k) bs) = bucket_to_value (Suc k + m')"
    proof (rule Cons.IH)
      show "m' < length bs" using Cons.prems(1) Suc by simp
      show "\<not> t \<le> acc + b + sum_list (take (Suc i) bs)" if "i < m'" for i
        using Cons.prems(2) [of "Suc i"] that Suc by (simp add: add.assoc)
      show "t \<le> acc + b + sum_list (take (Suc m') bs)" using Cons.prems(3) Suc by (simp add: add.assoc)
    qed
    moreover have "\<not> t \<le> acc + b" using Cons.prems(2) [of 0] Suc by simp
    ultimately show ?thesis using Suc by simp
  qed
qed

lemma sorted_filter_prefix:
  assumes "sorted zs" "r < length zs" "\<And>x y. x \<in> set zs \<Longrightarrow> x \<le> y \<Longrightarrow> P y \<Longrightarrow> P x"
  shows "Suc r \<le> length (filter P zs) \<longleftrightarrow> P (zs ! r)"
  using assms
proof (induction zs arbitrary: r)
  case Nil
  then show ?case by simp
next
  case (Cons z zs)
  show ?case
  proof (cases "P z")
    case True
    then show ?thesis
    proof (cases r)
      case 0
      then show ?thesis using True by simp
    next
      case (Suc r')
      have "Suc r' \<le> length (filter P zs) \<longleftrightarrow> P (zs ! r')"
        using Cons.prems Suc by (intro Cons.IH) auto
      then show ?thesis using True Suc by simp
    qed
  next
    case False
    have "\<not> P y" if "y \<in> set (z # zs)" for y
      using False Cons.prems(1) Cons.prems(3) [of z y] that by auto
    then have "filter P (z # zs) = []" "\<not> P ((z # zs) ! r)"
      using nth_mem [OF Cons.prems(2)] by (simp_all only: filter_empty_conv simp_thms ball_simps) blast+
    then show ?thesis by simp
  qed
qed

lemma length_filter_le_Suc:
  "length (filter (\<lambda>y. f y \<le> Suc i) ys) = length (filter (\<lambda>y. f y \<le> i) ys) + length (filter (\<lambda>y. f y = Suc i) (ys :: 'a list))"
  for f :: "'a \<Rightarrow> nat"
  by (induction ys) auto

lemma cumulated_count:
  assumes "hist_inv ys h" "i < 64"
  shows "sum_list (take (Suc i) (h_buckets h)) = of_nat (length (filter (\<lambda>y. value_to_bucket y \<le> i) ys))"
  using assms(2)
proof (induction i)
  case 0
  then show ?case using assms(1) by (simp add: hist_inv_def take_Suc_conv_app_nth)
next
  case (Suc i)
  have "sum_list (take (Suc (Suc i)) (h_buckets h)) = sum_list (take (Suc i) (h_buckets h)) + h_buckets h ! Suc i"
    using Suc.prems assms(1) by (simp add: hist_inv_def take_Suc_conv_app_nth [of "Suc i"])
  with Suc assms(1) show ?case by (simp add: hist_inv_def length_filter_le_Suc)
qed

text \<open>The bucket that a rank falls into is the bucket of the sample of that rank.\<close>

lemma find_rank:
  assumes inv: "hist_inv ys h" and nz: "0 \<notin> set ys" and small: "length ys < 2 ^ 64"
    and t: "0 < unat t" "unat t \<le> length ys"
  shows "find_bucket t (cumulate 0 0 (h_buckets h)) = bucket_to_value (value_to_bucket (sort ys ! (unat t - 1)))"
proof -
  let ?z = "sort ys ! (unat t - 1)" and ?m = "value_to_bucket (sort ys ! (unat t - 1))"
  have z: "?z \<in> set ys" using t nth_mem [of "unat t - 1" "sort ys"] by simp
  then have m: "?m < 64" using nz bucket_bounds_nat(1) [of ?z] by metis
  have rank: "t \<le> sum_list (take (Suc i) (h_buckets h)) \<longleftrightarrow> ?m \<le> i" if i: "i < 64" for i
  proof -
    let ?P = "\<lambda>y. value_to_bucket y \<le> i"
    have len: "length (filter ?P ys) = length (filter ?P (sort ys))" by (simp add: filter_sort)
    have "length (filter ?P ys) < 2 ^ 64" using small by (rule le_less_trans [OF length_filter_le])
    then have "unat (of_nat (length (filter ?P ys)) :: u64) = length (filter ?P ys)"
      by (simp add: unat_of_nat)
    then have "t \<le> sum_list (take (Suc i) (h_buckets h)) \<longleftrightarrow> unat t \<le> length (filter ?P ys)"
      unfolding cumulated_count [OF inv i] word_le_nat_alt by simp
    also have "\<dots> \<longleftrightarrow> Suc (unat t - 1) \<le> length (filter ?P (sort ys))" using t len by simp
    also have "\<dots> \<longleftrightarrow> ?m \<le> i"
    proof (rule sorted_filter_prefix)
      show "value_to_bucket x \<le> i" if "x \<in> set (sort ys)" "x \<le> y" "value_to_bucket y \<le> i" for x y
      proof -
        have "x \<noteq> 0" using that(1) nz by auto
        from bucket_mono [OF this that(2)] that(3) show ?thesis by simp
      qed
    qed (use t in auto)
    finally show ?thesis .
  qed
  have "length (h_buckets h) = 64" using inv by (simp add: hist_inv_def)
  with m rank have "find_bucket t (cumulate 0 0 (h_buckets h)) = bucket_to_value (0 + ?m)"
    by (intro find_cumulate) auto
  then show ?thesis by simp
qed

lemma find_rank_none:
  assumes "hist_inv ys h" "length ys < 2 ^ 64" "length ys < unat t"
  shows "find_bucket t (cumulate 0 0 (h_buckets h)) = 0"
proof -
  have short: "\<not> t \<le> sum_list (take (Suc i) (h_buckets h))" if "i < length (h_buckets h)" for i
  proof -
    have "length (filter (\<lambda>y. value_to_bucket y \<le> i) ys) < unat t"
      by (rule le_less_trans [OF length_filter_le assms(3)])
    moreover have "length (filter (\<lambda>y. value_to_bucket y \<le> i) ys) < 2 ^ 64"
      by (rule le_less_trans [OF length_filter_le assms(2)])
    moreover have "i < 64" using that assms(1) by (simp add: hist_inv_def)
    ultimately show ?thesis
      using cumulated_count [OF assms(1)] by (simp add: word_le_nat_alt unat_of_nat)
  qed
  have "find_bucket t (cumulate acc k bs) = 0"
    if "\<And>i. i < length bs \<Longrightarrow> \<not> t \<le> acc + sum_list (take (Suc i) bs)" for acc k bs
    using that
  proof (induction bs arbitrary: acc k)
    case Nil
    then show ?case by simp
  next
    case (Cons b bs)
    have "\<not> t \<le> acc + b" using Cons.prems [of 0] by simp
    moreover have "find_bucket t (cumulate (acc + b) (Suc k) bs) = 0"
      using Cons.prems [of "Suc i" for i] by (intro Cons.IH) (simp add: add.assoc)
    ultimately show ?case by simp
  qed
  from this [of "h_buckets h" 0 0] short show ?thesis by simp
qed

text \<open>The value reported for a sample: zero for one nanosecond, else the power of two at or below it.\<close>

lemma bucket_floor:
  assumes "z \<noteq> (0 :: u64)" and v: "v = bucket_to_value (value_to_bucket z)"
  shows "(z = 1 \<longrightarrow> v = 0) \<and> (z \<noteq> 1 \<longrightarrow> (\<exists>k. v = 2 ^ k) \<and> v \<le> z \<and> unat z < 2 * unat v)"
proof -
  note b = bucket_bounds_nat [OF assms(1)]
  show ?thesis
  proof (cases "value_to_bucket z = 0")
    case True
    then have "unat z = 1" using b(2,3) by simp
    then have "z = 1" by (simp add: word_unat_eq_iff)
    then show ?thesis using True by (simp add: v bucket_to_value_def)
  next
    case False
    then have "v = 2 ^ value_to_bucket z" by (simp add: v bucket_to_value_def)
    moreover have "z \<noteq> 1" using False b(2) self_le_power [of "2 :: nat" "value_to_bucket z"] by auto
    ultimately show ?thesis using b unat_pow2 [OF b(1)] by (auto simp: word_le_nat_alt)
  qed
qed

text \<open>
  C32. A percentile reports the exact order statistic, rounded down to a power of two. Let \<open>r\<close> be
  the rank that the code computes, at least 1, and \<open>ys\<close> the non-zero samples in ascending order.
  If \<open>r\<close> is not above the number of samples, the \<open>r\<close>-th smallest sample decides: for a sample of
  1 ns the value reported is 0, for every other sample it is a power of two, at most the sample
  and more than half of it. If \<open>r\<close> is above the number of samples, 0 is reported. This holds for
  fewer than \<open>2 ^ 64\<close> calls, whatever the samples and their order.
\<close>

theorem percentile_order_statistic:
  assumes "length xs < 2 ^ 64" "ys = sort (recorded xs)"
    and "r = unat (max (rank (h_count (histogram_of xs)) p) 1)"
  shows "\<exists>v. percentiles rank (histogram_of xs) [p] = [v] \<and>
    (length ys < r \<longrightarrow> v = 0) \<and>
    (r \<le> length ys \<and> ys ! (r - 1) = 1 \<longrightarrow> v = 0) \<and>
    (r \<le> length ys \<and> ys ! (r - 1) \<noteq> 1 \<longrightarrow>
       (\<exists>k. v = 2 ^ k) \<and> v \<le> ys ! (r - 1) \<and> unat (ys ! (r - 1)) < 2 * unat v)"
proof -
  let ?t = "max (rank (h_count (histogram_of xs)) p) 1"
  let ?v = "find_bucket ?t (cumulate 0 0 (h_buckets (histogram_of xs)))"
  have small: "length (recorded xs) < 2 ^ 64"
    unfolding recorded_def by (rule le_less_trans [OF length_filter_le assms(1)])
  have nz: "0 \<notin> set (recorded xs)" by (simp add: recorded_def)
  have "1 \<le> ?t" by simp
  then have r: "0 < r" by (simp add: assms(3) word_le_nat_alt)
  have cnt: "unat (h_count (histogram_of xs)) = length ys"
    using hist_inv_of [of xs] small by (simp add: hist_inv_def unat_of_nat assms(2))
  have "\<exists>v. percentiles rank (histogram_of xs) [p] = [v] \<and> (ys \<noteq> [] \<longrightarrow> v = ?v) \<and> (ys = [] \<longrightarrow> v = 0)"
    using cnt by (cases "ys = []") (auto simp: percentiles_def unat_eq_zero)
  moreover have "?v = 0" if "length ys < r"
    using find_rank_none [OF hist_inv_of small] that by (simp add: assms(2,3))
  moreover have "?v = bucket_to_value (value_to_bucket (ys ! (r - 1)))" "ys ! (r - 1) \<noteq> 0" "ys \<noteq> []"
    if "r \<le> length ys"
  proof -
    show "?v = bucket_to_value (value_to_bucket (ys ! (r - 1)))"
      using find_rank [OF hist_inv_of nz small] r that by (simp add: assms(2,3))
    have "ys ! (r - 1) \<in> set ys" using r that by simp
    then show "ys ! (r - 1) \<noteq> 0" using nz by (metis assms(2) set_sort)
    show "ys \<noteq> []" using r that by auto
  qed
  ultimately show ?thesis
    using bucket_floor [of "ys ! (r - 1)" ?v] by (metis leD le_less_linear)
qed

theorem percentile_order_statistic_witness:
  "\<exists>v. percentiles (\<lambda>count p. count * p div 100) (histogram_of [900, 0, 1, 100]) [99] = [v] \<and>
     (\<exists>k. v = 2 ^ k) \<and> v \<le> 100 \<and> 50 < unat v"
proof -
  let ?xs = "[900, 0, 1, 100 :: u64]"
  have rec: "recorded ?xs = [900, 1, 100]" by (simp add: recorded_def)
  have srt: "sort (recorded ?xs) = [1, 100, 900]" unfolding rec by (simp add: word_le_nat_alt)
  have cnt: "h_count (histogram_of ?xs) = 3" using hist_inv_of [of ?xs] by (simp add: hist_inv_def rec)
  have r: "2 = unat (max (h_count (histogram_of ?xs) * 99 div 100) (1 :: u64))" unfolding cnt by simp
  show ?thesis
    using percentile_order_statistic [where p = "99 :: u64" and rank = "\<lambda>count p. count * p div 100",
      OF _ srt [symmetric] r] by auto
qed

text \<open>
  The compare-exchange loops in terms of what is in memory: \<open>loaded\<close> lists the values the loop has
  in hand, the first load and then what each failed exchange returned; \<open>failed_rounds n\<close> says that
  the first \<open>n\<close> rounds wanted to store and that their exchange failed.
\<close>

definition loaded :: "u64 \<Rightarrow> (u64 \<times> bool) list \<Rightarrow> u64 list" where
  "loaded current obs = current # map fst obs"

definition failed_rounds :: "(u64 \<Rightarrow> bool) \<Rightarrow> u64 \<Rightarrow> (u64 \<times> bool) list \<Rightarrow> nat \<Rightarrow> bool" where
  "failed_rounds wants current obs n \<longleftrightarrow>
     n \<le> length obs \<and> (\<forall>j < n. wants (loaded current obs ! j) \<and> obs ! j \<noteq> (loaded current obs ! j, False))"

lemma failed_rounds_0 [simp]: "failed_rounds wants current obs 0"
  by (simp add: failed_rounds_def)

lemma failed_rounds_Suc [simp]:
  "failed_rounds wants current (ob # obs) (Suc n) \<longleftrightarrow>
     wants current \<and> ob \<noteq> (current, False) \<and> failed_rounds wants (fst ob) obs n"
  by (auto simp: failed_rounds_def loaded_def All_less_Suc2)

lemma loaded_nth [simp]: "loaded current obs ! 0 = current" "loaded current (ob # obs) ! Suc n = loaded (fst ob) obs ! n"
  by (simp_all add: loaded_def)

lemma failed_rounds_ex:
  "(\<exists>n. failed_rounds wants current (ob # obs) n \<and> P n) \<longleftrightarrow>
     P 0 \<or> (wants current \<and> ob \<noteq> (current, False) \<and> (\<exists>n. failed_rounds wants (fst ob) obs n \<and> P (Suc n)))"
  by (metis failed_rounds_0 failed_rounds_Suc nat.exhaust)

lemma failed_rounds_Nil [simp]: "failed_rounds wants current [] n \<longleftrightarrow> n = 0"
  by (auto simp: failed_rounds_def)

lemma update_min_loop_result:
  "(update_min_loop v current obs = Done None \<longleftrightarrow>
      (\<exists>n. failed_rounds (\<lambda>c. v < c) current obs n \<and> loaded current obs ! n \<le> v)) \<and>
   (update_min_loop v current obs = Done (Some m) \<longleftrightarrow>
      (\<exists>n. failed_rounds (\<lambda>c. v < c) current obs n \<and>
         n < length obs \<and> obs ! n = (loaded current obs ! n, False) \<and> v < loaded current obs ! n \<and> m = v))"
proof (induction obs arbitrary: current)
  case Nil
  then show ?case by (auto simp: update_min_loop.simps not_less)
next
  case (Cons ob obs)
  obtain a sp where ob: "ob = (a, sp)" by (cases ob)
  show ?case
    unfolding failed_rounds_ex update_min_loop.simps [of v current "ob # obs"] using Cons.IH [of a]
    by (auto simp: ob not_less)
qed

lemma update_max_loop_result:
  "(update_max_loop v current obs = Done None \<longleftrightarrow>
      (\<exists>n. failed_rounds (\<lambda>c. c < v) current obs n \<and> v \<le> loaded current obs ! n)) \<and>
   (update_max_loop v current obs = Done (Some m) \<longleftrightarrow>
      (\<exists>n. failed_rounds (\<lambda>c. c < v) current obs n \<and>
         n < length obs \<and> obs ! n = (loaded current obs ! n, False) \<and> loaded current obs ! n < v \<and> m = v))"
proof (induction obs arbitrary: current)
  case Nil
  then show ?case by (auto simp: update_max_loop.simps not_less)
next
  case (Cons ob obs)
  obtain a sp where ob: "ob = (a, sp)" by (cases ob)
  show ?case
    unfolding failed_rounds_ex update_max_loop.simps [of v current "ob # obs"] using Cons.IH [of a]
    by (auto simp: ob not_less)
qed

lemma value_to_bucket_iff:
  "y \<noteq> 0 \<Longrightarrow> value_to_bucket y = k \<longleftrightarrow> 2 ^ k \<le> unat y \<and> unat y < 2 ^ Suc k"
proof
  assume y: "y \<noteq> 0" "2 ^ k \<le> unat y \<and> unat y < 2 ^ Suc k"
  note b = bucket_bounds_nat [OF y(1)]
  have "(2 :: nat) ^ k < 2 ^ Suc (value_to_bucket y)" "(2 :: nat) ^ value_to_bucket y < 2 ^ Suc k"
    using b y(2) by linarith+
  then have "k < Suc (value_to_bucket y)" "value_to_bucket y < Suc k"
    using power_less_imp_less_exp [of "2 :: nat"] by (simp_all only: one_less_numeral_iff semiring_norm)
  then show "value_to_bucket y = k" by simp
qed (use bucket_bounds_nat in blast)

text \<open>
  C33. The statistics are those of the recorded samples. After any sequence of fewer than \<open>2 ^ 64\<close>
  calls, bucket \<open>k\<close> holds the number of non-zero samples from \<open>2 ^ k\<close> up to \<open>2 ^ (k + 1)\<close>, and the
  count is the number of all of them; the sum is their sum modulo \<open>2 ^ 64\<close>; minimum and maximum
  are theirs (a minimum of \<open>u64::MAX\<close> is reported as zero); clearing gives the empty histogram.
  Under contention, the loops that update minimum and maximum store exactly in the first round
  whose exchange finds the value in hand, and give up exactly when the value in hand, reloaded
  from each failed exchange, is no longer beaten.
\<close>

theorem histogram_statistics:
  assumes "length xs < 2 ^ 64" "ys = recorded xs" "h = histogram_of xs"
  shows "unat (h_count h) = length ys \<and>
    (\<forall>k < NUM_BUCKETS. unat (h_buckets h ! k) = length (filter (\<lambda>y. 2 ^ k \<le> unat y \<and> unat y < 2 ^ Suc k) ys)) \<and>
    h_sum h = sum_list ys \<and> histogram_clear h = histogram_new \<and>
    (ys \<noteq> [] \<longrightarrow> h_max h = Max (set ys) \<and> histogram_min h = (if Min (set ys) = - 1 then 0 else Min (set ys))) \<and>
    (ys = [] \<longrightarrow> h_max h = 0 \<and> histogram_min h = 0) \<and>
    (update_min_loop v current obs = Done None \<longleftrightarrow>
       (\<exists>n. failed_rounds (\<lambda>c. v < c) current obs n \<and> loaded current obs ! n \<le> v)) \<and>
    (update_min_loop v current obs = Done (Some m) \<longleftrightarrow>
       (\<exists>n. failed_rounds (\<lambda>c. v < c) current obs n \<and>
          n < length obs \<and> obs ! n = (loaded current obs ! n, False) \<and> v < loaded current obs ! n \<and> m = v)) \<and>
    (update_max_loop v current obs = Done None \<longleftrightarrow>
       (\<exists>n. failed_rounds (\<lambda>c. c < v) current obs n \<and> v \<le> loaded current obs ! n)) \<and>
    (update_max_loop v current obs = Done (Some m) \<longleftrightarrow>
       (\<exists>n. failed_rounds (\<lambda>c. c < v) current obs n \<and>
          n < length obs \<and> obs ! n = (loaded current obs ! n, False) \<and> loaded current obs ! n < v \<and> m = v))"
proof -
  have inv: "hist_inv ys h" unfolding assms(2,3) by (rule hist_inv_of)
  have small: "length ys < 2 ^ 64"
    unfolding assms(2) recorded_def by (rule le_less_trans [OF length_filter_le assms(1)])
  have bucket: "unat (h_buckets h ! k) = length (filter (\<lambda>y. 2 ^ k \<le> unat y \<and> unat y < 2 ^ Suc k) ys)"
    if "k < NUM_BUCKETS" for k
  proof -
    have "length (filter (\<lambda>y. value_to_bucket y = k) ys) < 2 ^ 64"
      by (rule le_less_trans [OF length_filter_le small])
    then have "unat (h_buckets h ! k) = length (filter (\<lambda>y. value_to_bucket y = k) ys)"
      using inv that by (simp add: hist_inv_def unat_of_nat)
    also have "filter (\<lambda>y. value_to_bucket y = k) ys = filter (\<lambda>y. 2 ^ k \<le> unat y \<and> unat y < 2 ^ Suc k) ys"
      using value_to_bucket_iff by (intro filter_cong) (auto simp: assms(2) recorded_def)
    finally show ?thesis .
  qed
  have count: "unat (h_count h) = length ys" using inv small by (simp add: hist_inv_def unat_of_nat)
  have clear: "histogram_clear h = histogram_new"
    using inv by (simp add: hist_inv_def histogram_clear_def histogram_new_def map_replicate_const)
  have mm: "h_min h = fold min ys (- 1)" "h_max h = fold max ys 0" "h_sum h = sum_list ys"
    using inv by (simp_all add: hist_inv_def)
  have "(ys \<noteq> [] \<longrightarrow> h_max h = Max (set ys) \<and> histogram_min h = (if Min (set ys) = - 1 then 0 else Min (set ys))) \<and>
      (ys = [] \<longrightarrow> h_max h = 0 \<and> histogram_min h = 0)"
    using mm fold_min_Min [of ys] fold_max_Max [of ys] by (simp add: histogram_min_def)
  then show ?thesis
    using bucket count clear mm update_min_loop_result [of v current obs m] update_max_loop_result [of v current obs m]
    by blast
qed

theorem histogram_statistics_witness:
  "h_max (histogram_of [900, 0, 1, 100]) = 900 \<and> histogram_min (histogram_of [900, 0, 1, 100]) = 1"
proof -
  have rec: "recorded [900, 0, 1, 100 :: u64] = [900, 1, 100]" by (simp add: recorded_def)
  have "Max (set [900, 1, 100 :: u64]) = 900" "Min (set [900, 1, 100 :: u64]) = 1"
    by (simp_all add: max_def min_def word_le_nat_alt)
  with histogram_statistics [of "[900, 0, 1, 100]", OF _ rec [symmetric] refl] show ?thesis by simp
qed

end
