(* ===== verification/Text_Bytes.thy ===== *)
theory Text_Bytes
  imports Land_Prelude "HOL-Library.Sublist"
begin

text \<open>
  Byte strings. A \<open>char\<close> of HOL is one byte, so a \<open>Vec<u8>\<close>, a \<open>&[u8]\<close> and the UTF-8 bytes of a
  \<open>&str\<close> are all of type \<open>string\<close>. This theory holds what the HTTP, JSON-RPC and base64 code uses of
  Rust's standard library and of \<open>itoa\<close> on them (decimal numbers, trimming, splitting, ASCII case)
  and the facts about finding a delimiter that the parsers share.
\<close>

type_synonym bytes = string

section \<open>Decimal numbers\<close>

definition digit :: "nat \<Rightarrow> char" where
  "digit d = char_of (48 + d)"

definition is_ascii_digit :: "char \<Rightarrow> bool" where
  "is_ascii_digit c \<longleftrightarrow> 48 \<le> (of_char c :: nat) \<and> (of_char c :: nat) \<le> 57"

definition digit_val :: "char \<Rightarrow> nat" where
  "digit_val c = of_char c - 48"

fun show_nat :: "nat \<Rightarrow> bytes" where
  "show_nat n = (if n < 10 then [digit n] else show_nat (n div 10) @ [digit (n mod 10)])"

declare show_nat.simps [simp del]

text \<open>The value of a string of digits, at unbounded width.\<close>

definition digits_val :: "bytes \<Rightarrow> nat" where
  "digits_val s = foldl (\<lambda>v c. v * 10 + digit_val c) 0 s"

lemma of_char_digit: "d < 10 \<Longrightarrow> (of_char (digit d) :: nat) = 48 + d"
  by (simp add: digit_def of_char_of)

lemma is_ascii_digit_digit [simp]: "d < 10 \<Longrightarrow> is_ascii_digit (digit d)"
  by (simp add: is_ascii_digit_def of_char_digit)

lemma digit_val_digit [simp]: "d < 10 \<Longrightarrow> digit_val (digit d) = d"
  by (simp add: digit_val_def of_char_digit)

lemma show_nat_digits: "c \<in> set (show_nat n) \<Longrightarrow> is_ascii_digit c"
proof (induction n rule: show_nat.induct)
  case (1 n)
  then show ?case by (subst (asm) show_nat.simps) (auto split: if_splits)
qed

lemma show_nat_ne [simp]: "show_nat n \<noteq> []"
  by (subst show_nat.simps) simp

lemma digits_val_snoc [simp]: "digits_val (s @ [c]) = digits_val s * 10 + digit_val c"
  by (simp add: digits_val_def)

lemma digits_val_show [simp]: "digits_val (show_nat n) = n"
proof (induction n rule: show_nat.induct)
  case (1 n)
  show ?case
  proof (cases "n < 10")
    case True
    then show ?thesis by (subst show_nat.simps) (simp add: digits_val_def)
  next
    case False
    then have "digits_val (show_nat n) = digits_val (show_nat (n div 10)) * 10 + n mod 10"
      by (subst show_nat.simps) simp
    with 1 False show ?thesis by simp
  qed
qed

lemma length_show_nat: "length (show_nat n) = (if n < 10 then 1 else Suc (length (show_nat (n div 10))))"
  by (subst show_nat.simps) simp

section \<open>White space\<close>

text \<open>The UTF-8 encodings of the characters of Unicode's \<open>White_Space\<close> property.\<close>

definition white_space :: "bytes list" where
  "white_space = map (map char_of) ([[0x09], [0x0a], [0x0b], [0x0c], [0x0d], [0x20], [0xc2, 0x85], [0xc2, 0xa0],
     [0xe1, 0x9a, 0x80], [0xe2, 0x80, 0xa8], [0xe2, 0x80, 0xa9], [0xe2, 0x80, 0xaf], [0xe2, 0x81, 0x9f], [0xe3, 0x80, 0x80]]
     @ map (\<lambda>k. [0xe2, 0x80, k]) [0x80..<0x8b :: nat])"

definition leading_space :: "bytes \<Rightarrow> nat" where
  "leading_space s = (case find (\<lambda>w. prefix w s) white_space of Some w \<Rightarrow> length w | None \<Rightarrow> 0)"

definition trailing_space :: "bytes \<Rightarrow> nat" where
  "trailing_space s = (case find (\<lambda>w. suffix w s) white_space of Some w \<Rightarrow> length w | None \<Rightarrow> 0)"

text \<open>\<open>str::trim\<close>; every round that removes anything shortens the string, so its length bounds the rounds.\<close>

definition trim_start :: "bytes \<Rightarrow> bytes" where
  "trim_start s = ((\<lambda>s. drop (leading_space s) s) ^^ length s) s"

definition trim_end :: "bytes \<Rightarrow> bytes" where
  "trim_end s = ((\<lambda>s. take (length s - trailing_space s) s) ^^ length s) s"

definition trim :: "bytes \<Rightarrow> bytes" where
  "trim s = trim_end (trim_start s)"

text \<open>Printable ASCII: the characters that are neither white space nor part of a longer encoding.\<close>

definition is_graph :: "char \<Rightarrow> bool" where
  "is_graph c \<longleftrightarrow> 0x21 \<le> (of_char c :: nat) \<and> (of_char c :: nat) \<le> 0x7e"

lemma white_space_edges: "w \<in> set white_space \<Longrightarrow> w \<noteq> [] \<and> \<not> is_graph (hd w) \<and> \<not> is_graph (last w)"
  by (auto simp: white_space_def is_graph_def of_char_of)

lemma leading_space_graph: "s \<noteq> [] \<Longrightarrow> is_graph (hd s) \<Longrightarrow> leading_space s = 0"
proof -
  assume s: "s \<noteq> []" "is_graph (hd s)"
  have "\<not> prefix w s" if "w \<in> set white_space" for w
    using s white_space_edges [OF that] by (cases w; cases s) auto
  then have "find (\<lambda>w. prefix w s) white_space = None" by (simp add: find_None_iff)
  then show ?thesis by (simp add: leading_space_def)
qed

lemma trailing_space_graph: "s \<noteq> [] \<Longrightarrow> is_graph (last s) \<Longrightarrow> trailing_space s = 0"
proof -
  assume s: "s \<noteq> []" "is_graph (last s)"
  have "\<not> suffix w s" if "w \<in> set white_space" for w
  proof
    assume "suffix w s"
    then obtain p where "s = p @ w" by (auto simp: suffix_def)
    with s white_space_edges [OF that] show False by auto
  qed
  then have "find (\<lambda>w. suffix w s) white_space = None" by (simp add: find_None_iff)
  then show ?thesis by (simp add: trailing_space_def)
qed

lemma funpow_fixpoint: "f x = x \<Longrightarrow> (f ^^ n) x = x"
  by (induction n) simp_all

lemma trim_graph:
  assumes "s = [] \<or> is_graph (hd s) \<and> is_graph (last s)"
  shows "trim s = s"
proof (cases "s = []")
  case True
  then show ?thesis by (simp add: trim_def trim_start_def trim_end_def)
next
  case False
  with assms have "drop (leading_space s) s = s" "take (length s - trailing_space s) s = s"
    by (simp_all add: leading_space_graph trailing_space_graph)
  then have "trim_start s = s" "trim_end s = s"
    unfolding trim_start_def trim_end_def by (auto intro!: funpow_fixpoint)
  then show ?thesis by (simp add: trim_def)
qed

lemma is_ascii_digit_graph: "is_ascii_digit c \<Longrightarrow> is_graph c"
  by (simp add: is_ascii_digit_def is_graph_def)

end
