(* ===== verification/Base64_Codec.thy ===== *)
theory Base64_Codec
  imports Text_Bytes
begin

text \<open>
  The base64 decoder of \<open>src/server/src/request.rs\<close>, against the encoding of RFC 4648 that clients
  send. Decoded bytes are 8-bit words; the encoder \<open>b64_encode\<close> is the specification, it stands for
  the \<open>base64\<close> crate's \<open>STANDARD\<close> engine of \<open>src/client/src/request.rs\<close>.
\<close>

unbundle bit_operations_syntax

definition DECODE_TABLE :: "char \<Rightarrow> u8" where
  "DECODE_TABLE c =
     (let n = (of_char c :: nat) in
      if 65 \<le> n \<and> n < 65 + 26 then of_nat (n - 65)
      else if 97 \<le> n \<and> n < 97 + 26 then of_nat (n - 97) + 26
      else if 48 \<le> n \<and> n < 48 + 10 then of_nat (n - 48) + 52
      else if c = CHR ''+'' then 62
      else if c = CHR ''/'' then 63
      else 255)"

definition b64_error :: "nat \<Rightarrow> string" where
  "b64_error i = ''Invalid base64 character at position '' @ show_nat i"

fun decode_loop :: "nat \<Rightarrow> bytes \<Rightarrow> u8 list \<Rightarrow> string + u8 list" where
  "decode_loop i (w # x # y # z # rest) output =
     (let a = DECODE_TABLE w;
          b = DECODE_TABLE x;
          c = DECODE_TABLE y;
          d = DECODE_TABLE z
      in if a = 255 \<or> b = 255 then Inl (b64_error i)
      else
        let output = output @ [push_bit 2 a OR drop_bit 4 b]
        in if y \<noteq> CHR ''='' \<and> c = 255 then Inl (b64_error (i + 2))
        else
          let output = (if y \<noteq> CHR ''='' then output @ [push_bit 4 b OR drop_bit 2 c] else output)
          in if z \<noteq> CHR ''='' \<and> d = 255 then Inl (b64_error (i + 3))
          else
            let output = (if z \<noteq> CHR ''='' then output @ [push_bit 6 c OR d] else output)
            in decode_loop (i + 4) rest output)"
| "decode_loop i _ output = Inr output"

definition base64_decode :: "bytes \<Rightarrow> string + u8 list" where
  "base64_decode input =
     (let input_bytes = trim input;
          padding = length (takeWhile (\<lambda>b. b = CHR ''='') (rev input_bytes));
          input_len = length input_bytes - padding
      in if input_len = 0 then Inr [] else decode_loop 0 input_bytes [])"

section \<open>The encoding\<close>

definition alphabet :: string where
  "alphabet = ''ABCDEFGHIJKLMNOPQRSTUVWXYZabcdefghijklmnopqrstuvwxyz0123456789+/''"

definition sextet :: "u8 \<Rightarrow> char" where
  "sextet w = alphabet ! unat w"

text \<open>The four groups of six bits of three bytes.\<close>

definition sx1 :: "u8 \<Rightarrow> u8" where "sx1 a = drop_bit 2 a"

definition sx2 :: "u8 \<Rightarrow> u8 \<Rightarrow> u8" where "sx2 a b = push_bit 4 (a AND 3) OR drop_bit 4 b"

definition sx3 :: "u8 \<Rightarrow> u8 \<Rightarrow> u8" where "sx3 b c = push_bit 2 (b AND 15) OR drop_bit 6 c"

definition sx4 :: "u8 \<Rightarrow> u8" where "sx4 c = c AND 63"

fun b64_encode :: "u8 list \<Rightarrow> bytes" where
  "b64_encode (a # b # c # rest) =
     [sextet (sx1 a), sextet (sx2 a b), sextet (sx3 b c), sextet (sx4 c)] @ b64_encode rest"
| "b64_encode [a, b] = [sextet (sx1 a), sextet (sx2 a b), sextet (sx3 b 0), CHR ''='']"
| "b64_encode [a] = [sextet (sx1 a), sextet (sx2 a 0), CHR ''='', CHR ''='']"
| "b64_encode [] = []"

lemma alphabet_table:
  "map DECODE_TABLE alphabet = map of_nat [0..<64]" "list_all (\<lambda>c. c \<noteq> CHR ''='' \<and> is_graph c) alphabet" "length alphabet = 64"
  by (simp_all add: alphabet_def DECODE_TABLE_def is_graph_def of_char_def upt_conv_Cons)

lemma decode_sextet:
  assumes "w < 64"
  shows "DECODE_TABLE (sextet w) = w" "sextet w \<noteq> CHR ''=''" "is_graph (sextet w)" "w \<noteq> 255"
proof -
  have i: "unat w < 64" using assms by (simp add: word_less_nat_alt)
  have "map DECODE_TABLE alphabet ! unat w = map of_nat [0..<64] ! unat w" by (rule arg_cong [OF alphabet_table(1)])
  then have "DECODE_TABLE (alphabet ! unat w) = w" using i by (simp add: alphabet_table(3) del: upt_rec_numeral)
  moreover have "alphabet ! unat w \<noteq> CHR ''='' \<and> is_graph (alphabet ! unat w)"
    using alphabet_table(2,3) i by (simp add: list_all_length)
  ultimately show "DECODE_TABLE (sextet w) = w" "sextet w \<noteq> CHR ''=''" "is_graph (sextet w)" by (simp_all add: sextet_def)
  show "w \<noteq> 255" using assms by (auto simp: word_less_nat_alt)
qed

text \<open>Bytes bit by bit.\<close>

lemma u8_bit_out: "8 \<le> n \<Longrightarrow> \<not> bit (w :: u8) n"
  using bit_imp_le_length [of w n] by auto

lemma u8_eqI:
  assumes "bit v 0 = bit w 0" "bit v 1 = bit w 1" "bit v 2 = bit w 2" "bit v 3 = bit w 3"
    "bit v 4 = bit w 4" "bit v 5 = bit w 5" "bit v 6 = bit w 6" "bit v 7 = bit w 7"
  shows "v = (w :: u8)"
proof (rule bit_word_eqI)
  fix n assume "n < LENGTH(8)"
  then have "n = 0 \<or> n = 1 \<or> n = 2 \<or> n = 3 \<or> n = 4 \<or> n = 5 \<or> n = 6 \<or> n = 7" by simp linarith
  then show "bit v n = bit w n" using assms by (elim disjE) (simp_all only:)
qed

lemma u8_less_64: "\<not> bit w 6 \<Longrightarrow> \<not> bit w 7 \<Longrightarrow> (w :: u8) < 64"
proof -
  assume a: "\<not> bit w 6" "\<not> bit w 7"
  have "take_bit 6 w = w" by (rule u8_eqI) (use a in \<open>simp_all add: bit_take_bit_iff\<close>)
  then have "take_bit 6 (unat w) = unat w" by (metis unsigned_take_bit_eq)
  then have "unat w < 2 ^ 6" by (metis take_bit_nat_less_exp)
  then show ?thesis by (simp add: word_less_nat_alt)
qed

lemma u8_masks: "(3 :: u8) = mask 2" "(15 :: u8) = mask 4" "(63 :: u8) = mask 6"
  by (simp_all add: mask_eq_exp_minus_1)

lemmas u8_bits = u8_masks bit_or_iff bit_and_iff bit_push_bit_iff bit_drop_bit_eq bit_mask_iff u8_bit_out

lemma sextets_small: "sx1 a < 64" "sx2 a b < 64" "sx3 b c < 64" "sx4 c < 64"
  unfolding sx1_def sx2_def sx3_def sx4_def by (rule u8_less_64; simp add: u8_bits)+

lemma recombine:
  "push_bit 2 (sx1 a) OR drop_bit 4 (sx2 a b) = a" "push_bit 4 (sx2 a b) OR drop_bit 2 (sx3 b c) = b"
  "push_bit 6 (sx3 b c) OR sx4 c = c"
  unfolding sx1_def sx2_def sx3_def sx4_def by (rule u8_eqI; simp add: u8_bits)+

section \<open>Decoding what was encoded\<close>

lemma decode_loop_encode: "decode_loop i (b64_encode bs) out = Inr (out @ bs)"
proof (induction bs arbitrary: i out rule: b64_encode.induct)
  case (1 a b c rest)
  then show ?case by (simp add: decode_sextet sextets_small recombine Let_def)
next
  case (2 a b)
  then show ?case by (simp add: decode_sextet sextets_small recombine Let_def)
next
  case (3 a)
  then show ?case by (simp add: decode_sextet sextets_small recombine Let_def)
next
  case 4
  then show ?case by simp
qed

lemma b64_encode_graph: "c \<in> set (b64_encode bs) \<Longrightarrow> is_graph c"
proof -
  have "is_graph (CHR ''='')" by (simp add: is_graph_def)
  then show "c \<in> set (b64_encode bs) \<Longrightarrow> is_graph c"
    by (induction bs rule: b64_encode.induct) (auto simp: decode_sextet sextets_small)
qed

lemma b64_encode_start: "bs \<noteq> [] \<Longrightarrow> \<exists>w rest. b64_encode bs = w # rest \<and> w \<noteq> CHR ''=''"
  by (cases bs rule: b64_encode.cases) (auto simp: decode_sextet sextets_small)

lemma padding_short: "x \<in> set s \<Longrightarrow> \<not> P x \<Longrightarrow> length (takeWhile P (rev s)) < length s"
proof -
  assume "x \<in> set s" "\<not> P x"
  then have "takeWhile P (rev s) \<noteq> rev s" by (metis set_rev takeWhile_eq_all_conv)
  then show ?thesis by (metis length_rev length_takeWhile_le nat_less_le takeWhile_eq_take take_all_iff)
qed

lemma trim_b64: "trim (b64_encode bs) = b64_encode bs"
proof (rule trim_graph)
  show "b64_encode bs = [] \<or> is_graph (hd (b64_encode bs)) \<and> is_graph (last (b64_encode bs))"
    using b64_encode_graph [of _ bs] by (cases "b64_encode bs = []") simp_all
qed

lemma base64_decode_encode: "base64_decode (b64_encode bs) = Inr bs"
proof (cases "bs = []")
  case True
  then show ?thesis by (simp add: base64_decode_def trim_graph)
next
  case False
  then obtain w rest where w: "b64_encode bs = w # rest" "w \<noteq> CHR ''=''" using b64_encode_start by blast
  have "length (takeWhile (\<lambda>b. b = CHR ''='') (rev (b64_encode bs))) < length (b64_encode bs)"
    by (rule padding_short [of w]) (simp_all add: w)
  then show ?thesis by (simp add: base64_decode_def trim_b64 decode_loop_encode Let_def)
qed

text \<open>
  C34. Decoding is the inverse of the RFC 4648 encoding for every byte string, the empty one and
  all three lengths of the last group included: the transaction that the server hands on is the
  one the client encoded.
\<close>

theorem base64_roundtrip: "base64_decode (b64_encode bs) = Inr bs"
  by (rule base64_decode_encode)

lemma decode_loop_short: "length t < 4 \<Longrightarrow> decode_loop i t out = Inr out"
  by (cases "(i, t, out)" rule: decode_loop.cases) auto

lemma decode_loop_tail:
  assumes "length t < 4" "length xs mod 4 = 0"
  shows "decode_loop i (xs @ t) out = decode_loop i xs out"
  using assms(2)
proof (induction "length xs" arbitrary: xs i out rule: less_induct)
  case less
  show ?case
  proof (cases "xs = []")
    case True
    then show ?thesis using assms(1) by (simp add: decode_loop_short)
  next
    case False
    then have "4 \<le> length xs" using less.prems by (cases "length xs < 4") auto
    then obtain w x y z rest where xs: "xs = w # x # y # z # rest"
      by (cases xs; cases "tl xs"; cases "tl (tl xs)"; cases "tl (tl (tl xs))") auto
    have "length rest mod 4 = 0" using less.prems xs by simp
    then have "decode_loop j (rest @ t) o' = decode_loop j rest o'" for j o' using xs by (intro less.hyps) simp_all
    then show ?thesis unfolding xs by (simp add: Let_def)
  qed
qed

section \<open>Which texts decode\<close>

text \<open>
  The texts that the decoder takes: nothing but padding, or complete groups of four characters whose
  first two are letters of the alphabet and whose last two are letters or the padding sign. What
  follows the last complete group is not looked at.
\<close>

definition base64_ok :: "bytes \<Rightarrow> bool" where
  "base64_ok s \<longleftrightarrow> (let t = trim s in set t \<subseteq> {CHR ''=''} \<or>
     (\<forall>j < 4 * (length t div 4). t ! j \<in> set alphabet \<or> (2 \<le> j mod 4 \<and> t ! j = CHR ''='')))"

lemma DECODE_TABLE_valid: "DECODE_TABLE c \<noteq> 255 \<longleftrightarrow> c \<in> set alphabet"
proof
  assume "c \<in> set alphabet"
  then obtain k where k: "k < 64" "c = alphabet ! k" by (auto simp: in_set_conv_nth alphabet_table(3))
  then have "unat (of_nat k :: u8) = k" by (simp add: unat_of_nat)
  with k show "DECODE_TABLE c \<noteq> 255"
    using decode_sextet [of "of_nat k"] by (simp add: sextet_def word_less_nat_alt)
next
  assume a: "DECODE_TABLE c \<noteq> 255"
  have range: "list_all (\<lambda>n. char_of n \<in> set alphabet) ([65..<91] @ [97..<123] @ [48..<58 :: nat])"
    "CHR ''+'' \<in> set alphabet" "CHR ''/'' \<in> set alphabet"
    by code_simp+
  let ?n = "of_char c :: nat"
  have "?n \<in> set ([65..<91] @ [97..<123] @ [48..<58]) \<or> c = CHR ''+'' \<or> c = CHR ''/''"
    using a by (auto simp add: DECODE_TABLE_def Let_def simp del: upt_rec_numeral split: if_splits)
  then consider "?n \<in> set ([65..<91] @ [97..<123] @ [48..<58])" | "c = CHR ''+''" | "c = CHR ''/''" by blast
  then show "c \<in> set alphabet"
  proof cases
    case 1
    have "char_of ?n \<in> set alphabet" by (rule bspec [OF range(1) [unfolded list.pred_set] 1])
    then show ?thesis by simp
  qed (use range in \<open>simp_all only:\<close>)
qed

lemma four_split: "4 \<le> length t \<Longrightarrow> \<exists>w x y z rest. t = w # x # y # z # rest"
  by (cases t; cases "tl t"; cases "tl (tl t)"; cases "tl (tl (tl t))") auto

lemma group_index:
  "(\<forall>j < 4 * ((4 + length rest) div 4). P j ((w # x # y # z # rest) ! j)) \<longleftrightarrow>
     P 0 w \<and> P (Suc 0) x \<and> P (Suc (Suc 0)) y \<and> P (Suc (Suc (Suc 0))) z \<and>
     (\<forall>j < 4 * (length rest div 4). P (Suc (Suc (Suc (Suc j)))) (rest ! j))"
proof -
  have "4 * ((4 + length rest) div 4) = Suc (Suc (Suc (Suc (4 * (length rest div 4)))))" by presburger
  then show ?thesis by (simp only: All_less_Suc2 nth_Cons_0 nth_Cons_Suc)
qed

lemma Suc4_mod: "Suc (Suc (Suc (Suc j))) mod 4 = j mod 4"
  by presburger

lemma decode_loop_ok:
  "(\<exists>bs. decode_loop i t out = Inr bs) \<longleftrightarrow>
     (\<forall>j < 4 * (length t div 4). t ! j \<in> set alphabet \<or> (2 \<le> j mod 4 \<and> t ! j = CHR ''=''))"
proof (induction "length t" arbitrary: t i out rule: less_induct)
  case less
  show ?case
  proof (cases "4 \<le> length t")
    case False
    then show ?thesis by (simp add: decode_loop_short)
  next
    case True
    then obtain w x y z rest where t: "t = w # x # y # z # rest" using four_split by blast
    have IH: "(\<exists>bs. decode_loop k rest o' = Inr bs) \<longleftrightarrow>
        (\<forall>j < 4 * (length rest div 4). rest ! j \<in> set alphabet \<or> (2 \<le> j mod 4 \<and> rest ! j = CHR ''=''))" for k o'
      using less.hyps [of rest] t by simp
    have "(\<exists>bs. decode_loop i t out = Inr bs) \<longleftrightarrow>
        w \<in> set alphabet \<and> x \<in> set alphabet \<and> (y = CHR ''='' \<or> y \<in> set alphabet) \<and> (z = CHR ''='' \<or> z \<in> set alphabet) \<and>
        (\<forall>j < 4 * (length rest div 4). rest ! j \<in> set alphabet \<or> (2 \<le> j mod 4 \<and> rest ! j = CHR ''=''))"
      unfolding t by (simp add: Let_def IH flip: DECODE_TABLE_valid)
    moreover have "(\<forall>j < 4 * (length t div 4). t ! j \<in> set alphabet \<or> (2 \<le> j mod 4 \<and> t ! j = CHR ''='')) \<longleftrightarrow>
        w \<in> set alphabet \<and> x \<in> set alphabet \<and> (y \<in> set alphabet \<or> y = CHR ''='') \<and> (z \<in> set alphabet \<or> z = CHR ''='') \<and>
        (\<forall>j < 4 * (length rest div 4). rest ! j \<in> set alphabet \<or> (2 \<le> j mod 4 \<and> rest ! j = CHR ''=''))"
      unfolding t using group_index [of rest "\<lambda>j c. c \<in> set alphabet \<or> (2 \<le> j mod 4 \<and> c = CHR ''='')" w x y z]
      by (simp add: Suc4_mod)
    ultimately show ?thesis by blast
  qed
qed

lemma base64_decode_ok: "(\<exists>bs. base64_decode s = Inr bs) \<longleftrightarrow> base64_ok s"
proof -
  let ?t = "trim s" and ?p = "\<lambda>b. b = CHR ''=''"
  have "length (takeWhile ?p (rev ?t)) = length ?t \<longleftrightarrow> takeWhile ?p (rev ?t) = rev ?t"
  proof
    assume "length (takeWhile ?p (rev ?t)) = length ?t"
    moreover have "takeWhile ?p (rev ?t) = take (length (takeWhile ?p (rev ?t))) (rev ?t)" by (rule takeWhile_eq_take)
    ultimately show "takeWhile ?p (rev ?t) = rev ?t" by (metis length_rev order_refl take_all)
  qed (metis length_rev)
  also have "\<dots> \<longleftrightarrow> set ?t \<subseteq> {CHR ''=''}" unfolding takeWhile_eq_all_conv by auto
  finally have "length (takeWhile ?p (rev ?t)) = length ?t \<longleftrightarrow> set ?t \<subseteq> {CHR ''=''}" .
  moreover have "length (takeWhile ?p (rev ?t)) \<le> length ?t" using length_takeWhile_le [of ?p "rev ?t"] by simp
  ultimately have "length ?t - length (takeWhile ?p (rev ?t)) = 0 \<longleftrightarrow> set ?t \<subseteq> {CHR ''=''}" by linarith
  then show ?thesis
    by (cases "set ?t \<subseteq> {CHR ''=''}") (simp_all add: base64_decode_def base64_ok_def Let_def decode_loop_ok)
qed

text \<open>
  C38. The decoder drops an incomplete last group without an error. Text whose last group has one
  to three characters, such as base64 without its padding, decodes to what the full groups give,
  so the server accepts and forwards a truncated transaction.
\<close>

theorem base64_drops_tail:
  assumes "bs \<noteq> []" "length t < 4" "\<forall>c \<in> set t. is_graph c"
  shows "base64_decode (b64_encode bs @ t) = Inr bs"
proof -
  obtain w rest where w: "b64_encode bs = w # rest" "w \<noteq> CHR ''=''" using b64_encode_start assms(1) by blast
  have len: "length (b64_encode bs) mod 4 = 0" by (induction bs rule: b64_encode.induct) auto
  have "is_graph (last (b64_encode bs @ t))" "is_graph (hd (b64_encode bs @ t))"
    using assms(3) b64_encode_graph [of _ bs] w(1) by (auto simp: last_append)
  then have trim: "trim (b64_encode bs @ t) = b64_encode bs @ t" by (intro trim_graph) simp
  have "length (takeWhile (\<lambda>b. b = CHR ''='') (rev (b64_encode bs @ t))) < length (b64_encode bs @ t)"
    by (rule padding_short [of w]) (simp_all add: w)
  then show ?thesis
    unfolding base64_decode_def trim Let_def by (simp add: decode_loop_tail [OF assms(2) len] decode_loop_encode)
qed

theorem base64_drops_tail_witness:
  "base64_decode (b64_encode [72, 101, 108] @ ''bG8'') = Inr [72, 101, 108]"
  by (rule base64_drops_tail) (simp_all add: is_graph_def)

end
