(* ===== verification/Rpc_Request.thy ===== *)
theory Rpc_Request
  imports Base64_Codec
begin

text \<open>
  JSON-RPC requests and responses of \<open>src/server/src/request.rs\<close> and the errors of
  \<open>src/server/src/error.rs\<close>. A JSON value is of an arbitrary type \<open>'v\<close>: \<open>serde_json\<close> is not part of
  the repository, and its conversion of the parameters is the argument \<open>from_value\<close>, with the
  text of the error it reports. The payload of an error that wraps a foreign error is that
  error's text.
\<close>

datatype server_error =
    Io string
  | JsonParse string
  | InvalidRequest string
  | MethodNotFound string
  | InvalidParams string
  | InternalError string
  | QueueFull
  | InvalidHttp string
  | Base64Decode string
  | ChannelSend
  | ChannelReceive

fun server_error_display :: "server_error \<Rightarrow> string" where
  "server_error_display (Io e) = ''I/O error: '' @ e"
| "server_error_display (JsonParse e) = ''JSON parse error: '' @ e"
| "server_error_display (InvalidRequest e) = ''Invalid JSON-RPC request: '' @ e"
| "server_error_display (MethodNotFound e) = ''Method not found: '' @ e"
| "server_error_display (InvalidParams e) = ''Invalid parameters: '' @ e"
| "server_error_display (InternalError e) = ''Internal error: '' @ e"
| "server_error_display QueueFull = ''Queue full''"
| "server_error_display (InvalidHttp e) = ''Invalid HTTP request: '' @ e"
| "server_error_display (Base64Decode e) = ''Base64 decode error: '' @ e"
| "server_error_display ChannelSend = ''Channel send error''"
| "server_error_display ChannelReceive = ''Channel receive error''"

fun to_rpc_code :: "server_error \<Rightarrow> int" where
  "to_rpc_code (JsonParse _) = - 32700"
| "to_rpc_code (InvalidRequest _) = - 32600"
| "to_rpc_code (MethodNotFound _) = - 32601"
| "to_rpc_code (InvalidParams _) = - 32602"
| "to_rpc_code (Base64Decode _) = - 32602"
| "to_rpc_code _ = - 32603"

fun to_rpc_message :: "server_error \<Rightarrow> string" where
  "to_rpc_message (JsonParse _) = ''Parse error''"
| "to_rpc_message (InvalidRequest _) = ''Invalid Request''"
| "to_rpc_message (MethodNotFound _) = ''Method not found''"
| "to_rpc_message (InvalidParams _) = ''Invalid params''"
| "to_rpc_message (Base64Decode _) = ''Invalid params''"
| "to_rpc_message _ = ''Internal error''"

definition to_rpc_data :: "server_error \<Rightarrow> string option" where
  "to_rpc_data e = Some (server_error_display e)"

record 'v json_rpc_request =
  rq_jsonrpc :: string
  rq_id :: 'v
  rq_method :: string
  rq_params :: 'v

record send_transaction_params =
  sp_transaction :: string
  sp_fanout :: usize
  sp_target_slot :: u64
  sp_neighbor_fanout :: "usize option"

record 'v parsed_request =
  pr_id :: 'v
  pr_transaction :: "u8 list"
  pr_fanout :: usize
  pr_target_slot :: u64
  pr_neighbor_fanout :: "usize option"

definition rq_validate :: "'v json_rpc_request \<Rightarrow> server_error + unit" where
  "rq_validate req =
     (if rq_jsonrpc req \<noteq> ''2.0'' then Inl (InvalidRequest (''Invalid jsonrpc version: '' @ rq_jsonrpc req)) else Inr ())"

definition decode_base64 :: "string \<Rightarrow> server_error + u8 list" where
  "decode_base64 s = (case base64_decode s of Inl e \<Rightarrow> Inl (Base64Decode e) | Inr bs \<Rightarrow> Inr bs)"

definition from_rpc_request ::
  "('v \<Rightarrow> string + send_transaction_params) \<Rightarrow> 'v json_rpc_request \<Rightarrow> server_error + 'v parsed_request" where
  "from_rpc_request from_value req =
     (case rq_validate req of
        Inl e \<Rightarrow> Inl e
      | Inr _ \<Rightarrow>
          if rq_method req \<noteq> ''sendTransaction'' then Inl (MethodNotFound (rq_method req))
          else case from_value (rq_params req) of
            Inl e \<Rightarrow> Inl (InvalidParams e)
          | Inr params \<Rightarrow>
              (case decode_base64 (sp_transaction params) of
                 Inl e \<Rightarrow> Inl e
               | Inr transaction \<Rightarrow>
                   if sp_fanout params = 0 then Inl (InvalidParams ''fanout must be greater than 0'')
                   else if (case sp_neighbor_fanout params of Some nf \<Rightarrow> 8 < nf | None \<Rightarrow> False)
                   then Inl (InvalidParams ''neighbor_fanout must be between 0 and 8'')
                   else Inr \<lparr>pr_id = rq_id req, pr_transaction = transaction, pr_fanout = sp_fanout params,
                     pr_target_slot = sp_target_slot params, pr_neighbor_fanout = sp_neighbor_fanout params\<rparr>))"

record json_rpc_error =
  je_code :: int
  je_message :: string
  je_data :: "string option"

record 'v json_rpc_response =
  rs_jsonrpc :: string
  rs_id :: 'v
  rs_result :: "'v option"
  rs_error :: "json_rpc_error option"

definition rpc_success :: "'v \<Rightarrow> 'v \<Rightarrow> 'v json_rpc_response" where
  "rpc_success i result = \<lparr>rs_jsonrpc = ''2.0'', rs_id = i, rs_result = Some result, rs_error = None\<rparr>"

definition rpc_error :: "'v \<Rightarrow> json_rpc_error \<Rightarrow> 'v json_rpc_response" where
  "rpc_error i err = \<lparr>rs_jsonrpc = ''2.0'', rs_id = i, rs_result = None, rs_error = Some err\<rparr>"

definition from_server_error :: "server_error \<Rightarrow> json_rpc_error" where
  "from_server_error err = \<lparr>je_code = to_rpc_code err, je_message = to_rpc_message err, je_data = to_rpc_data err\<rparr>"

definition rpc_from_error :: "'v \<Rightarrow> server_error \<Rightarrow> 'v json_rpc_response" where
  "rpc_from_error i err = rpc_error i (from_server_error err)"

lemma from_rpc_request_cases:
  "from_rpc_request from_value req =
     (if rq_jsonrpc req \<noteq> ''2.0'' then Inl (InvalidRequest (''Invalid jsonrpc version: '' @ rq_jsonrpc req))
      else if rq_method req \<noteq> ''sendTransaction'' then Inl (MethodNotFound (rq_method req))
      else case from_value (rq_params req) of
        Inl e \<Rightarrow> Inl (InvalidParams e)
      | Inr params \<Rightarrow>
          (case base64_decode (sp_transaction params) of
             Inl e \<Rightarrow> Inl (Base64Decode e)
           | Inr t \<Rightarrow>
               if sp_fanout params = 0 then Inl (InvalidParams ''fanout must be greater than 0'')
               else if \<exists>nf. sp_neighbor_fanout params = Some nf \<and> 8 < nf
               then Inl (InvalidParams ''neighbor_fanout must be between 0 and 8'')
               else Inr \<lparr>pr_id = rq_id req, pr_transaction = t, pr_fanout = sp_fanout params,
                 pr_target_slot = sp_target_slot params, pr_neighbor_fanout = sp_neighbor_fanout params\<rparr>))"
proof (cases "from_value (rq_params req)")
  case (Inl e)
  then show ?thesis by (simp add: from_rpc_request_def rq_validate_def)
next
  case (Inr params)
  then show ?thesis
    by (cases "base64_decode (sp_transaction params)"; cases "sp_neighbor_fanout params")
      (simp_all add: from_rpc_request_def rq_validate_def decode_base64_def)
qed

lemma from_rpc_request_Inr:
  "from_rpc_request from_value req = Inr r \<longleftrightarrow>
     rq_jsonrpc req = ''2.0'' \<and> rq_method req = ''sendTransaction'' \<and>
     (\<exists>params. from_value (rq_params req) = Inr params \<and>
        sp_fanout params \<noteq> 0 \<and> (\<forall>nf. sp_neighbor_fanout params = Some nf \<longrightarrow> nf \<le> 8) \<and>
        base64_decode (sp_transaction params) = Inr (pr_transaction r) \<and>
        pr_id r = rq_id req \<and> pr_fanout r = sp_fanout params \<and>
        pr_target_slot r = sp_target_slot params \<and> pr_neighbor_fanout r = sp_neighbor_fanout params)"
proof (cases "from_value (rq_params req)")
  case (Inl e)
  then show ?thesis by (simp add: from_rpc_request_cases)
next
  case (Inr params)
  show ?thesis
  proof (cases "base64_decode (sp_transaction params)")
    case (Inl e)
    then show ?thesis using Inr by (simp add: from_rpc_request_cases)
  next
    case t: (Inr t)
    show ?thesis using Inr t by (cases r) (auto simp: from_rpc_request_cases not_le)
  qed
qed

lemma from_rpc_request_Inl:
  "from_rpc_request from_value req = Inl e \<Longrightarrow>
     to_rpc_code e = (if rq_jsonrpc req \<noteq> ''2.0'' then - 32600
       else if rq_method req \<noteq> ''sendTransaction'' then - 32601 else - 32602)"
  unfolding from_rpc_request_cases
  by (cases "from_value (rq_params req)"; cases "base64_decode (sp_transaction (projr (from_value (rq_params req))))")
    (auto split: if_splits)



end
