(* ===== verification/Http_Date.thy ===== *)
theory Http_Date
  imports Text_Bytes
begin

text \<open>
  The \<open>Date\<close> header of \<open>src/server/src/date.rs\<close>: a Unix timestamp as an RFC 7231 date, kept in a
  32-byte buffer. The numbers derived from the timestamp only shrink or count years, so they are
  natural numbers; the copy into the buffer panics when the text does not fit.
\<close>

definition is_leap_year :: "nat \<Rightarrow> bool" where
  "is_leap_year year \<longleftrightarrow> year mod 4 = 0 \<and> (year mod 100 \<noteq> 0 \<or> year mod 400 = 0)"

definition get_days_in_month :: "nat \<Rightarrow> nat \<Rightarrow> nat" where
  "get_days_in_month month year =
     (if month = 0 then 31
      else if month = 1 then (if is_leap_year year then 29 else 28)
      else if month = 2 then 31 else if month = 3 then 30 else if month = 4 then 31
      else if month = 5 then 30 else if month = 6 then 31 else if month = 7 then 31
      else if month = 8 then 30 else if month = 9 then 31 else if month = 10 then 30
      else if month = 11 then 31 else 0)"

definition days_in_year :: "nat \<Rightarrow> nat" where
  "days_in_year year = (if is_leap_year year then 366 else 365)"

text \<open>The loop over the years, and the loop over the months (month 0 if none is found).\<close>

function year_loop :: "nat \<Rightarrow> nat \<Rightarrow> nat \<times> nat" where
  "year_loop year days_remaining =
     (if days_remaining < days_in_year year then (year, days_remaining)
      else year_loop (year + 1) (days_remaining - days_in_year year))"
  by pat_completeness auto
termination
  by (relation "measure snd") (auto simp: days_in_year_def)

declare year_loop.simps [simp del]

fun month_loop :: "nat \<Rightarrow> nat list \<Rightarrow> nat \<Rightarrow> nat \<times> nat" where
  "month_loop year [] days_remaining = (0, days_remaining)"
| "month_loop year (m # ms) days_remaining =
     (if days_remaining < get_days_in_month m year then (m, days_remaining)
      else month_loop year ms (days_remaining - get_days_in_month m year))"

definition DAYS :: "string list" where
  "DAYS = [''Sun'', ''Mon'', ''Tue'', ''Wed'', ''Thu'', ''Fri'', ''Sat'']"

definition MONTHS :: "string list" where
  "MONTHS = [''Jan'', ''Feb'', ''Mar'', ''Apr'', ''May'', ''Jun'', ''Jul'', ''Aug'', ''Sep'', ''Oct'', ''Nov'', ''Dec'']"

text \<open>The format \<open>{:02}\<close>.\<close>

definition pad2 :: "nat \<Rightarrow> string" where
  "pad2 n = (if n < 10 then CHR ''0'' # show_nat n else show_nat n)"

definition civil_date :: "nat \<Rightarrow> nat \<times> nat \<times> nat" where
  "civil_date days_since_epoch =
     (let (year, days_remaining) = year_loop 1970 days_since_epoch;
          (month, days_remaining) = month_loop year [0..<12] days_remaining
      in (year, month, days_remaining + 1))"

definition format_http_date :: "u64 \<Rightarrow> string" where
  "format_http_date secs =
     (let days_since_epoch = unat secs div 86400;
          secs_today = unat secs mod 86400;
          dow = (days_since_epoch + 4) mod 7;
          (year, month, day) = civil_date days_since_epoch;
          hour = secs_today div 3600;
          minute = secs_today mod 3600 div 60;
          second = secs_today mod 60
      in DAYS ! dow @ '', '' @ pad2 day @ '' '' @ MONTHS ! month @ '' '' @ show_nat year @ '' '' @
         pad2 hour @ '':'' @ pad2 minute @ '':'' @ pad2 second @ '' GMT'')"

text \<open>The cache: a 32-byte buffer and the length in use.\<close>

record date_cache =
  dc_formatted :: string
  dc_len :: nat

definition date_cache_new :: date_cache where
  "date_cache_new = \<lparr>dc_formatted = replicate 32 (char_of (0 :: nat)), dc_len = 0\<rparr>"

definition update_date :: "u64 \<Rightarrow> date_cache \<Rightarrow> date_cache run" where
  "update_date now_secs cache =
     (let formatted = format_http_date now_secs;
          len = length formatted
      in if length (dc_formatted cache) < len then Panicked
         else Done \<lparr>dc_formatted = formatted @ drop len (dc_formatted cache), dc_len = len\<rparr>)"

definition append_date :: "date_cache \<Rightarrow> bytes \<Rightarrow> bytes run" where
  "append_date cache buf =
     (if length (dc_formatted cache) < dc_len cache then Panicked
      else Done (buf @ take (dc_len cache) (dc_formatted cache)))"

section \<open>The calendar\<close>

text \<open>Days before a year and before a month of a year, counted from the first day of 1970.\<close>

definition days_before_year :: "nat \<Rightarrow> nat" where
  "days_before_year year = sum days_in_year {1970..<year}"

definition days_before_month :: "nat \<Rightarrow> nat \<Rightarrow> nat" where
  "days_before_month year month = (\<Sum>m < month. get_days_in_month m year)"

lemma year_loop_spec:
  assumes "1970 \<le> year" "year_loop year d = (y, r)"
  shows "year \<le> y \<and> r < days_in_year y \<and> days_before_year year + d = days_before_year y + r"
  using assms
proof (induction year d rule: year_loop.induct)
  case (1 year d)
  show ?case
  proof (cases "d < days_in_year year")
    case True
    then show ?thesis using "1.prems" by (subst (asm) year_loop.simps) simp
  next
    case False
    then have "year_loop (year + 1) (d - days_in_year year) = (y, r)"
      using "1.prems" by (subst (asm) year_loop.simps) simp
    moreover have "days_before_year (year + 1) = days_before_year year + days_in_year year"
      using "1.prems"(1) by (simp add: days_before_year_def sum.atLeastLessThan_Suc)
    ultimately show ?thesis using "1.IH" [OF False] "1.prems"(1) False by simp
  qed
qed

lemma days_before_month_12: "days_before_month year 12 = days_in_year year"
  by (simp add: days_before_month_def days_in_year_def get_days_in_month_def eval_nat_numeral lessThan_Suc)

lemma month_loop_spec:
  assumes "n \<le> 12" "d < days_before_month year 12 - days_before_month year n"
    and "month_loop year [n..<12] d = (m, r)"
  shows "m < 12 \<and> r < get_days_in_month m year \<and> days_before_month year n + d = days_before_month year m + r"
  using assms
proof (induction "12 - n" arbitrary: n d)
  case 0
  then show ?case by simp
next
  case (Suc k)
  then have n: "n < 12" by simp
  have suc: "days_before_month year (Suc n) = days_before_month year n + get_days_in_month n year"
    by (simp add: days_before_month_def)
  have loop: "month_loop year (n # [Suc n..<12]) d = (m, r)"
    using Suc.prems(3) n by (simp add: upt_conv_Cons)
  show ?case
  proof (cases "d < get_days_in_month n year")
    case True
    then show ?thesis using loop n by simp
  next
    case False
    then have "month_loop year [Suc n..<12] (d - get_days_in_month n year) = (m, r)" using loop by simp
    moreover have "d - get_days_in_month n year < days_before_month year 12 - days_before_month year (Suc n)"
      using Suc.prems(2) False suc by linarith
    ultimately have "m < 12 \<and> r < get_days_in_month m year \<and>
        days_before_month year (Suc n) + (d - get_days_in_month n year) = days_before_month year m + r"
      using Suc.hyps(2) n by (intro Suc.hyps(1)) simp_all
    then show ?thesis using False suc by simp
  qed
qed

lemma civil_date_spec:
  assumes "civil_date n = (y, m, d)"
  shows "1970 \<le> y \<and> m < 12 \<and> 1 \<le> d \<and> d \<le> get_days_in_month m y \<and>
    n = days_before_year y + days_before_month y m + (d - 1)"
proof -
  obtain r where yr: "year_loop 1970 n = (y, r)" and mr: "month_loop y [0..<12] r = (m, d - 1)" and d: "1 \<le> d"
    using assms by (auto simp: civil_date_def Let_def simp del: upt_rec_numeral split: prod.splits)
  have y: "1970 \<le> y \<and> r < days_in_year y \<and> n = days_before_year y + r"
    using year_loop_spec [OF _ yr] by (simp add: days_before_year_def)
  have "r < days_before_month y 12 - days_before_month y 0"
    using y by (simp add: days_before_month_12) (simp add: days_before_month_def)
  from month_loop_spec [OF _ this mr] have "m < 12 \<and> d - 1 < get_days_in_month m y \<and>
      days_before_month y 0 + r = days_before_month y m + (d - 1)" by simp
  with y d show ?thesis by (auto simp: days_before_month_def)
qed

definition loop_day :: "nat \<Rightarrow> nat \<Rightarrow> nat \<Rightarrow> nat" where
  "loop_day y m d = days_before_year y + days_before_month y m + (d - 1)"

definition loop_date :: "nat \<Rightarrow> nat \<Rightarrow> nat \<Rightarrow> bool" where
  "loop_date y m d \<longleftrightarrow> 1970 \<le> y \<and> m < 12 \<and> 1 \<le> d \<and> d \<le> get_days_in_month m y"

lemma days_before_year_step:
  "1970 \<le> y \<Longrightarrow> y < y' \<Longrightarrow> days_before_year y + days_in_year y \<le> days_before_year y'"
proof -
  assume y: "1970 \<le> y" "y < y'"
  then have "days_before_year y' = days_before_year y + sum days_in_year {y..<y'}"
    by (simp add: days_before_year_def sum.atLeastLessThan_concat)
  moreover have "sum days_in_year {y..<y'} = days_in_year y + sum days_in_year {Suc y..<y'}"
    using y(2) by (rule sum.atLeast_Suc_lessThan)
  ultimately show ?thesis by simp
qed

lemma days_before_month_step:
  assumes "m < m'"
  shows "days_before_month y m + get_days_in_month m y \<le> days_before_month y m'"
proof -
  have "days_before_month y (Suc m) \<le> days_before_month y m'"
    unfolding days_before_month_def using assms by (intro sum_mono2) auto
  then show ?thesis by (simp add: days_before_month_def)
qed

lemma day_in_year:
  assumes "loop_date y m d"
  shows "days_before_month y m + (d - 1) < days_in_year y"
proof -
  have "days_before_month y m + get_days_in_month m y \<le> days_before_month y 12"
    using assms by (intro days_before_month_step) (simp add: loop_date_def)
  moreover have "1 \<le> d" "d \<le> get_days_in_month m y" using assms by (simp_all add: loop_date_def)
  ultimately show ?thesis unfolding days_before_month_12 by linarith
qed

lemma loop_day_inj:
  assumes v: "loop_date y m d" "loop_date y' m' d'" and eq: "loop_day y m d = loop_day y' m' d'"
  shows "y = y' \<and> m = m' \<and> d = d'"
proof -
  have y: "y = y'"
  proof (rule ccontr)
    assume "y \<noteq> y'"
    then consider "y < y'" | "y' < y" by linarith
    then show False
      using days_before_year_step [of y y'] days_before_year_step [of y' y] day_in_year [OF v(1)] day_in_year [OF v(2)] v eq
      by cases (auto simp: loop_date_def loop_day_def)
  qed
  have m: "m = m'"
  proof (rule ccontr)
    assume "m \<noteq> m'"
    then consider "m < m'" | "m' < m" by linarith
    then show False
      using days_before_month_step [of m m' y] days_before_month_step [of m' m y] v eq y
      by cases (auto simp: loop_date_def loop_day_def)
  qed
  with y v eq show ?thesis by (auto simp: loop_date_def loop_day_def)
qed

text \<open>
  The Gregorian calendar, independently of the code: a day has a number given by a closed formula
  in the numbers of leap years up to a year and the lengths of the months. Months count from 0,
  days of a month from 1, day numbers from the first of January 1970.
\<close>

definition gregorian_leap :: "nat \<Rightarrow> bool" where
  "gregorian_leap y \<longleftrightarrow> (4 dvd y \<and> \<not> 100 dvd y) \<or> 400 dvd y"

definition leap_years_to :: "nat \<Rightarrow> nat" where
  "leap_years_to y = y div 4 - y div 100 + y div 400"

definition month_lengths :: "nat list" where
  "month_lengths = [31, 28, 31, 30, 31, 30, 31, 31, 30, 31, 30, 31]"

definition valid_date :: "nat \<Rightarrow> nat \<Rightarrow> nat \<Rightarrow> bool" where
  "valid_date y m d \<longleftrightarrow> 1970 \<le> y \<and> m < 12 \<and> 1 \<le> d \<and>
     d \<le> month_lengths ! m + (if m = 1 \<and> gregorian_leap y then 1 else 0)"

definition day_number :: "nat \<Rightarrow> nat \<Rightarrow> nat \<Rightarrow> nat" where
  "day_number y m d =
     365 * (y - 1970) + (leap_years_to (y - 1) - leap_years_to 1969) +
     sum_list (take m month_lengths) + (if 2 \<le> m \<and> gregorian_leap y then 1 else 0) + (d - 1)"

lemma leap_years_to_Suc:
  "leap_years_to (Suc y) = leap_years_to y + (if gregorian_leap (Suc y) then 1 else 0)"
proof -
  have step: "Suc y div n = y div n + (if n dvd Suc y then 1 else 0)" for n
    by (simp add: div_Suc dvd_eq_mod_eq_0)
  have le: "y div 100 \<le> y div 4" by (rule div_le_mono2) simp_all
  have "100 dvd Suc y \<Longrightarrow> 4 dvd Suc y" "400 dvd Suc y \<Longrightarrow> 100 dvd Suc y"
    by (rule dvd_trans [rotated], assumption, simp)+
  then show ?thesis using le by (auto simp: leap_years_to_def step gregorian_leap_def)
qed

lemma is_leap_year_gregorian: "is_leap_year y \<longleftrightarrow> gregorian_leap y"
proof -
  have "400 dvd y \<Longrightarrow> 4 dvd y" by (rule dvd_trans [rotated], assumption, simp)
  then show ?thesis by (auto simp: is_leap_year_def gregorian_leap_def dvd_eq_mod_eq_0)
qed

lemma days_before_year_formula:
  "1970 \<le> y \<Longrightarrow> leap_years_to 1969 \<le> leap_years_to (y - 1) \<and>
     days_before_year y = 365 * (y - 1970) + (leap_years_to (y - 1) - leap_years_to 1969)"
proof (induction y rule: dec_induct)
  case base
  then show ?case by (simp add: days_before_year_def)
next
  case (step y)
  have "leap_years_to y = leap_years_to (y - 1) + (if gregorian_leap y then 1 else 0)"
    using leap_years_to_Suc [of "y - 1"] step.hyps by simp
  moreover have "days_before_year (Suc y) = days_before_year y + days_in_year y"
    using step.hyps by (simp add: days_before_year_def sum.atLeastLessThan_Suc)
  moreover have "365 * (Suc y - 1970) = 365 * (y - 1970) + 365" using step.hyps by simp
  moreover have "days_in_year y = (if gregorian_leap y then 366 else 365)"
    by (simp add: days_in_year_def is_leap_year_gregorian)
  ultimately show ?case
    using step.IH unfolding diff_Suc_1 by (cases "gregorian_leap y") (simp_all only: if_True if_False, linarith+)
qed

lemma twelve_cases: "m < 12 \<Longrightarrow> m \<in> {0, 1, 2, 3, 4, 5, 6, 7, 8, 9, 10, 11 :: nat}"
  unfolding insert_iff empty_iff by presburger

lemma get_days_in_month_lengths:
  "m < 12 \<Longrightarrow> get_days_in_month m y = month_lengths ! m + (if m = 1 \<and> gregorian_leap y then 1 else 0)"
  by (drule twelve_cases) (auto simp: get_days_in_month_def month_lengths_def is_leap_year_gregorian)

lemma days_before_month_lengths:
  "m \<le> 12 \<Longrightarrow> days_before_month y m = sum_list (take m month_lengths) + (if 2 \<le> m \<and> gregorian_leap y then 1 else 0)"
proof (induction m)
  case 0
  then show ?case by (simp add: days_before_month_def)
next
  case (Suc m)
  have "take (Suc m) month_lengths = take m month_lengths @ [month_lengths ! m]"
    using Suc.prems by (intro take_Suc_conv_app_nth) (simp add: month_lengths_def)
  moreover have "days_before_month y (Suc m) = days_before_month y m + get_days_in_month m y"
    by (simp add: days_before_month_def)
  ultimately show ?case using Suc by (auto simp: get_days_in_month_lengths)
qed

lemma loop_date_valid: "loop_date y m d \<longleftrightarrow> valid_date y m d"
  by (auto simp: loop_date_def valid_date_def get_days_in_month_lengths)

lemma loop_day_number: "valid_date y m d \<Longrightarrow> loop_day y m d = day_number y m d"
  using days_before_year_formula [of y] days_before_month_lengths [of m y]
  by (simp add: loop_day_def day_number_def valid_date_def)

text \<open>
  C36. The date computation is right for every day: the loops terminate with a date that exists in
  the Gregorian calendar and that has the number of the day, by a closed formula over leap years
  and lengths of months that does not refer to the code; and every date from the first of January
  1970 on is the result for its number.
\<close>

theorem civil_date_calendar:
  "(\<forall>n. case civil_date n of (y, m, d) \<Rightarrow> valid_date y m d \<and> day_number y m d = n) \<and>
   (\<forall>y m d. valid_date y m d \<longrightarrow> civil_date (day_number y m d) = (y, m, d))"
proof -
  have fwd: "valid_date y m d \<and> day_number y m d = n" if "civil_date n = (y, m, d)" for n y m d
  proof -
    have "loop_date y m d" "loop_day y m d = n"
      using civil_date_spec [OF that] by (simp_all add: loop_date_def loop_day_def)
    then show ?thesis using loop_date_valid loop_day_number by metis
  qed
  have "civil_date (day_number y m d) = (y, m, d)" if v: "valid_date y m d" for y m d
  proof -
    obtain y' m' d' where c: "civil_date (day_number y m d) = (y', m', d')" by (cases "civil_date (day_number y m d)")
    from fwd [OF c] have w: "valid_date y' m' d'" "day_number y' m' d' = day_number y m d" by simp_all
    then have "loop_day y m d = loop_day y' m' d'" using v by (simp add: loop_day_number)
    from loop_day_inj [OF _ _ this] v w c show ?thesis by (simp add: loop_date_valid)
  qed
  with fwd show ?thesis by (auto split: prod.splits)
qed

theorem civil_date_calendar_witness: "civil_date 19782 = (2024, 1, 29)"
proof -
  have v: "valid_date 2024 1 29" by (simp add: valid_date_def month_lengths_def gregorian_leap_def)
  have "day_number 2024 1 29 = 19782"
    by (simp add: day_number_def leap_years_to_def month_lengths_def)
  with conjunct2 [OF civil_date_calendar] v show ?thesis by metis
qed

section \<open>The text fits the buffer\<close>

lemma days_before_year_ge: "1970 \<le> y \<Longrightarrow> 365 * (y - 1970) \<le> days_before_year y"
proof -
  have "(\<Sum>i \<in> {1970..<y}. 365) \<le> days_before_year y"
    unfolding days_before_year_def by (rule sum_mono) (simp add: days_in_year_def)
  then show ?thesis by (simp add: mult.commute)
qed

lemma length_pad2: "n < 100 \<Longrightarrow> length (pad2 n) = 2"
  by (auto simp: pad2_def length_show_nat)

lemma length_year: "1000 \<le> y \<Longrightarrow> y < 10000 \<Longrightarrow> length (show_nat y) = 4"
  by (subst length_show_nat, subst length_show_nat, subst length_show_nat, subst length_show_nat) auto

lemma length_names: "i < 7 \<Longrightarrow> length (DAYS ! i) = 3" "i < 12 \<Longrightarrow> length (MONTHS ! i) = 3"
proof -
  have d: "\<forall>x \<in> set DAYS. length x = 3" and m: "\<forall>x \<in> set MONTHS. length x = 3" by (simp_all add: DAYS_def MONTHS_def)
  have l: "length DAYS = 7" "length MONTHS = 12" by (simp_all add: DAYS_def MONTHS_def)
  show "i < 7 \<Longrightarrow> length (DAYS ! i) = 3" using d l by simp
  show "i < 12 \<Longrightarrow> length (MONTHS ! i) = 3" using m l by simp
qed

lemma length_format_http_date:
  assumes "unat secs < 253234080000"
  shows "length (format_http_date secs) = 29"
proof -
  obtain y m d where c: "civil_date (unat secs div 86400) = (y, m, d)" by (cases "civil_date (unat secs div 86400)")
  from civil_date_spec [OF c] have m: "m < 12" and d: "d \<le> get_days_in_month m y" and y: "1970 \<le> y"
    and n: "unat secs div 86400 = days_before_year y + days_before_month y m + (d - 1)" by auto
  have "365 * (y - 1970) \<le> unat secs div 86400" using n days_before_year_ge [OF y] by linarith
  moreover have "unat secs div 86400 < 2930950" using assms by (simp add: less_mult_imp_div_less)
  ultimately have y4: "y < 10000" by linarith
  have "get_days_in_month m y \<le> 31" by (simp add: get_days_in_month_def)
  with d have d2: "d < 100" by linarith
  have "unat secs mod 86400 div 3600 < 100" "unat secs mod 86400 mod 3600 div 60 < 100" "unat secs mod 86400 mod 60 < 100"
    by (simp_all add: less_mult_imp_div_less trans_less_add1)
  then show ?thesis
    using length_names(1) [of "(unat secs div 86400 + 4) mod 7"] length_names(2) [OF m] length_pad2 d2 length_year y y4
    by (simp add: format_http_date_def c Let_def)
qed

text \<open>
  C37. The text of the \<open>Date\<close> header is 29 bytes long for every timestamp up to the year 9994, so
  the copy into the 32-byte cache never panics, whatever was in it, and what a response appends
  is exactly the date that was formatted last.
\<close>

theorem http_date_fits:
  assumes "unat secs < 253234080000" "length (dc_formatted cache) = 32"
  shows "length (format_http_date secs) = 29 \<and>
    (\<exists>cache'. update_date secs cache = Done cache' \<and> length (dc_formatted cache') = 32 \<and>
       append_date cache' buf = Done (buf @ format_http_date secs))"
proof -
  note len = length_format_http_date [OF assms(1)]
  let ?c = "\<lparr>dc_formatted = format_http_date secs @ drop 29 (dc_formatted cache), dc_len = 29\<rparr>"
  have "update_date secs cache = Done ?c" using assms(2) len by (simp add: update_date_def)
  moreover have "length (dc_formatted ?c) = 32" using assms(2) len by simp
  moreover have "append_date ?c buf = Done (buf @ format_http_date secs)" using assms(2) len by (simp add: append_date_def)
  ultimately show ?thesis using len by blast
qed

theorem http_date_fits_witness: "length (format_http_date 784887151) = 29"
proof -
  have "unat (784887151 :: u64) < 253234080000" "length (dc_formatted date_cache_new) = 32"
    by (simp_all add: date_cache_new_def)
  from http_date_fits [OF this] show ?thesis by blast
qed

end
