(* ===== verification/Http_Server.thy ===== *)
theory Http_Server
  imports Rpc_Request Http_Date
begin

text \<open>
  The HTTP layer of \<open>src/server/src/http.rs\<close>: the request parser, the byte scan that decides whether
  a request has arrived completely, and the response builder. Header text is checked to be UTF-8;
  the string functions of the standard library are those of the theory of byte strings.
\<close>

definition CR :: char where "CR = char_of (13 :: nat)"

definition LF :: char where "LF = char_of (10 :: nat)"

definition CRLF :: bytes where "CRLF = [CR, LF]"

definition ascii_lower :: "char \<Rightarrow> char" where
  "ascii_lower c = (let n = (of_char c :: nat) in if 65 \<le> n \<and> n \<le> 90 then char_of (n + 32) else c)"

definition eq_ignore_ascii_case :: "bytes \<Rightarrow> bytes \<Rightarrow> bool" where
  "eq_ignore_ascii_case s t \<longleftrightarrow> map ascii_lower s = map ascii_lower t"

text \<open>\<open>std::str::from_utf8\<close>: the well-formed byte sequences.\<close>

definition utf8_cont :: "nat \<Rightarrow> bool" where
  "utf8_cont n \<longleftrightarrow> 0x80 \<le> n \<and> n \<le> 0xbf"

fun valid_utf8 :: "nat list \<Rightarrow> bool" where
  "valid_utf8 [] = True"
| "valid_utf8 (a # s) =
     (if a < 0x80 then valid_utf8 s
      else case s of
        [] \<Rightarrow> False
      | b # s' \<Rightarrow>
          if 0xc2 \<le> a \<and> a \<le> 0xdf then utf8_cont b \<and> valid_utf8 s'
          else case s' of
            [] \<Rightarrow> False
          | c # s'' \<Rightarrow>
              if 0xe0 \<le> a \<and> a \<le> 0xef then
                utf8_cont b \<and> (a = 0xe0 \<longrightarrow> 0xa0 \<le> b) \<and> (a = 0xed \<longrightarrow> b \<le> 0x9f) \<and> utf8_cont c \<and> valid_utf8 s''
              else case s'' of
                [] \<Rightarrow> False
              | d # s''' \<Rightarrow>
                  0xf0 \<le> a \<and> a \<le> 0xf4 \<and> utf8_cont b \<and> (a = 0xf0 \<longrightarrow> 0x90 \<le> b) \<and> (a = 0xf4 \<longrightarrow> b \<le> 0x8f) \<and>
                  utf8_cont c \<and> utf8_cont d \<and> valid_utf8 s''')"

definition from_utf8_ok :: "bytes \<Rightarrow> bool" where
  "from_utf8_ok s = valid_utf8 (map of_char s)"

text \<open>\<open>str::lines\<close>: the pieces between line feeds without a carriage return at their end; no empty piece at the end.\<close>

fun split_lf :: "bytes \<Rightarrow> bytes \<Rightarrow> bytes list" where
  "split_lf acc [] = (if acc = [] then [] else [acc])"
| "split_lf acc (c # s) =
     (if c = LF then (if acc \<noteq> [] \<and> last acc = CR then butlast acc else acc) # split_lf [] s
      else split_lf (acc @ [c]) s)"

definition str_lines :: "bytes \<Rightarrow> bytes list" where
  "str_lines s = split_lf [] s"

text \<open>\<open>str::split_whitespace\<close>.\<close>

function split_ws :: "bytes \<Rightarrow> bytes \<Rightarrow> bytes list" where
  "split_ws acc [] = (if acc = [] then [] else [acc])"
| "split_ws acc (c # s) =
     (if leading_space (c # s) = 0 then split_ws (acc @ [c]) s
      else (if acc = [] then [] else [acc]) @ split_ws [] (drop (leading_space (c # s)) (c # s)))"
  by pat_completeness auto
termination
  by (relation "measure (\<lambda>(acc, s). length s)") auto

declare split_ws.simps [simp del]

definition find_headers_end :: "bytes \<Rightarrow> nat option" where
  "find_headers_end buf = find (\<lambda>i. take 4 (drop i buf) = CRLF @ CRLF) [0..<length buf - 3]"

text \<open>The two loops behind the header name: skip blanks, then collect digits in a \<open>usize\<close>.\<close>

definition skip_blanks :: "bytes \<Rightarrow> bytes" where
  "skip_blanks s = dropWhile (\<lambda>c. c = CHR '' '') s"

definition digits_usize :: "bytes \<Rightarrow> usize" where
  "digits_usize s = foldl (\<lambda>val c. val * 10 + of_nat (digit_val c)) 0 (takeWhile is_ascii_digit s)"

definition content_length_at :: "bytes \<Rightarrow> nat \<Rightarrow> bool" where
  "content_length_at headers i \<longleftrightarrow>
     (i = 0 \<or> headers ! (i - 1) = LF) \<and> (headers ! i = CHR ''C'' \<or> headers ! i = CHR ''c'') \<and>
     eq_ignore_ascii_case (take 14 (drop (i + 1) headers)) ''ontent-length:''"

definition find_content_length_bytes :: "bytes \<Rightarrow> usize option" where
  "find_content_length_bytes headers =
     (if length headers < 15 then None
      else map_option (\<lambda>i. digits_usize (skip_blanks (drop (i + 15) headers)))
        (find (content_length_at headers) [0..<length headers - 14]))"

definition is_body_complete :: "bytes \<Rightarrow> nat \<Rightarrow> bool" where
  "is_body_complete buf headers_end =
     (let body_start = headers_end + 4;
          headers_bytes = take headers_end buf
      in case find_content_length_bytes headers_bytes of
           Some content_length \<Rightarrow> unat content_length \<le> length buf - body_start
         | None \<Rightarrow> True)"

definition is_complete :: "bytes \<Rightarrow> bool" where
  "is_complete buf = (case find_headers_end buf of Some headers_end \<Rightarrow> is_body_complete buf headers_end | None \<Rightarrow> False)"

definition parse_request_line :: "bytes \<Rightarrow> server_error + bytes \<times> bytes" where
  "parse_request_line line =
     (let parts = split_ws [] line
      in if length parts < 3 then Inl (InvalidHttp (''Invalid request line: '' @ line))
         else Inr (parts ! 0, parts ! 1))"

definition parse_header_line :: "bytes \<Rightarrow> server_error + bytes \<times> bytes" where
  "parse_header_line line =
     (if CHR '':'' \<notin> set line then Inl (InvalidHttp (''Invalid header: '' @ line))
      else
        let pos = length (takeWhile (\<lambda>c. c \<noteq> CHR '':'') line)
        in Inr (trim (take pos line), trim (drop (pos + 1) line)))"

text \<open>\<open>str::parse::<usize>\<close>: an optional plus sign and digits, in range.\<close>

definition parse_usize :: "bytes \<Rightarrow> usize option" where
  "parse_usize s =
     (let ds = (case s of c # s' \<Rightarrow> if c = CHR ''+'' then s' else s | [] \<Rightarrow> [])
      in if ds = [] \<or> \<not> list_all is_ascii_digit ds \<or> 2 ^ 64 \<le> digits_val ds then None
         else Some (of_nat (digits_val ds)))"

record http_request =
  hr_method :: bytes
  hr_path :: bytes
  hr_headers :: "(bytes \<times> bytes) list"
  hr_body :: bytes
  hr_connection_close :: bool

text \<open>The loop over the header lines: headers, content length and connection flag so far.\<close>

fun parse_headers ::
  "bytes list \<Rightarrow> (bytes \<times> bytes) list \<Rightarrow> usize \<Rightarrow> bool \<Rightarrow> server_error + (bytes \<times> bytes) list \<times> usize \<times> bool" where
  "parse_headers [] headers content_length connection_close = Inr (headers, content_length, connection_close)"
| "parse_headers (line # lines) headers content_length connection_close =
     (if line = [] then parse_headers lines headers content_length connection_close
      else case parse_header_line line of
        Inl e \<Rightarrow> Inl e
      | Inr (name, val) \<Rightarrow>
          if eq_ignore_ascii_case name ''content-length'' then
            (case parse_usize val of
               None \<Rightarrow> Inl (InvalidHttp ''Invalid Content-Length'')
             | Some n \<Rightarrow> parse_headers lines (headers @ [(name, val)]) n connection_close)
          else if eq_ignore_ascii_case name ''connection'' then
            parse_headers lines (headers @ [(name, val)]) content_length (eq_ignore_ascii_case val ''close'')
          else parse_headers lines (headers @ [(name, val)]) content_length connection_close)"

definition http_parse :: "bytes \<Rightarrow> server_error + http_request" where
  "http_parse buf =
     (case find_headers_end buf of
        None \<Rightarrow> Inl (InvalidHttp ''Incomplete HTTP request'')
      | Some headers_end \<Rightarrow>
          let headers_bytes = take headers_end buf;
              body_start = headers_end + 4
          in if \<not> from_utf8_ok headers_bytes then Inl (InvalidHttp ''Invalid UTF-8 in headers'')
          else case str_lines headers_bytes of
            [] \<Rightarrow> Inl (InvalidHttp ''Empty request'')
          | request_line # lines \<Rightarrow>
              (case parse_request_line request_line of
                 Inl e \<Rightarrow> Inl e
               | Inr (method, path) \<Rightarrow>
                   (case parse_headers lines [] 0 False of
                      Inl e \<Rightarrow> Inl e
                    | Inr (headers, content_length, connection_close) \<Rightarrow>
                        let req = (\<lambda>body. \<lparr>hr_method = method, hr_path = path, hr_headers = headers, hr_body = body,
                                     hr_connection_close = connection_close\<rparr>)
                        in if body_start < length buf then
                             let available = length buf - body_start
                             in if unat content_length \<le> available
                                then Inr (req (take (unat content_length) (drop body_start buf)))
                                else Inl (InvalidHttp (''Incomplete body: expected '' @ show_nat (unat content_length) @
                                       '', got '' @ show_nat available))
                           else if content_length = 0 then Inr (req [])
                           else Inl (InvalidHttp ''Missing body''))))"

definition get_header :: "http_request \<Rightarrow> bytes \<Rightarrow> bytes option" where
  "get_header r name = map_option snd (find (\<lambda>(k, _). eq_ignore_ascii_case k name) (hr_headers r))"

section \<open>Responses\<close>

record http_response =
  hp_status :: u16
  hp_status_text :: string
  hp_headers :: "(string \<times> string) list"
  hp_body :: bytes
  hp_keep_alive :: bool

definition response_ok :: http_response where
  "response_ok = \<lparr>hp_status = 200, hp_status_text = ''OK'', hp_headers = [], hp_body = [], hp_keep_alive = True\<rparr>"

definition response_bad_request :: http_response where
  "response_bad_request =
     \<lparr>hp_status = 400, hp_status_text = ''Bad Request'', hp_headers = [], hp_body = [], hp_keep_alive = True\<rparr>"

definition response_internal_error :: http_response where
  "response_internal_error =
     \<lparr>hp_status = 500, hp_status_text = ''Internal Server Error'', hp_headers = [], hp_body = [], hp_keep_alive = True\<rparr>"

definition with_json_bytes :: "bytes \<Rightarrow> http_response \<Rightarrow> http_response" where
  "with_json_bytes json r =
     r\<lparr>hp_body := json, hp_headers := hp_headers r @ [(''Content-Type'', ''application/json'')]\<rparr>"

definition with_json :: "string \<Rightarrow> http_response \<Rightarrow> http_response" where
  "with_json json r =
     r\<lparr>hp_body := json, hp_headers := hp_headers r @ [(''Content-Type'', ''application/json'')]\<rparr>"

definition with_body :: "bytes \<Rightarrow> http_response \<Rightarrow> http_response" where
  "with_body body r = r\<lparr>hp_body := body\<rparr>"

definition with_header :: "string \<Rightarrow> string \<Rightarrow> http_response \<Rightarrow> http_response" where
  "with_header name val r = r\<lparr>hp_headers := hp_headers r @ [(name, val)]\<rparr>"

definition with_connection_close :: "http_response \<Rightarrow> http_response" where
  "with_connection_close r = r\<lparr>hp_keep_alive := False\<rparr>"

definition response_build :: "date_cache \<Rightarrow> http_response \<Rightarrow> bytes run" where
  "response_build cache r =
     run_bind (append_date cache
         (''HTTP/1.1 '' @ show_nat (unat (hp_status r)) @ '' '' @ hp_status_text r @ CRLF @
          ''Content-Length: '' @ show_nat (length (hp_body r)) @ CRLF @ ''Date: ''))
       (\<lambda>buf. Done (buf @ CRLF @
          concat (map (\<lambda>(name, val). name @ '': '' @ val @ CRLF) (hp_headers r)) @
          (if hp_keep_alive r then ''Connection: keep-alive'' @ CRLF else ''Connection: close'' @ CRLF) @
          CRLF @ hp_body r))"

end
