(* ===== verification/Http_Client.thy ===== *)
theory Http_Client
  imports Http_Server
begin

text \<open>
  The client's side of the wire: the request builder of \<open>src/client/src/request.rs\<close>, the response
  scanner of \<open>src/client/src/response.rs\<close> and the options of \<open>src/client/src/types.rs\<close>. The base64
  encoder comes from a crate; it is the argument \<open>encode\<close> of the builder, and what the theorems rely
  on is that it is the RFC 4648 encoding.
\<close>

section \<open>Requests\<close>

record send_options =
  so_fanout :: "usize option"
  so_target_slot :: "u64 option"

definition send_options_default :: send_options where
  "send_options_default = \<lparr>so_fanout = None, so_target_slot = None\<rparr>"

definition set_fanout :: "usize \<Rightarrow> send_options \<Rightarrow> send_options" where
  "set_fanout n opt = opt\<lparr>so_fanout := Some n\<rparr>"

definition set_target_slot :: "u64 \<Rightarrow> send_options \<Rightarrow> send_options" where
  "set_target_slot slot opt = opt\<lparr>so_target_slot := Some slot\<rparr>"

definition get_fanout :: "send_options \<Rightarrow> usize" where
  "get_fanout opts = (case so_fanout opts of Some n \<Rightarrow> n | None \<Rightarrow> 1)"

definition get_target_slot :: "send_options \<Rightarrow> u64" where
  "get_target_slot opts = (case so_target_slot opts of Some s \<Rightarrow> s | None \<Rightarrow> 0)"

definition quot :: char where "quot = char_of (34 :: nat)"

text \<open>A JSON string literal or key with its quotes.\<close>

definition jstr :: "bytes \<Rightarrow> bytes" where
  "jstr s = [quot] @ s @ [quot]"

definition request_body :: "(u8 list \<Rightarrow> bytes) \<Rightarrow> u64 \<Rightarrow> u8 list \<Rightarrow> usize \<Rightarrow> u64 \<Rightarrow> bytes" where
  "request_body encode request_id tx fanout target_slot =
     ''{'' @ jstr ''jsonrpc'' @ '':'' @ jstr ''2.0'' @ '','' @ jstr ''id'' @ '':'' @ show_nat (unat request_id) @
     '','' @ jstr ''method'' @ '':'' @ jstr ''sendTransaction'' @ '','' @ jstr ''params'' @ '':{'' @
     jstr ''transaction'' @ '':'' @ jstr (encode tx) @ '','' @ jstr ''fanout'' @ '':'' @ show_nat (unat fanout) @
     '','' @ jstr ''target_slot'' @ '':'' @ show_nat (unat target_slot) @ ''}}''"

definition build_request :: "(u8 list \<Rightarrow> bytes) \<Rightarrow> bytes \<Rightarrow> u64 \<Rightarrow> u8 list \<Rightarrow> usize \<Rightarrow> u64 \<Rightarrow> bytes" where
  "build_request encode host request_id tx fanout target_slot =
     (let body = request_body encode request_id tx fanout target_slot;
          body_len = length body
      in ''POST / HTTP/1.1'' @ CRLF @ ''Host: '' @ host @ CRLF @ ''Content-Type: application/json'' @ CRLF @
         ''Content-Length: '' @ show_nat body_len @ CRLF @ ''Connection: keep-alive'' @ CRLF @ CRLF @ body)"

section \<open>Responses\<close>

datatype client_error = ConnectErr | SendErr | RecvErr | BadHttp | InvalidResponse | Rpc int | WouldBlock

definition cl_find_headers_end :: "bytes \<Rightarrow> nat option" where
  "cl_find_headers_end buf =
     (if length buf < 4 then None
      else find (\<lambda>i. take 4 (drop i buf) = CRLF @ CRLF) [0..<length buf - 3])"

definition cl_find_content_length :: "bytes \<Rightarrow> nat \<Rightarrow> usize option" where
  "cl_find_content_length buf headers_end =
     (let headers = take headers_end buf in
      if length headers < 15 then None
      else map_option (\<lambda>i. digits_usize (skip_blanks (drop (i + 15) headers)))
        (find (content_length_at headers) [0..<length headers - 14]))"

definition cl_is_body_complete :: "bytes \<Rightarrow> nat \<Rightarrow> bool" where
  "cl_is_body_complete buf headers_end =
     (let body_start = headers_end + 4
      in case cl_find_content_length buf headers_end of
           Some content_length \<Rightarrow> unat content_length \<le> length buf - body_start
         | None \<Rightarrow> True)"

definition cl_is_complete :: "bytes \<Rightarrow> bool" where
  "cl_is_complete buf =
     (case cl_find_headers_end buf of Some headers_end \<Rightarrow> cl_is_body_complete buf headers_end | None \<Rightarrow> False)"

definition get_http_status :: "bytes \<Rightarrow> u16" where
  "get_http_status buf =
     (if length buf < 12 then 0
      else case find (\<lambda>i. buf ! i = CHR '' '') [0..<12] of
        None \<Rightarrow> 0
      | Some pos \<Rightarrow>
          if pos + 4 \<le> length buf then
            let d1 = buf ! (pos + 1);
                d2 = buf ! (pos + 2);
                d3 = buf ! (pos + 3)
            in if is_ascii_digit d1 \<and> is_ascii_digit d2 \<and> is_ascii_digit d3
               then of_nat (digit_val d1) * 100 + of_nat (digit_val d2) * 10 + of_nat (digit_val d3)
               else 0
          else 0)"

definition find_key :: "bytes \<Rightarrow> bytes \<Rightarrow> nat option" where
  "find_key buf key =
     (if length buf < length key then None
      else find (\<lambda>i. take (length key) (drop i buf) = key) [0..<length buf - length key + 1])"

definition find_byte :: "bytes \<Rightarrow> char \<Rightarrow> nat option" where
  "find_byte buf needle = find (\<lambda>i. buf ! i = needle) [0..<length buf]"

definition parse_number_after :: "bytes \<Rightarrow> int option" where
  "parse_number_after buf =
     (case find_byte buf (CHR '':'') of
        None \<Rightarrow> None
      | Some colon \<Rightarrow>
          let rest = dropWhile (\<lambda>c. c = CHR '' '' \<or> c = char_of (9 :: nat)) (drop (colon + 1) buf)
          in if rest = [] then None
          else
            let negative = (hd rest = CHR ''-'');
                digits = takeWhile is_ascii_digit (if negative then tl rest else rest);
                val = foldl (\<lambda>val c. val * 10 + of_nat (digit_val c)) (0 :: 32 word) digits
            in if digits = [] then None
               else Some (sint (if negative then - val else val)))"

fun hex_digit :: "char \<Rightarrow> nat option" where
  "hex_digit b =
     (let n = (of_char b :: nat) in
      if 48 \<le> n \<and> n \<le> 57 then Some (n - 48)
      else if 97 \<le> n \<and> n \<le> 102 then Some (n - 97 + 10)
      else if 65 \<le> n \<and> n \<le> 70 then Some (n - 65 + 10)
      else None)"

declare hex_digit.simps [simp del]

text \<open>The checked multiplication and addition fail above the range of \<open>u64\<close>.\<close>

fun hex_loop :: "nat \<Rightarrow> bytes \<Rightarrow> nat option" where
  "hex_loop val [] = Some val"
| "hex_loop val (b # hex) =
     (case hex_digit b of
        None \<Rightarrow> None
      | Some d \<Rightarrow>
          if 2 ^ 64 \<le> val * 16 then None
          else if 2 ^ 64 \<le> val * 16 + d then None
          else hex_loop (val * 16 + d) hex)"

definition parse_hex_u64 :: "bytes \<Rightarrow> u64 option" where
  "parse_hex_u64 hex = map_option of_nat (hex_loop 0 hex)"

definition find_error_code :: "bytes \<Rightarrow> int option" where
  "find_error_code body =
     (case find_key body (jstr ''error'') of
        None \<Rightarrow> None
      | Some error_pos \<Rightarrow>
          (case find_key (drop error_pos body) (jstr ''code'') of
             None \<Rightarrow> None
           | Some code_pos \<Rightarrow> parse_number_after (drop (error_pos + code_pos) body)))"

definition find_request_id :: "bytes \<Rightarrow> u64 option" where
  "find_request_id body =
     (case find_key body (jstr ''request_id'') of
        None \<Rightarrow> None
      | Some key_pos \<Rightarrow>
          let rest = drop key_pos body in
          (case find_byte rest (CHR '':'') of
             None \<Rightarrow> None
           | Some colon \<Rightarrow>
               (case find_byte (drop colon rest) quot of
                  None \<Rightarrow> None
                | Some quote_start \<Rightarrow>
                    let value_start = colon + quote_start + 1 in
                    if length rest \<le> value_start then None
                    else
                      let value_rest = drop value_start rest in
                      (case find_byte value_rest quot of
                         None \<Rightarrow> None
                       | Some quote_end \<Rightarrow> parse_hex_u64 (take quote_end value_rest)))))"

definition parse_json_rpc_response :: "bytes \<Rightarrow> client_error + u64" where
  "parse_json_rpc_response body =
     (case find_error_code body of
        Some code \<Rightarrow> Inl (Rpc code)
      | None \<Rightarrow> (case find_request_id body of Some request_id \<Rightarrow> Inr request_id | None \<Rightarrow> Inl InvalidResponse))"

definition parse_response :: "bytes \<Rightarrow> client_error + u64" where
  "parse_response buf =
     (case cl_find_headers_end buf of
        None \<Rightarrow> Inl BadHttp
      | Some headers_end \<Rightarrow>
          let status = get_http_status buf in
          if status < 200 \<or> 300 \<le> status then Inl BadHttp
          else parse_json_rpc_response (drop (headers_end + 4) buf))"

section \<open>Client and server scan alike\<close>

lemma cl_find_headers_end_eq: "cl_find_headers_end = find_headers_end"
  by (rule ext) (simp add: cl_find_headers_end_def find_headers_end_def)

lemma cl_is_body_complete_eq: "cl_is_body_complete = is_body_complete"
  by (intro ext) (simp add: cl_is_body_complete_def is_body_complete_def cl_find_content_length_def
      find_content_length_bytes_def Let_def)

lemma cl_is_complete_eq: "cl_is_complete = is_complete"
  by (rule ext) (simp add: cl_is_complete_def is_complete_def cl_find_headers_end_eq cl_is_body_complete_eq split: option.split)

end
