(* ===== verification/Wire_Protocol.thy ===== *)
theory Wire_Protocol
  imports Http_Client
begin

text \<open>
  The client and the server on the two ends of a connection: what the client builds is what the
  server parses, and each side waits for exactly the whole message of the other.
\<close>

section \<open>The end of the headers\<close>

lemma CR_LF [simp]: "CR \<noteq> LF" "LF \<noteq> CR"
  by (simp_all add: CR_def LF_def)

lemma CRLF_eq: "CRLF @ CRLF = [CR, LF, CR, LF]"
  by (simp add: CRLF_def)

lemma find_upt_Suc: "find P [0..<Suc n] = (if P 0 then Some 0 else map_option Suc (find (\<lambda>i. P (Suc i)) [0..<n]))"
proof -
  have "[0..<Suc n] = 0 # map Suc [0..<n]" by (simp only: upt_conv_Cons zero_less_Suc map_Suc_upt)
  moreover have "find P (map Suc xs) = map_option Suc (find (\<lambda>i. P (Suc i)) xs)" for xs by (induction xs) auto
  ultimately show ?thesis by (simp del: upt_Suc)
qed

lemma find_headers_end_Cons:
  "find_headers_end (c # s) =
     (if take 4 (c # s) = CRLF @ CRLF then Some 0 else map_option Suc (find_headers_end s))"
proof (cases "length s < 3")
  case True
  then have "take 4 (c # s) \<noteq> CRLF @ CRLF" using arg_cong [of "take 4 (c # s)" "CRLF @ CRLF" length] by (auto simp: CRLF_eq)
  with True show ?thesis by (simp add: find_headers_end_def)
next
  case False
  then have "length (c # s) - 3 = Suc (length s - 3)" by simp
  then show ?thesis unfolding find_headers_end_def by (simp only: find_upt_Suc drop_0 drop_Suc_Cons)
qed

lemma find_headers_end_skip:
  "CR \<notin> set l \<Longrightarrow> find_headers_end (l @ s) = map_option ((+) (length l)) (find_headers_end s)"
  by (cases "find_headers_end s"; induction l) (auto simp: find_headers_end_Cons CRLF_eq)

lemma find_headers_end_line:
  "c \<noteq> CR \<Longrightarrow> find_headers_end (CRLF @ c # s) = map_option ((+) 2) (find_headers_end (c # s))"
  by (cases "find_headers_end (c # s)")
    (simp_all add: CRLF_def find_headers_end_Cons [of CR] find_headers_end_Cons [of LF])

text \<open>Header lines: not empty and without line ends.\<close>

definition header_line :: "bytes \<Rightarrow> bool" where
  "header_line l \<longleftrightarrow> l \<noteq> [] \<and> CR \<notin> set l \<and> LF \<notin> set l"

definition join_lines :: "bytes list \<Rightarrow> bytes" where
  "join_lines ls = concat (map (\<lambda>l. l @ CRLF) (butlast ls)) @ last ls"

lemma join_lines_Cons: "ls \<noteq> [] \<Longrightarrow> join_lines (l # ls) = l @ CRLF @ join_lines ls"
  by (simp add: join_lines_def)

lemma join_lines_single [simp]: "join_lines [l] = l"
  by (simp add: join_lines_def)

lemma find_headers_end_join:
  "ls \<noteq> [] \<Longrightarrow> list_all header_line ls \<Longrightarrow>
     find_headers_end (join_lines ls @ CRLF @ CRLF @ body) = Some (length (join_lines ls))"
proof (induction ls rule: list_nonempty_induct)
  case (single l)
  have "find_headers_end (CRLF @ CRLF @ body) = Some 0"
    by (simp add: CRLF_def find_headers_end_Cons)
  with single show ?case by (simp add: find_headers_end_skip header_line_def)
next
  case (cons l ls)
  then obtain c s where cs: "join_lines ls = c # s" "c \<noteq> CR"
  proof (cases ls)
    case (Cons l' ls')
    then obtain c s where "l' = c # s" "c \<noteq> CR" using cons.prems by (cases l') (auto simp: header_line_def)
    with Cons that show ?thesis by (cases ls') (auto simp: join_lines_Cons)
  qed simp
  have "find_headers_end (join_lines ls @ CRLF @ CRLF @ body) = Some (length (join_lines ls))"
    using cons by simp
  then show ?case
    using cons.prems cons.hyps find_headers_end_line [OF cs(2), of "s @ CRLF @ CRLF @ body"]
    by (simp add: join_lines_Cons find_headers_end_skip header_line_def cs(1) CRLF_def)
qed

section \<open>Splitting the header text into lines\<close>

lemma split_lf_skip: "LF \<notin> set l \<Longrightarrow> split_lf acc (l @ s) = split_lf (acc @ l) s"
  by (induction l arbitrary: acc) auto

lemma str_lines_join: "ls \<noteq> [] \<Longrightarrow> list_all header_line ls \<Longrightarrow> str_lines (join_lines ls) = ls"
proof (induction ls rule: list_nonempty_induct)
  case (single l)
  then show ?case using split_lf_skip [of l "[]" "[]"] by (simp add: str_lines_def header_line_def)
next
  case (cons l ls)
  then show ?case
    by (simp add: join_lines_Cons str_lines_def header_line_def split_lf_skip CRLF_def)
qed

section \<open>The content length\<close>

text \<open>The scan as a recursion that remembers whether it is at the start of a line.\<close>

definition cl_match :: "bytes \<Rightarrow> bool" where
  "cl_match s \<longleftrightarrow> (hd s = CHR ''C'' \<or> hd s = CHR ''c'') \<and> eq_ignore_ascii_case (take 14 (drop 1 s)) ''ontent-length:''"

fun cl_scan :: "bool \<Rightarrow> bytes \<Rightarrow> usize option" where
  "cl_scan st [] = None"
| "cl_scan st (c # s) =
     (if length (c # s) < 15 then None
      else if st \<and> cl_match (c # s) then Some (digits_usize (skip_blanks (drop 15 (c # s))))
      else cl_scan (c = LF) s)"

lemma cl_scan_find:
  "k \<le> length H \<Longrightarrow>
     map_option (\<lambda>i. digits_usize (skip_blanks (drop (i + 15) H))) (find (content_length_at H) [k..<length H - 14]) =
     cl_scan (k = 0 \<or> H ! (k - 1) = LF) (drop k H)"
proof (induction "length H - k" arbitrary: k)
  case 0
  then show ?case by simp
next
  case (Suc n)
  then have k: "k < length H" by simp
  then have d: "drop k H = H ! k # drop (Suc k) H" by (simp add: Cons_nth_drop_Suc)
  have IH: "map_option (\<lambda>i. digits_usize (skip_blanks (drop (i + 15) H))) (find (content_length_at H) [Suc k..<length H - 14]) =
      cl_scan (H ! k = LF) (drop (Suc k) H)"
    using Suc.hyps(1) [of "Suc k"] Suc.hyps(2) k by simp
  have m: "content_length_at H k \<longleftrightarrow> (k = 0 \<or> H ! (k - 1) = LF) \<and> cl_match (drop k H)"
    unfolding content_length_at_def cl_match_def using k by (simp add: d hd_drop_conv_nth)
  show ?case
  proof (cases "length (drop k H) < 15")
    case True
    then have "cl_scan st (drop k H) = None" for st by (cases "drop k H") simp_all
    with True k show ?thesis by simp
  next
    case False
    then have "[k..<length H - 14] = k # [Suc k..<length H - 14]" using k by (simp add: upt_conv_Cons)
    moreover have "cl_scan st (H ! k # drop (Suc k) H) =
        (if st \<and> cl_match (H ! k # drop (Suc k) H) then Some (digits_usize (skip_blanks (drop 15 (H ! k # drop (Suc k) H))))
         else cl_scan (H ! k = LF) (drop (Suc k) H))" for st
      using False unfolding d by simp
    then have "cl_scan st (drop k H) =
        (if st \<and> cl_match (drop k H) then Some (digits_usize (skip_blanks (drop (k + 15) H)))
         else cl_scan (H ! k = LF) (drop (Suc k) H))" for st
      unfolding d [symmetric] by (simp add: add.commute)
    ultimately show ?thesis using IH m by simp
  qed
qed

lemma find_content_length_scan: "find_content_length_bytes H = cl_scan True H"
proof (cases "length H < 15")
  case True
  then show ?thesis by (cases H) (simp_all add: find_content_length_bytes_def)
next
  case False
  then show ?thesis using cl_scan_find [of 0 H] by (simp add: find_content_length_bytes_def)
qed

lemma cl_scan_inside: "LF \<notin> set l \<Longrightarrow> 15 \<le> length s \<Longrightarrow> cl_scan False (l @ s) = cl_scan False s"
  by (induction l) auto

lemma cl_scan_line:
  assumes "header_line l" "15 \<le> length s" "\<not> cl_match (l @ CRLF @ s)"
  shows "cl_scan True (l @ CRLF @ s) = cl_scan True s"
proof -
  obtain c l' where l: "l = c # l'" using assms(1) by (cases l) (auto simp: header_line_def)
  have lf: "LF \<notin> set l'" "c \<noteq> LF" using assms(1) by (auto simp: header_line_def l)
  have "cl_scan True (l @ CRLF @ s) = cl_scan False (l' @ CRLF @ s)"
    using assms(2,3) lf unfolding l by simp
  also have "\<dots> = cl_scan False (CRLF @ s)" using lf assms(2) by (intro cl_scan_inside) (auto simp: CRLF_def)
  also have "\<dots> = cl_scan True s" using assms(2) by (simp add: CRLF_def)
  finally show ?thesis .
qed

lemma foldl_digits_word:
  "foldl (\<lambda>val c. val * 10 + of_nat (digit_val c)) (of_nat v) ds =
     (of_nat (foldl (\<lambda>v c. v * 10 + digit_val c) v ds) :: usize)"
proof (induction ds arbitrary: v)
  case Nil
  then show ?case by simp
next
  case (Cons d ds)
  have "(of_nat v * 10 + of_nat (digit_val d) :: usize) = of_nat (v * 10 + digit_val d)" by simp
  with Cons [of "v * 10 + digit_val d"] show ?case by (simp only: foldl_Cons)
qed

lemma skip_blanks_digits:
  assumes "s = [] \<or> \<not> is_ascii_digit (hd s)" "n < 2 ^ 64"
  shows "digits_usize (skip_blanks ('' '' @ show_nat n @ s)) = of_nat n"
proof -
  have dg: "list_all is_ascii_digit (show_nat n)" using show_nat_digits by (auto simp: list_all_iff)
  obtain c r where c: "show_nat n = c # r" by (cases "show_nat n") auto
  then have "is_ascii_digit c" using dg by simp
  then have "c \<noteq> CHR '' ''" by (auto simp: is_ascii_digit_def)
  then have "skip_blanks ('' '' @ show_nat n @ s) = show_nat n @ s" unfolding skip_blanks_def c by simp
  moreover have "takeWhile is_ascii_digit (show_nat n @ s) = show_nat n"
    using dg assms(1) by (cases s) (auto simp: list_all_iff takeWhile_append2)
  moreover have "foldl (\<lambda>val c. val * 10 + of_nat (digit_val c)) 0 (show_nat n) = (of_nat n :: usize)"
    using foldl_digits_word [of 0 "show_nat n"] digits_val_show [of n] by (simp add: digits_val_def)
  ultimately show ?thesis by (simp add: digits_usize_def)
qed

lemma cl_match_header: "cl_match (''Content-Length: '' @ s)"
proof -
  have "ascii_lower (CHR ''L'') = ascii_lower (CHR ''l'')" by code_simp
  then show ?thesis by (simp add: cl_match_def eq_ignore_ascii_case_def)
qed

lemma cl_scan_hit:
  assumes "s = [] \<or> \<not> is_ascii_digit (hd s)" "n < 2 ^ 64"
  shows "cl_scan True (''Content-Length: '' @ show_nat n @ s) = Some (of_nat n)"
proof -
  let ?r = "''ontent-Length: '' @ show_nat n @ s"
  have "cl_match (CHR ''C'' # ?r)" using cl_match_header [of "show_nat n @ s"] by simp
  moreover have "drop 15 (CHR ''C'' # ?r) = '' '' @ show_nat n @ s" by simp
  moreover have "\<not> length (CHR ''C'' # ?r) < 15" by simp
  ultimately have "cl_scan True (CHR ''C'' # ?r) = Some (digits_usize (skip_blanks ('' '' @ show_nat n @ s)))"
    by (simp only: cl_scan.simps simp_thms if_True if_False)
  then show ?thesis unfolding skip_blanks_digits [OF assms] by simp
qed

section \<open>Complete messages\<close>

text \<open>A message whose header lines end in one with the content length, and the body that it announces.\<close>

lemma find_headers_end_take:
  assumes "find_headers_end (take k buf) = Some i"
  shows "find_headers_end buf = Some i \<and> i + 4 \<le> k"
  using assms
proof (induction buf arbitrary: k i)
  case Nil
  then show ?case by (simp add: find_headers_end_def)
next
  case (Cons c buf)
  show ?case
  proof (cases k)
    case 0
    then show ?thesis using Cons.prems by (simp add: find_headers_end_def)
  next
    case (Suc k')
    show ?thesis
    proof (cases "take 4 (c # take k' buf) = CRLF @ CRLF")
      case True
      then have "length (take 4 (c # take k' buf)) = 4" by (simp add: CRLF_eq)
      then have "3 \<le> k'" by (auto simp: min_def split: if_splits)
      moreover from this have "take 4 (c # buf) = CRLF @ CRLF"
        using True by (simp add: take_Cons' min_def)
      ultimately show ?thesis using Cons.prems Suc True by (simp add: find_headers_end_Cons)
    next
      case False
      then obtain j where j: "i = Suc j" "find_headers_end (take k' buf) = Some j"
        using Cons.prems Suc by (auto simp: find_headers_end_Cons)
      from Cons.IH [OF j(2)] have IH: "find_headers_end buf = Some j" "j + 4 \<le> k'" by simp_all
      then have "take 4 (c # take k' buf) = take 4 (c # buf)" by (simp add: take_Cons' min_def)
      with False IH j Suc show ?thesis by (simp add: find_headers_end_Cons)
    qed
  qed
qed

lemma is_complete_exact:
  assumes he: "find_headers_end buf = Some (length h)" and buf: "buf = h @ CRLF @ CRLF @ body"
    and cl: "find_content_length_bytes h = Some (of_nat (length body))" and small: "length body < 2 ^ 64"
  shows "is_complete buf \<and> (\<forall>k < length buf. \<not> is_complete (take k buf))"
proof -
  have un: "unat (of_nat (length body) :: usize) = length body" using small by (simp add: unat_of_nat)
  have len: "length buf = length h + 4 + length body" by (simp add: buf CRLF_def)
  have "is_complete buf"
    using he cl un len by (simp add: is_complete_def is_body_complete_def buf)
  moreover have "\<not> is_complete (take k buf)" if k: "k < length buf" for k
  proof (cases "find_headers_end (take k buf)")
    case None
    then show ?thesis by (simp add: is_complete_def)
  next
    case (Some i)
    from find_headers_end_take [OF Some] he have i: "i = length h" "length h + 4 \<le> k" by simp_all
    then have "take (length h) (take k buf) = h" by (simp add: buf min_def)
    then show ?thesis using Some i cl un k len by (simp add: is_complete_def is_body_complete_def)
  qed
  ultimately show ?thesis by blast
qed

section \<open>Requests: from the client to the server\<close>

lemma white_space_blank: "leading_space (CHR '' '' # s) = 1"
proof -
  have "CHR '' '' = char_of (0x20 :: nat)" by code_simp
  then show ?thesis by (simp add: leading_space_def white_space_def)
qed

lemma trim_start_blank: "s \<noteq> [] \<Longrightarrow> is_graph (hd s) \<Longrightarrow> trim_start (CHR '' '' # s) = s"
proof -
  assume s: "s \<noteq> []" "is_graph (hd s)"
  have "drop (leading_space s) s = s" using leading_space_graph [OF s] by simp
  then have "((\<lambda>s. drop (leading_space s) s) ^^ length s) s = s" by (rule funpow_fixpoint)
  then show ?thesis
    unfolding trim_start_def list.size(4) Nat.add_0_right add_Suc_right funpow_Suc_right o_def
    by (simp add: white_space_blank)
qed

lemma trim_blank: "s \<noteq> [] \<Longrightarrow> is_graph (hd s) \<Longrightarrow> is_graph (last s) \<Longrightarrow> trim (CHR '' '' # s) = s"
proof -
  assume s: "s \<noteq> []" "is_graph (hd s)" "is_graph (last s)"
  have "take (length s - trailing_space s) s = s" using trailing_space_graph [OF s(1,3)] by simp
  then have "trim_end s = s" unfolding trim_end_def by (intro funpow_fixpoint) simp
  then show ?thesis by (simp add: trim_def trim_start_blank [OF s(1,2)])
qed

lemma parse_header_line_pair:
  assumes "name \<noteq> []" "CHR '':'' \<notin> set name" "is_graph (hd name)" "is_graph (last name)"
    and "val \<noteq> []" "is_graph (hd val)" "is_graph (last val)"
  shows "parse_header_line (name @ '': '' @ val) = Inr (name, val)"
proof -
  have "length (takeWhile (\<lambda>c. c \<noteq> CHR '':'') (name @ '': '' @ val)) = length name"
    using assms(2) by (subst takeWhile_append2) auto
  then show ?thesis
    using trim_graph [of name] trim_blank [of val] assms by (simp add: parse_header_line_def Let_def)
qed

lemma split_ws_word: "list_all is_graph w \<Longrightarrow> split_ws acc (w @ s) = split_ws (acc @ w) s"
proof (induction w arbitrary: acc)
  case (Cons c w)
  then have "leading_space (c # w @ s) = 0" by (intro leading_space_graph) simp_all
  with Cons show ?case by (simp add: split_ws.simps(2))
qed simp

lemma split_ws_blank: "acc \<noteq> [] \<Longrightarrow> split_ws acc (CHR '' '' # s) = acc # split_ws [] s"
  by (simp add: split_ws.simps(2) white_space_blank)

lemma parse_post: "parse_request_line ''POST / HTTP/1.1'' = Inr (''POST'', ''/'')"
proof -
  have g: "list_all is_graph ''POST''" "list_all is_graph ''/''" "list_all is_graph ''HTTP/1.1''"
    by (simp_all add: is_graph_def)
  have "split_ws [] (''POST'' @ '' '' @ ''/'' @ '' '' @ ''HTTP/1.1'' @ []) = [''POST'', ''/'', ''HTTP/1.1'']"
    unfolding append_Cons append_Nil
    using split_ws_word [OF g(1), of "[]"] split_ws_word [OF g(2), of "[]"] split_ws_word [OF g(3), of "[]" "[]"]
    by (simp add: split_ws_blank split_ws.simps(1))
  then show ?thesis by (simp add: parse_request_line_def)
qed

lemma valid_utf8_ascii: "list_all (\<lambda>n. n < 0x80) s \<Longrightarrow> valid_utf8 s"
  by (induction s rule: valid_utf8.induct) auto

lemma from_utf8_ascii: "list_all (\<lambda>c. (of_char c :: nat) < 0x80) s \<Longrightarrow> from_utf8_ok s"
  by (simp add: from_utf8_ok_def list_all_iff valid_utf8_ascii)

lemma parse_usize_show: "n < 2 ^ 64 \<Longrightarrow> parse_usize (show_nat n) = Some (of_nat n)"
proof -
  assume n: "n < 2 ^ 64"
  obtain c r where c: "show_nat n = c # r" by (cases "show_nat n") auto
  have dg: "list_all is_ascii_digit (show_nat n)" using show_nat_digits by (auto simp: list_all_iff)
  then have "c \<noteq> CHR ''+''" using c by (auto simp: is_ascii_digit_def)
  then show ?thesis using n dg digits_val_show [of n] unfolding c by (simp add: parse_usize_def)
qed

text \<open>The header lines that the client writes.\<close>

definition request_lines :: "bytes \<Rightarrow> nat \<Rightarrow> bytes list" where
  "request_lines host n =
     [''POST / HTTP/1.1'', ''Host: '' @ host, ''Content-Type: application/json'', ''Content-Length: '' @ show_nat n,
      ''Connection: keep-alive'']"

lemma build_request_lines:
  "build_request encode host i tx f slot =
     join_lines (request_lines host (length (request_body encode i tx f slot))) @ CRLF @ CRLF @ request_body encode i tx f slot"
  by (simp add: build_request_def request_lines_def Let_def join_lines_def)

lemma graph_no_line_end: "is_graph c \<Longrightarrow> c \<noteq> CR \<and> c \<noteq> LF \<and> (of_char c :: nat) < 0x80"
  by (auto simp: is_graph_def CR_def LF_def of_char_of)

lemma digit_no_line_end: "is_ascii_digit c \<Longrightarrow> c \<noteq> CR \<and> c \<noteq> LF \<and> (of_char c :: nat) < 0x80"
  using graph_no_line_end is_ascii_digit_graph by blast

definition host_ok :: "bytes \<Rightarrow> bool" where
  "host_ok host \<longleftrightarrow> host \<noteq> [] \<and> list_all is_graph host"

lemma CR_LF_code: "(of_char CR :: nat) = 13" "(of_char LF :: nat) = 10"
  by (simp_all add: CR_def LF_def of_char_of)

lemma neq_CR_LF: "(of_char c :: nat) \<noteq> 13 \<Longrightarrow> CR \<noteq> c" "(of_char c :: nat) \<noteq> 10 \<Longrightarrow> LF \<noteq> c"
  using CR_LF_code by auto

lemma plain_line: "l \<noteq> [] \<Longrightarrow> list_all (\<lambda>c. 32 \<le> (of_char c :: nat)) l \<Longrightarrow> header_line l"
  using CR_LF_code by (fastforce simp: header_line_def list_all_iff)

lemma graph_plain: "list_all is_graph s \<Longrightarrow> list_all (\<lambda>c. 32 \<le> (of_char c :: nat)) s \<and> list_all (\<lambda>c. (of_char c :: nat) < 0x80) s"
  by (auto simp: list_all_iff is_graph_def)

lemma show_nat_graph: "list_all is_graph (show_nat n)"
  using show_nat_digits is_ascii_digit_graph by (auto simp: list_all_iff)

lemma request_lines_ok:
  assumes "host_ok host"
  shows "list_all header_line (request_lines host n)"
    "list_all (\<lambda>c. (of_char c :: nat) < 0x80) (join_lines (request_lines host n))"
proof -
  note h = graph_plain [of host] and d = graph_plain [OF show_nat_graph [of n]]
  show "list_all header_line (request_lines host n)"
    using assms h d unfolding request_lines_def host_ok_def
    by (simp only: list.pred_inject, intro conjI plain_line) simp_all
  show "list_all (\<lambda>c. (of_char c :: nat) < 0x80) (join_lines (request_lines host n))"
    using assms h d by (simp add: request_lines_def host_ok_def join_lines_def CRLF_def CR_LF_code)
qed

lemma content_type_no_match: "\<not> cl_match (''Content-Type: application/json'' @ s)"
proof -
  have "ascii_lower (CHR ''T'') \<noteq> ascii_lower (CHR ''l'')" by code_simp
  then show ?thesis by (simp add: cl_match_def eq_ignore_ascii_case_def)
qed

lemma request_content_length:
  assumes "host_ok host" "n < 2 ^ 64"
  shows "find_content_length_bytes (join_lines (request_lines host n)) = Some (of_nat n)"
proof -
  have hl: "header_line ''POST / HTTP/1.1''" "header_line (''Host: '' @ host)" "header_line ''Content-Type: application/json''"
    using request_lines_ok(1) [OF assms(1), of n] by (simp_all add: request_lines_def)
  let ?s4 = "''Content-Length: '' @ show_nat n @ CRLF @ ''Connection: keep-alive''"
  have s4: "cl_scan True ?s4 = Some (of_nat n)"
    by (rule cl_scan_hit [OF _ assms(2)]) (simp add: CRLF_def is_ascii_digit_def CR_LF_code)
  have s3: "cl_scan True (''Content-Type: application/json'' @ CRLF @ ?s4) = cl_scan True ?s4"
    by (rule cl_scan_line [OF hl(3)]) (simp_all only: content_type_no_match not_False_eq_True, simp)
  have s2: "cl_scan True ((''Host: '' @ host) @ CRLF @ ''Content-Type: application/json'' @ CRLF @ ?s4) =
      cl_scan True (''Content-Type: application/json'' @ CRLF @ ?s4)"
    by (rule cl_scan_line [OF hl(2)]) (simp_all add: cl_match_def)
  have "cl_scan True (''POST / HTTP/1.1'' @ CRLF @ (''Host: '' @ host) @ CRLF @ ''Content-Type: application/json'' @ CRLF @ ?s4) =
      cl_scan True ((''Host: '' @ host) @ CRLF @ ''Content-Type: application/json'' @ CRLF @ ?s4)"
    by (rule cl_scan_line [OF hl(1)]) (simp_all add: cl_match_def)
  with s2 s3 s4 show ?thesis
    by (simp only: find_content_length_scan request_lines_def join_lines_Cons join_lines_single list.distinct simp_thms append_assoc)
qed

lemma names_lower:
  "\<not> eq_ignore_ascii_case ''Host'' ''content-length''" "\<not> eq_ignore_ascii_case ''Host'' ''connection''"
  "\<not> eq_ignore_ascii_case ''Content-Type'' ''content-length''" "\<not> eq_ignore_ascii_case ''Content-Type'' ''connection''"
  "eq_ignore_ascii_case ''Content-Length'' ''content-length''" "\<not> eq_ignore_ascii_case ''Connection'' ''content-length''"
  "eq_ignore_ascii_case ''Connection'' ''connection''" "\<not> eq_ignore_ascii_case ''keep-alive'' ''close''"
  by code_simp+

lemma request_parse_headers:
  assumes "host_ok host" "n < 2 ^ 64"
  shows "parse_headers (tl (request_lines host n)) [] 0 False =
    Inr ([(''Host'', host), (''Content-Type'', ''application/json''), (''Content-Length'', show_nat n), (''Connection'', ''keep-alive'')],
      of_nat n, False)"
proof -
  have h: "is_graph (hd host)" "is_graph (last host)" "host \<noteq> []"
    using assms(1) by (auto simp: host_ok_def list_all_iff)
  have d: "is_graph (hd (show_nat n))" "is_graph (last (show_nat n))"
    using show_nat_graph [of n] by (auto simp: list_all_iff)
  have "parse_header_line (''Host'' @ '': '' @ host) = Inr (''Host'', host)"
    "parse_header_line (''Content-Type'' @ '': '' @ ''application/json'') = Inr (''Content-Type'', ''application/json'')"
    "parse_header_line (''Content-Length'' @ '': '' @ show_nat n) = Inr (''Content-Length'', show_nat n)"
    "parse_header_line (''Connection'' @ '': '' @ ''keep-alive'') = Inr (''Connection'', ''keep-alive'')"
    using h d by (intro parse_header_line_pair; simp add: is_graph_def)+
  then show ?thesis
    using parse_usize_show [OF assms(2)] by (simp add: request_lines_def names_lower)
qed

lemma client_request_complete:
  assumes "host_ok host" "length (request_body encode i tx f slot) < 2 ^ 64"
    and "buf = build_request encode host i tx f slot"
  shows "is_complete buf \<and> (\<forall>k < length buf. \<not> is_complete (take k buf))"
proof -
  let ?body = "request_body encode i tx f slot"
  let ?ls = "request_lines host (length ?body)"
  have ne: "?ls \<noteq> []" by (simp add: request_lines_def)
  have buf: "buf = join_lines ?ls @ CRLF @ CRLF @ ?body" unfolding assms(3) by (rule build_request_lines)
  have "find_headers_end buf = Some (length (join_lines ?ls))"
    unfolding buf by (rule find_headers_end_join [OF ne request_lines_ok(1) [OF assms(1)]])
  from is_complete_exact [OF this buf request_content_length [OF assms(1,2)] assms(2)] show ?thesis .
qed

lemma client_request_parsed:
  assumes "host_ok host" "length (request_body encode i tx f slot) < 2 ^ 64"
    and "buf = build_request encode host i tx f slot"
  shows "http_parse buf = Inr \<lparr>hr_method = ''POST'', hr_path = ''/'',
      hr_headers = [(''Host'', host), (''Content-Type'', ''application/json''),
        (''Content-Length'', show_nat (length (request_body encode i tx f slot))), (''Connection'', ''keep-alive'')],
      hr_body = request_body encode i tx f slot, hr_connection_close = False\<rparr>"
proof -
  let ?body = "request_body encode i tx f slot"
  let ?ls = "request_lines host (length ?body)"
  have ne: "?ls \<noteq> []" by (simp add: request_lines_def)
  note ok = request_lines_ok [OF assms(1), of "length ?body"]
  have buf: "buf = join_lines ?ls @ CRLF @ CRLF @ ?body" unfolding assms(3) by (rule build_request_lines)
  have he: "find_headers_end buf = Some (length (join_lines ?ls))"
    unfolding buf by (rule find_headers_end_join [OF ne ok(1)])
  have lines: "str_lines (join_lines ?ls) = ''POST / HTTP/1.1'' # tl ?ls"
    using str_lines_join [OF ne ok(1)] by (simp add: request_lines_def)
  have len: "length buf = length (join_lines ?ls) + 4 + length ?body" unfolding buf by (simp add: CRLF_def)
  have body: "?body \<noteq> []" by (simp add: request_body_def)
  have "take (length (join_lines ?ls)) buf = join_lines ?ls" "drop (length (join_lines ?ls) + 4) buf = ?body"
    unfolding buf by (simp_all add: CRLF_def)
  moreover have "unat (of_nat (length ?body) :: usize) = length ?body" using assms(2) by (simp add: unat_of_nat)
  ultimately show ?thesis
    using he lines len body from_utf8_ascii [OF ok(2)] request_parse_headers [OF assms(1,2)]
    by (simp add: http_parse_def parse_post)
qed

text \<open>
  C8. The server understands what the client sends. For every transaction, options and host
  name, the request that the client builds is complete for the server when its last byte has
  arrived and not before, and parses into a \<open>POST\<close> to the root with exactly the client's JSON as
  its body and a connection that stays open.
\<close>

theorem client_request_understood:
  assumes "host_ok host" "length (request_body encode i tx f slot) < 2 ^ 64"
    and "buf = build_request encode host i tx f slot"
  shows "is_complete buf \<and> (\<forall>k < length buf. \<not> is_complete (take k buf)) \<and>
    (\<exists>r. http_parse buf = Inr r \<and> hr_method r = ''POST'' \<and> hr_path r = ''/'' \<and>
       hr_body r = request_body encode i tx f slot \<and> \<not> hr_connection_close r \<and> get_header r ''host'' = Some host)"
proof -
  have "eq_ignore_ascii_case ''Host'' ''host''" by code_simp
  then show ?thesis using client_request_complete [OF assms] client_request_parsed [OF assms] by (simp add: get_header_def)
qed

theorem client_request_understood_witness:
  "is_complete (build_request b64_encode ''h:80'' 1 [] 1 0)"
proof -
  have "host_ok ''h:80''" by (simp add: host_ok_def is_graph_def)
  moreover have "show_nat 1 = ''1''" "show_nat 0 = ''0''" by code_simp+
  then have "length (request_body b64_encode 1 [] 1 0) < 2 ^ 64"
    by (simp add: request_body_def jstr_def)
  ultimately show ?thesis using client_request_understood by blast
qed

end
