(* ===== verification/Slab_Spec.thy ===== *)
theory Slab_Spec
  imports Main
begin

text \<open>
  The contract of a pool of numbered slots, as the event loop of the server relies on it: an
  insertion picks a slot that nothing live occupies and changes no other slot, an update and a removal
  change only their own slot. The lemmas of the interface say that attributes which distinguish the
  live entries, such as the socket or the id of the awaited request, keep distinguishing them.
\<close>

locale slab =
  fixes lookup :: "nat \<Rightarrow> 's \<Rightarrow> 'c option"
    and invar :: "'s \<Rightarrow> bool"
    and make :: "'k \<Rightarrow> 'c"
    and insert_new :: "'k \<Rightarrow> 's \<Rightarrow> nat \<times> 's"
    and replace :: "nat \<Rightarrow> 'c \<Rightarrow> 's \<Rightarrow> 's"
    and delete :: "nat \<Rightarrow> 's \<Rightarrow> 's"
  assumes insert_invar: "invar s \<Longrightarrow> insert_new k s = (i, s') \<Longrightarrow> invar s'"
    and insert_fresh: "invar s \<Longrightarrow> insert_new k s = (i, s') \<Longrightarrow> lookup i s = None"
    and insert_lookup: "invar s \<Longrightarrow> insert_new k s = (i, s') \<Longrightarrow>
          lookup j s' = (if j = i then Some (make k) else lookup j s)"
    and replace_invar: "invar s \<Longrightarrow> lookup i s \<noteq> None \<Longrightarrow> invar (replace i c s)"
    and replace_lookup: "invar s \<Longrightarrow> lookup i s \<noteq> None \<Longrightarrow>
          lookup j (replace i c s) = (if j = i then Some c else lookup j s)"
    and delete_invar: "invar s \<Longrightarrow> lookup i s \<noteq> None \<Longrightarrow> invar (delete i s)"
    and delete_lookup: "invar s \<Longrightarrow> lookup i s \<noteq> None \<Longrightarrow>
          lookup j (delete i s) = (if j = i then None else lookup j s)"
begin

text \<open>An attribute is unique when no two live entries have it and agree on it.\<close>

definition unique_by :: "('c \<Rightarrow> 'a option) \<Rightarrow> 's \<Rightarrow> bool" where
  "unique_by key s \<longleftrightarrow>
     (\<forall>i j c d. lookup i s = Some c \<and> lookup j s = Some d \<and> key c \<noteq> None \<and> key c = key d \<longrightarrow> i = j)"

lemma unique_byD:
  "unique_by key s \<Longrightarrow> lookup i s = Some c \<Longrightarrow> lookup j s = Some d \<Longrightarrow> key c = Some x \<Longrightarrow> key d = Some x \<Longrightarrow> i = j"
  unfolding unique_by_def by (metis option.distinct(1))

lemma unique_insert:
  assumes "invar s" "insert_new k s = (i, s')" "unique_by key s"
    and "\<And>j d. lookup j s = Some d \<Longrightarrow> key (make k) \<noteq> None \<Longrightarrow> key d \<noteq> key (make k)"
  shows "unique_by key s'"
  using assms(3,4) unfolding unique_by_def by (auto simp: insert_lookup [OF assms(1,2)] split: if_splits) metis+

lemma unique_replace:
  assumes "invar s" "lookup i s \<noteq> None" "unique_by key s"
    and "\<And>j d. j \<noteq> i \<Longrightarrow> lookup j s = Some d \<Longrightarrow> key c \<noteq> None \<Longrightarrow> key d \<noteq> key c"
  shows "unique_by key (replace i c s)"
  using assms(3,4) unfolding unique_by_def by (auto simp: replace_lookup [OF assms(1,2)] split: if_splits) metis+

lemma unique_replace_same:
  assumes "invar s" "lookup i s = Some b" "unique_by key s" "key c = None \<or> key c = key b"
  shows "unique_by key (replace i c s)"
proof (rule unique_replace)
  fix j d
  assume j: "j \<noteq> i" "lookup j s = Some d" "key c \<noteq> None"
  then show "key d \<noteq> key c" using assms(2,3,4) unfolding unique_by_def by metis
qed (use assms in auto)

lemma unique_delete:
  assumes "invar s" "lookup i s \<noteq> None" "unique_by key s"
  shows "unique_by key (delete i s)"
  using assms(3) unfolding unique_by_def by (auto simp: delete_lookup [OF assms(1,2)] split: if_splits)

end

end
