(* ===== verification/Server_Connection.thy ===== *)
theory Server_Connection
  imports Wire_Protocol Slab_Spec
begin

text \<open>
  The TCP connections of the RPC server and their pool, from \<open>src/server/src/server.rs\<close>: reading with
  an incremental scan for the end of the headers, writing with partial writes, the reset for the next
  request of a kept-alive connection, and the slot pool that recycles the buffers of closed
  connections. A socket is a number; what the operating system answers to each \<open>read\<close> and \<open>write\<close> is
  an argument of the loops, one observation per call, and what a \<open>write\<close> accepted is a result.
\<close>

definition MAX_REQUEST_SIZE :: nat where "MAX_REQUEST_SIZE = 1024 * 1024"

datatype connection_state = Reading | Processing | Writing

record connection =
  cn_stream :: nat
  cn_recv_buf :: bytes
  cn_last_scanned_pos :: nat
  cn_headers_end_cache :: "nat option"
  cn_send_buf :: bytes
  cn_json_buf :: bytes
  cn_send_pos :: nat
  cn_pending_request_id :: "u64 option"
  cn_addr :: socket_addr
  cn_state :: connection_state
  cn_should_close :: bool

definition connection_new :: "nat \<Rightarrow> socket_addr \<Rightarrow> connection" where
  "connection_new stream addr =
     \<lparr>cn_stream = stream, cn_recv_buf = [], cn_last_scanned_pos = 0, cn_headers_end_cache = None, cn_send_buf = [],
      cn_json_buf = [], cn_send_pos = 0, cn_pending_request_id = None, cn_addr = addr, cn_state = Reading,
      cn_should_close = False\<rparr>"

text \<open>The answers of the socket; \<open>Ok(0)\<close> of a read is \<open>ReadOk []\<close>.\<close>

datatype read_obs = ReadOk bytes | ReadWouldBlock | ReadErr
datatype write_obs = WriteOk nat | WriteWouldBlock | WriteErr
datatype io_error = RequestTooLarge | SocketError

fun try_read :: "read_obs list \<Rightarrow> connection \<Rightarrow> (io_error + bool) run \<times> connection" where
  "try_read [] c = (Blocked, c)"
| "try_read (ReadOk bs # obs) c =
     (if bs = [] then (Done (Inr False), c)
      else
        let c' = c\<lparr>cn_recv_buf := cn_recv_buf c @ bs\<rparr>
        in if MAX_REQUEST_SIZE < length (cn_recv_buf c') then (Done (Inl RequestTooLarge), c')
           else try_read obs c')"
| "try_read (ReadWouldBlock # obs) c = (Done (Inr True), c)"
| "try_read (ReadErr # obs) c = (Done (Inl SocketError), c)"

text \<open>The second component is what the socket has taken.\<close>

fun try_write :: "write_obs list \<Rightarrow> connection \<Rightarrow> (io_error + bool) run \<times> bytes \<times> connection" where
  "try_write obs c =
     (if cn_send_pos c < length (cn_send_buf c) then
        (case obs of
           [] \<Rightarrow> (Blocked, [], c)
         | WriteOk n # obs' \<Rightarrow>
             (case try_write obs' (c\<lparr>cn_send_pos := cn_send_pos c + n\<rparr>) of
                (r, sent, c') \<Rightarrow> (r, take n (drop (cn_send_pos c) (cn_send_buf c)) @ sent, c'))
         | WriteWouldBlock # obs' \<Rightarrow> (Done (Inr False), [], c)
         | WriteErr # obs' \<Rightarrow> (Done (Inl SocketError), [], c))
      else (Done (Inr True), [], c))"

declare try_write.simps [simp del]

definition is_request_complete :: "connection \<Rightarrow> bool \<times> connection" where
  "is_request_complete c =
     (let buf_len = length (cn_recv_buf c) in
      case cn_headers_end_cache c of
        Some headers_end \<Rightarrow> (is_body_complete (cn_recv_buf c) headers_end, c)
      | None \<Rightarrow>
          if buf_len < 4 then (False, c)
          else
            let start = cn_last_scanned_pos c - 3
            in case find (\<lambda>i. take 4 (drop i (cn_recv_buf c)) = CRLF @ CRLF) [start..<buf_len - 3] of
                 Some i \<Rightarrow> (is_body_complete (cn_recv_buf c) i,
                           c\<lparr>cn_headers_end_cache := Some i, cn_last_scanned_pos := buf_len\<rparr>)
               | None \<Rightarrow> (False, c\<lparr>cn_last_scanned_pos := buf_len\<rparr>))"

definition clear_recv_buf :: "connection \<Rightarrow> connection" where
  "clear_recv_buf c = c\<lparr>cn_recv_buf := [], cn_last_scanned_pos := 0, cn_headers_end_cache := None\<rparr>"

definition queue_response :: "bytes \<Rightarrow> connection \<Rightarrow> connection" where
  "queue_response response c = c\<lparr>cn_send_buf := response, cn_send_pos := 0, cn_state := Writing\<rparr>"

definition is_response_sent :: "connection \<Rightarrow> bool" where
  "is_response_sent c \<longleftrightarrow> length (cn_send_buf c) \<le> cn_send_pos c"

definition reset_for_next_request :: "connection \<Rightarrow> connection" where
  "reset_for_next_request c =
     (clear_recv_buf c)\<lparr>cn_send_buf := [], cn_json_buf := [], cn_send_pos := 0, cn_pending_request_id := None,
       cn_state := Reading\<rparr>"

section \<open>The pool\<close>

record recycled_buffers =
  rb_recv_buf :: bytes
  rb_send_buf :: bytes
  rb_json_buf :: bytes

record connection_pool =
  cp_connections :: "connection option list"
  cp_free_slots :: "nat list"
  cp_recycled :: "recycled_buffers list"

definition pool_new :: connection_pool where
  "pool_new = \<lparr>cp_connections = [], cp_free_slots = [], cp_recycled = []\<rparr>"

definition create_connection :: "nat \<Rightarrow> socket_addr \<Rightarrow> connection_pool \<Rightarrow> connection \<times> connection_pool" where
  "create_connection stream addr p =
     (if cp_recycled p \<noteq> [] then
        let recycled = last (cp_recycled p)
        in (\<lparr>cn_stream = stream, cn_recv_buf = rb_recv_buf recycled, cn_last_scanned_pos = 0, cn_headers_end_cache = None,
             cn_send_buf = rb_send_buf recycled, cn_json_buf = rb_json_buf recycled, cn_send_pos = 0,
             cn_pending_request_id = None, cn_addr = addr, cn_state = Reading, cn_should_close = False\<rparr>,
            p\<lparr>cp_recycled := butlast (cp_recycled p)\<rparr>)
      else (connection_new stream addr, p))"

definition alloc_empty :: "connection_pool \<Rightarrow> nat \<times> connection_pool" where
  "alloc_empty p =
     (if cp_free_slots p \<noteq> [] then (last (cp_free_slots p), p\<lparr>cp_free_slots := butlast (cp_free_slots p)\<rparr>)
      else (length (cp_connections p), p\<lparr>cp_connections := cp_connections p @ [None]\<rparr>))"

definition pool_set :: "nat \<Rightarrow> connection \<Rightarrow> connection_pool \<Rightarrow> connection_pool" where
  "pool_set idx c p =
     (if idx < length (cp_connections p) then p\<lparr>cp_connections := (cp_connections p)[idx := Some c]\<rparr> else p)"

definition pool_get :: "nat \<Rightarrow> connection_pool \<Rightarrow> connection option" where
  "pool_get idx p = (if idx < length (cp_connections p) then cp_connections p ! idx else None)"

definition pool_remove :: "nat \<Rightarrow> connection_pool \<Rightarrow> connection_pool" where
  "pool_remove idx p =
     (if idx < length (cp_connections p) then
        (case cp_connections p ! idx of
           Some c \<Rightarrow>
             p\<lparr>cp_connections := (cp_connections p)[idx := None],
               cp_recycled := (if length (cp_recycled p) < 64
                               then cp_recycled p @ [\<lparr>rb_recv_buf = [], rb_send_buf = [], rb_json_buf = []\<rparr>]
                               else cp_recycled p),
               cp_free_slots := cp_free_slots p @ [idx]\<rparr>
         | None \<Rightarrow> p\<lparr>cp_free_slots := cp_free_slots p @ [idx]\<rparr>)
      else p)"

text \<open>The accept loop's use of the pool: a slot, a connection on recycled buffers, and the store.\<close>

definition accept_connection :: "nat \<times> socket_addr \<Rightarrow> connection_pool \<Rightarrow> nat \<times> connection_pool" where
  "accept_connection sa p =
     (case alloc_empty p of
        (idx, p1) \<Rightarrow> (case create_connection (fst sa) (snd sa) p1 of (conn, p2) \<Rightarrow> (idx, pool_set idx conn p2)))"

section \<open>The incremental scan\<close>

text \<open>What the cached positions mean: a found end is the first one, and without one none starts before the scanned part.\<close>

definition scan_ok :: "connection \<Rightarrow> bool" where
  "scan_ok c \<longleftrightarrow>
     (case cn_headers_end_cache c of
        Some h \<Rightarrow> find_headers_end (cn_recv_buf c) = Some h
      | None \<Rightarrow> cn_last_scanned_pos c \<le> length (cn_recv_buf c) \<and>
          (\<forall>i. i + 4 \<le> cn_last_scanned_pos c \<longrightarrow> take 4 (drop i (cn_recv_buf c)) \<noteq> CRLF @ CRLF))"

lemma scan_ok_new [simp]: "scan_ok (connection_new s a)"
  by (simp add: scan_ok_def connection_new_def)

lemma scan_ok_clear [simp]: "scan_ok (clear_recv_buf c)"
  by (simp add: scan_ok_def clear_recv_buf_def)

lemma scan_ok_reset [simp]: "scan_ok (reset_for_next_request c)"
  by (simp add: scan_ok_def clear_recv_buf_def reset_for_next_request_def)

lemma find_headers_end_append: "find_headers_end b = Some i \<Longrightarrow> find_headers_end (b @ bs) = Some i"
  using find_headers_end_take [of "length b" "b @ bs" i] by simp

lemma scan_ok_extend: "scan_ok c \<Longrightarrow> scan_ok (c\<lparr>cn_recv_buf := cn_recv_buf c @ bs\<rparr>)"
  unfolding scan_ok_def by (auto simp: find_headers_end_append split: option.splits)

lemma find_skip_upt:
  "a \<le> b \<Longrightarrow> (\<And>i. i < a \<Longrightarrow> \<not> P i) \<Longrightarrow> find P [a..<b] = find P [0..<b]"
proof -
  assume a: "a \<le> b" "\<And>i. i < a \<Longrightarrow> \<not> P i"
  have "find P xs = None \<Longrightarrow> find P (xs @ ys) = find P ys" for xs ys by (induction xs) (auto split: if_splits)
  moreover have "find P [0..<a] = None" using a(2) by (simp add: find_None_iff)
  ultimately show ?thesis using a(1) by (metis le0 upt_add_eq_append le_add_diff_inverse)
qed

lemma scan_fields_same: "\<exists>p h. c = c\<lparr>cn_headers_end_cache := h, cn_last_scanned_pos := p\<rparr>"
  by (rule exI [of _ "cn_last_scanned_pos c"], rule exI [of _ "cn_headers_end_cache c"]) simp

lemma send_pos_same: "\<exists>p. c = c\<lparr>cn_send_pos := p\<rparr>"
  by (rule exI [of _ "cn_send_pos c"]) simp

lemma is_request_complete_spec:
  assumes "scan_ok c" "is_request_complete c = (b, c')"
  shows "b = is_complete (cn_recv_buf c) \<and> scan_ok c' \<and> (\<exists>p h. c' = c\<lparr>cn_headers_end_cache := h, cn_last_scanned_pos := p\<rparr>)"
proof (cases "cn_headers_end_cache c")
  case (Some h)
  then have "c' = c" "b = is_body_complete (cn_recv_buf c) h" using assms(2) by (auto simp: is_request_complete_def Let_def)
  moreover have "find_headers_end (cn_recv_buf c) = Some h" using assms(1) Some by (simp add: scan_ok_def)
  ultimately show ?thesis using assms(1) scan_fields_same by (simp add: is_complete_def)
next
  case None
  let ?buf = "cn_recv_buf c"
  let ?n = "cn_last_scanned_pos c"
  have ok: "?n \<le> length ?buf" "\<And>i. i + 4 \<le> ?n \<Longrightarrow> take 4 (drop i ?buf) \<noteq> CRLF @ CRLF"
    using assms(1) None by (auto simp: scan_ok_def)
  show ?thesis
  proof (cases "length ?buf < 4")
    case True
    then have "find_headers_end ?buf = None"
      using arg_cong [of _ "CRLF @ CRLF" length] by (fastforce simp: find_headers_end_def find_None_iff CRLF_eq)
    moreover have "b = False" "c' = c" using assms(2) None True by (simp_all add: is_request_complete_def)
    ultimately show ?thesis using assms(1) scan_fields_same by (simp add: is_complete_def)
  next
    case False
    have "find (\<lambda>i. take 4 (drop i ?buf) = CRLF @ CRLF) [?n - 3..<length ?buf - 3] = find_headers_end ?buf"
      unfolding find_headers_end_def using ok False by (intro find_skip_upt) auto
    then have r: "is_request_complete c = (case find_headers_end ?buf of
        Some i \<Rightarrow> (is_body_complete ?buf i, c\<lparr>cn_headers_end_cache := Some i, cn_last_scanned_pos := length ?buf\<rparr>)
      | None \<Rightarrow> (False, c\<lparr>cn_last_scanned_pos := length ?buf\<rparr>))"
      using None False by (simp add: is_request_complete_def Let_def)
    show ?thesis
    proof (cases "find_headers_end ?buf")
      case (Some i)
      then show ?thesis using r assms(2) by (auto simp: is_complete_def scan_ok_def)
    next
      case N: None
      then have "\<forall>i. i + 4 \<le> length ?buf \<longrightarrow> take 4 (drop i ?buf) \<noteq> CRLF @ CRLF"
        by (auto simp: find_headers_end_def find_None_iff)
      moreover have "c' = c\<lparr>cn_headers_end_cache := None, cn_last_scanned_pos := length ?buf\<rparr>" "\<not> b"
        using r assms(2) N None by simp_all
      ultimately show ?thesis using N by (auto simp: is_complete_def scan_ok_def)
    qed
  qed
qed

lemma scan_ok_fresh:
  "c = connection_new s a \<or> c = reset_for_next_request c0 \<Longrightarrow> scan_ok c \<and> cn_recv_buf c = []"
  using scan_ok_new scan_ok_reset by (auto simp: connection_new_def reset_for_next_request_def clear_recv_buf_def)

lemma recv_buf_nil: "\<exists>bs. c = c\<lparr>cn_recv_buf := cn_recv_buf c @ bs\<rparr>"
  by (rule exI [of _ "[]"]) simp

lemma try_read_spec:
  "scan_ok c \<Longrightarrow> try_read obs c = (r, c') \<Longrightarrow> scan_ok c' \<and> (\<exists>bs. c' = c\<lparr>cn_recv_buf := cn_recv_buf c @ bs\<rparr>)"
proof (induction obs c arbitrary: r c' rule: try_read.induct)
  case (1 c)
  then show ?case using recv_buf_nil [of c] by auto
next
  case (2 bs obs c)
  let ?c = "c\<lparr>cn_recv_buf := cn_recv_buf c @ bs\<rparr>"
  consider "bs = []" | "bs \<noteq> []" "MAX_REQUEST_SIZE < length (cn_recv_buf ?c)"
    | "bs \<noteq> []" "\<not> MAX_REQUEST_SIZE < length (cn_recv_buf ?c)" by blast
  then show ?case
  proof cases
    case 1
    then show ?thesis using 2 recv_buf_nil [of c] by auto
  next
    case b: 2
    then show ?thesis using 2 scan_ok_extend [of c bs] by auto
  next
    case b: 3
    then have "try_read obs ?c = (r, c')" using 2(3) by (simp add: Let_def)
    from 2(1) [OF b(1) refl b(2) scan_ok_extend [OF 2(2)] this] show ?thesis by auto
  qed
next
  case (3 obs c)
  then show ?case using recv_buf_nil [of c] by auto
next
  case (4 obs c)
  then show ?case using recv_buf_nil [of c] by auto
qed

text \<open>A connection that receives chunks, one readiness event each, and the answer of the scan after each.\<close>

fun read_chunks :: "bytes list \<Rightarrow> connection \<Rightarrow> bool list \<times> connection" where
  "read_chunks [] c = ([], c)"
| "read_chunks (bs # rest) c =
     (case is_request_complete (snd (try_read [ReadOk bs, ReadWouldBlock] c)) of
        (b, c1) \<Rightarrow> (case read_chunks rest c1 of (answers, c2) \<Rightarrow> (b # answers, c2)))"

lemma read_chunks_spec:
  assumes "scan_ok c" "[] \<notin> set chunks" "length (cn_recv_buf c @ concat chunks) \<le> MAX_REQUEST_SIZE"
  shows "fst (read_chunks chunks c) =
      map (\<lambda>k. is_complete (cn_recv_buf c @ concat (take (Suc k) chunks))) [0..<length chunks] \<and>
    cn_recv_buf (snd (read_chunks chunks c)) = cn_recv_buf c @ concat chunks \<and> scan_ok (snd (read_chunks chunks c))"
  using assms
proof (induction chunks arbitrary: c)
  case Nil
  then show ?case by simp
next
  case (Cons bs chunks)
  let ?c = "c\<lparr>cn_recv_buf := cn_recv_buf c @ bs\<rparr>"
  obtain b c1 where r: "is_request_complete ?c = (b, c1)" by (cases "is_request_complete ?c")
  from is_request_complete_spec [OF scan_ok_extend [OF Cons.prems(1)] r]
  have b: "b = is_complete (cn_recv_buf c @ bs)" and ok: "scan_ok c1" and buf: "cn_recv_buf c1 = cn_recv_buf c @ bs" by auto
  have "try_read [ReadOk bs, ReadWouldBlock] c = (Done (Inr True), ?c)"
    using Cons.prems by (auto simp: Let_def)
  then have "read_chunks (bs # chunks) c = (b # fst (read_chunks chunks c1), snd (read_chunks chunks c1))"
    using r by (simp split: prod.split)
  moreover have "[0..<length (bs # chunks)] = 0 # map Suc [0..<length chunks]"
    by (simp only: list.size add_Suc_right add_0_right upt_conv_Cons zero_less_Suc map_Suc_upt)
  ultimately show ?case using Cons.IH [OF ok] Cons.prems b buf by (simp del: upt_Suc)
qed

text \<open>
  C16. The incremental scan of the server, which looks only at new bytes and remembers the end of the
  headers once found, gives after every read the answer of the scan of the whole buffer, however the
  bytes are cut into reads.
\<close>

theorem incremental_scan_exact:
  assumes "c = connection_new stream addr \<or> c = reset_for_next_request c0" "[] \<notin> set chunks"
    and "length (concat chunks) \<le> MAX_REQUEST_SIZE"
  shows "fst (read_chunks chunks c) = map (\<lambda>k. is_complete (concat (take (Suc k) chunks))) [0..<length chunks] \<and>
    cn_recv_buf (snd (read_chunks chunks c)) = concat chunks"
proof -
  from scan_ok_fresh [OF assms(1)] read_chunks_spec [of c chunks] assms(2,3) show ?thesis by simp
qed

theorem incremental_scan_exact_witness:
  "fst (read_chunks [''GET / HTTP/1.1'' @ [CR], [LF, CR], [LF]] (connection_new 3 (V4 [127, 0, 0, 1] 80))) = [False, False, True]"
proof -
  let ?ch = "[''GET / HTTP/1.1'' @ [CR], [LF, CR], [LF]]"
  have "[] \<notin> set ?ch" "length (concat ?ch) \<le> MAX_REQUEST_SIZE" by (simp_all add: MAX_REQUEST_SIZE_def)
  then have "fst (read_chunks ?ch (connection_new 3 (V4 [127, 0, 0, 1] 80))) =
      map (\<lambda>k. is_complete (concat (take (Suc k) ?ch))) [0..<length ?ch]"
    using incremental_scan_exact by blast
  also have "\<dots> = [False, False, True]" by code_simp
  finally show ?thesis .
qed

text \<open>
  C12. A request of the client, cut into arbitrary reads, is recognised by the server with the read
  that brings its last byte, not before, and the buffer then holds exactly that request.
\<close>

theorem split_request_recognised:
  assumes "host_ok host" "buf = build_request encode host i tx f slot" "length buf \<le> MAX_REQUEST_SIZE"
    and "concat chunks = buf" "[] \<notin> set chunks"
    and "c = connection_new stream addr \<or> c = reset_for_next_request c0"
  shows "fst (read_chunks chunks c) = replicate (length chunks - 1) False @ [True] \<and>
    cn_recv_buf (snd (read_chunks chunks c)) = buf"
proof -
  let ?n = "length chunks"
  have len: "length (request_body encode i tx f slot) \<le> length buf" unfolding assms(2) build_request_lines by simp
  then have "length (request_body encode i tx f slot) < 2 ^ 64" using assms(3) by (simp add: MAX_REQUEST_SIZE_def)
  note ok = client_request_complete [OF assms(1) this assms(2)]
  have "buf \<noteq> []" by (simp add: assms(2) build_request_def Let_def)
  then have "chunks \<noteq> []" using assms(4) by auto
  then have n: "[0..<?n] = [0..<?n - 1] @ [?n - 1]" "Suc (?n - 1) = ?n" by (cases "?n", simp_all)
  have "\<not> is_complete (concat (take (Suc k) chunks))" if k: "k < ?n - 1" for k
  proof -
    have b: "buf = concat (take (Suc k) chunks) @ concat (drop (Suc k) chunks)"
      using assms(4) by (metis append_take_drop_id concat_append)
    have "drop (Suc k) chunks \<noteq> []" using k by simp
    then have "concat (drop (Suc k) chunks) \<noteq> []"
      using assms(5) by (metis concat_eq_Nil_conv in_set_dropD last_in_set)
    then have "length (concat (take (Suc k) chunks)) < length buf" using b by (metis length_append length_greater_0_conv less_add_same_cancel1)
    moreover have "take (length (concat (take (Suc k) chunks))) buf = concat (take (Suc k) chunks)" by (subst b) simp
    ultimately show ?thesis using ok by metis
  qed
  then have "map (\<lambda>k. is_complete (concat (take (Suc k) chunks))) [0..<?n - 1] = replicate (?n - 1) False"
    by (intro replicate_eqI) auto
  moreover have "is_complete (concat (take (Suc (?n - 1)) chunks))" using ok assms(4) n(2) by simp
  ultimately show ?thesis
    using scan_ok_fresh [OF assms(6)] read_chunks_spec [of c chunks] assms(3,4,5) n(1) by simp
qed

lemma length_show_nat_le: "length (show_nat n) \<le> Suc n"
proof (induction n rule: show_nat.induct)
  case (1 n)
  show ?case
  proof (cases "n < 10")
    case False
    then have "n div 10 < n" by simp
    with 1 False show ?thesis by (subst length_show_nat) simp
  qed (subst length_show_nat, simp)
qed

theorem split_request_recognised_witness:
  "fst (read_chunks [take 7 (build_request b64_encode ''h:80'' 1 [] 1 0), drop 7 (build_request b64_encode ''h:80'' 1 [] 1 0)]
     (connection_new 3 (V4 [127, 0, 0, 1] 80))) = [False, True]"
proof -
  let ?buf = "build_request b64_encode ''h:80'' 1 [] 1 0"
  have h: "host_ok ''h:80''" by (simp add: host_ok_def is_graph_def)
  have len: "7 < length ?buf" "length ?buf \<le> MAX_REQUEST_SIZE"
    using length_show_nat_le [of 1] length_show_nat_le [of 0] length_show_nat_le [of "length (request_body b64_encode 1 [] 1 0)"]
    by (simp_all add: build_request_def request_body_def jstr_def Let_def CRLF_def MAX_REQUEST_SIZE_def)
  have "concat [take 7 ?buf, drop 7 ?buf] = ?buf" by simp
  moreover have "take 7 ?buf \<noteq> []" "drop 7 ?buf \<noteq> []" using len by auto
  then have "[] \<notin> set [take 7 ?buf, drop 7 ?buf]" by auto
  ultimately have "fst (read_chunks [take 7 ?buf, drop 7 ?buf] (connection_new 3 (V4 [127, 0, 0, 1] 80))) =
      replicate (length [take 7 ?buf, drop 7 ?buf] - 1) False @ [True]"
    using split_request_recognised [OF h refl len(2)] by blast
  then show ?thesis by (simp del: read_chunks.simps)
qed

section \<open>Writing\<close>

text \<open>A sequence of calls of \<open>try_write\<close>, one list of answers each, with all that the socket took.\<close>

fun write_events :: "write_obs list list \<Rightarrow> connection \<Rightarrow> bytes \<times> connection" where
  "write_events [] c = ([], c)"
| "write_events (obs # rest) c =
     (case try_write obs c of
        (_, sent, c1) \<Rightarrow> (case write_events rest c1 of (sent', c2) \<Rightarrow> (sent @ sent', c2)))"

lemma try_write_cases:
  "\<not> cn_send_pos c < length (cn_send_buf c) \<Longrightarrow> try_write obs c = (Done (Inr True), [], c)"
  "cn_send_pos c < length (cn_send_buf c) \<Longrightarrow> try_write [] c = (Blocked, [], c)"
  "cn_send_pos c < length (cn_send_buf c) \<Longrightarrow> try_write (WriteWouldBlock # obs) c = (Done (Inr False), [], c)"
  "cn_send_pos c < length (cn_send_buf c) \<Longrightarrow> try_write (WriteErr # obs) c = (Done (Inl SocketError), [], c)"
  "cn_send_pos c < length (cn_send_buf c) \<Longrightarrow> try_write (WriteOk n # obs) c =
     (case try_write obs (c\<lparr>cn_send_pos := cn_send_pos c + n\<rparr>) of
        (r, sent, c') \<Rightarrow> (r, take n (drop (cn_send_pos c) (cn_send_buf c)) @ sent, c'))"
  by (subst try_write.simps, simp)+

lemma try_write_spec:
  "try_write obs c = (r, sent, c') \<Longrightarrow>
     (\<exists>p. c' = c\<lparr>cn_send_pos := p\<rparr>) \<and>
     take (cn_send_pos c) (cn_send_buf c) @ sent = take (cn_send_pos c') (cn_send_buf c) \<and>
     (r = Done (Inr True) \<longrightarrow> is_response_sent c') \<and> (r = Done (Inr False) \<longrightarrow> \<not> is_response_sent c')"
proof (induction obs arbitrary: c sent)
  case Nil
  then show ?case using send_pos_same [of c]
    by (cases "cn_send_pos c < length (cn_send_buf c)") (auto simp: try_write_cases is_response_sent_def)
next
  case (Cons ob obs)
  note e = send_pos_same [of c]
  show ?case
  proof (cases "cn_send_pos c < length (cn_send_buf c)")
    case False
    then show ?thesis using Cons.prems e by (auto simp: try_write_cases is_response_sent_def)
  next
    case True
    show ?thesis
    proof (cases ob)
      case (WriteOk n)
      let ?c = "c\<lparr>cn_send_pos := cn_send_pos c + n\<rparr>"
      obtain r1 s1 c1 where t: "try_write obs ?c = (r1, s1, c1)" by (cases "try_write obs ?c") auto
      have "r1 = r" "c1 = c'" "sent = take n (drop (cn_send_pos c) (cn_send_buf c)) @ s1"
        using Cons.prems t unfolding WriteOk try_write_cases(5) [OF True] by simp_all
      with Cons.IH [of ?c s1] t show ?thesis by (auto simp: take_add)
    qed (use Cons.prems True e in \<open>auto simp: try_write_cases is_response_sent_def\<close>)
  qed
qed

lemma try_write_returns:
  "length (cn_send_buf c) \<le> cn_send_pos c + length obs \<Longrightarrow> list_all (\<lambda>ob. \<exists>n. ob = WriteOk n \<and> 0 < n) obs \<Longrightarrow>
     fst (try_write obs c) = Done (Inr True)"
proof (induction obs arbitrary: c)
  case Nil
  then show ?case by (simp add: try_write_cases)
next
  case (Cons ob obs)
  then obtain n where n: "ob = WriteOk n" "0 < n" by auto
  have "fst (try_write obs (c\<lparr>cn_send_pos := cn_send_pos c + n\<rparr>)) = Done (Inr True)"
    using Cons.prems n by (intro Cons.IH) auto
  then show ?case using n by (cases "cn_send_pos c < length (cn_send_buf c)") (auto simp: try_write_cases split: prod.split)
qed

lemma write_events_spec:
  "write_events obss c = (sent, c') \<Longrightarrow>
     (\<exists>p. c' = c\<lparr>cn_send_pos := p\<rparr>) \<and>
     take (cn_send_pos c) (cn_send_buf c) @ sent = take (cn_send_pos c') (cn_send_buf c)"
proof (induction obss arbitrary: c sent)
  case Nil
  then show ?case using send_pos_same [of c] by auto
next
  case (Cons obs obss)
  obtain r s1 c1 where t: "try_write obs c = (r, s1, c1)" by (cases "try_write obs c") auto
  obtain s2 c2 where w: "write_events obss c1 = (s2, c2)" by (cases "write_events obss c1") auto
  have "sent = s1 @ s2" "c' = c2" using Cons.prems t w by simp_all
  with try_write_spec [OF t] Cons.IH [OF w [unfolded \<open>c' = c2\<close> [symmetric]]] show ?case by (auto simp flip: append_assoc)
qed

text \<open>
  C18. A queued response is put on the wire once and in order: over any sequence of write events with
  any partial writes, blocked writes and errors, what the socket has taken is a prefix of the response,
  as long as the write position says, and the response counts as sent exactly when all of it was taken.
  A call returns with everything written when the socket takes at least a byte per write.
\<close>

theorem response_written_once:
  assumes "write_events obss (queue_response response c) = (sent, c')"
  shows "sent = take (cn_send_pos c') response \<and> (is_response_sent c' \<longleftrightarrow> sent = response) \<and>
    (length response \<le> length obs \<longrightarrow> list_all (\<lambda>ob. \<exists>n. ob = WriteOk n \<and> 0 < n) obs \<longrightarrow>
       (\<exists>d. try_write obs (queue_response response c) = (Done (Inr True), response, d) \<and> is_response_sent d))"
proof -
  let ?c = "queue_response response c"
  have q: "cn_send_buf ?c = response" "cn_send_pos ?c = 0" by (simp_all add: queue_response_def)
  from write_events_spec [OF assms] q have s: "sent = take (cn_send_pos c') response" "cn_send_buf c' = response" by auto
  then have "is_response_sent c' \<longleftrightarrow> sent = response"
    by (metis is_response_sent_def length_take min.absorb_iff2 min.commute take_all_iff)
  moreover have "\<exists>d. try_write obs ?c = (Done (Inr True), response, d) \<and> is_response_sent d"
    if o: "length response \<le> length obs" "list_all (\<lambda>ob. \<exists>n. ob = WriteOk n \<and> 0 < n) obs"
  proof -
    obtain r s d where t: "try_write obs ?c = (r, s, d)" by (cases "try_write obs ?c") auto
    then have "r = Done (Inr True)" using try_write_returns [of ?c obs] o q by simp
    with try_write_spec [OF t] q t show ?thesis by (auto simp: is_response_sent_def)
  qed
  ultimately show ?thesis using s by blast
qed

theorem response_written_once_witness:
  "\<exists>c'. write_events [[WriteOk 2, WriteWouldBlock], [WriteOk 1]] (queue_response ''abc'' (connection_new 3 (V4 [] 0))) = (''abc'', c') \<and>
     is_response_sent c'"
proof -
  let ?c = "queue_response ''abc'' (connection_new 3 (V4 [] 0))"
  obtain s c' where w: "write_events [[WriteOk 2, WriteWouldBlock], [WriteOk 1]] ?c = (s, c')"
    by (cases "write_events [[WriteOk 2, WriteWouldBlock], [WriteOk 1]] ?c")
  moreover have "fst (write_events [[WriteOk 2, WriteWouldBlock], [WriteOk 1]] ?c) = ''abc''" by code_simp
  ultimately have "s = ''abc''" by simp
  with w response_written_once [OF w] show ?thesis by blast
qed

section \<open>The pool never shares a slot or a buffer\<close>

text \<open>The free list names every empty slot once, and recycled buffers are empty.\<close>

definition recycled_ok :: "connection_pool \<Rightarrow> bool" where
  "recycled_ok p \<longleftrightarrow>
     length (cp_recycled p) \<le> 64 \<and>
     list_all (\<lambda>r. rb_recv_buf r = [] \<and> rb_send_buf r = [] \<and> rb_json_buf r = []) (cp_recycled p)"

definition pool_ok :: "connection_pool \<Rightarrow> bool" where
  "pool_ok p \<longleftrightarrow>
     distinct (cp_free_slots p) \<and>
     set (cp_free_slots p) = {i. i < length (cp_connections p) \<and> cp_connections p ! i = None} \<and> recycled_ok p"

lemma pool_ok_new [simp]: "pool_ok pool_new"
  by (simp add: pool_ok_def pool_new_def recycled_ok_def)

lemma create_connection_new:
  assumes "recycled_ok p" "create_connection s a p = (c, p')"
  shows "c = connection_new s a \<and> recycled_ok p' \<and> cp_connections p' = cp_connections p \<and> cp_free_slots p' = cp_free_slots p"
proof (cases "cp_recycled p = []")
  case True
  then show ?thesis using assms by (auto simp: create_connection_def)
next
  case False
  then have "last (cp_recycled p) \<in> set (cp_recycled p)" by simp
  then have l: "rb_recv_buf (last (cp_recycled p)) = []" "rb_send_buf (last (cp_recycled p)) = []"
    "rb_json_buf (last (cp_recycled p)) = []"
    using assms(1) by (auto simp: recycled_ok_def list_all_iff)
  have "c = connection_new s a" "p' = p\<lparr>cp_recycled := butlast (cp_recycled p)\<rparr>"
    using assms(2) False l by (auto simp: create_connection_def connection_new_def Let_def)
  with assms(1) show ?thesis by (auto simp: recycled_ok_def list_all_iff dest: in_set_butlastD)
qed

lemma alloc_empty_spec:
  assumes "pool_ok p" "alloc_empty p = (i, p')"
  shows "cp_recycled p' = cp_recycled p \<and> i < length (cp_connections p') \<and> cp_connections p' ! i = None \<and> pool_get i p = None \<and>
    distinct (cp_free_slots p') \<and>
    insert i (set (cp_free_slots p')) = {j. j < length (cp_connections p') \<and> cp_connections p' ! j = None} \<and>
    i \<notin> set (cp_free_slots p') \<and> (\<forall>j. pool_get j p' = pool_get j p) \<and>
    (length (cp_connections p') = length (cp_connections p) \<or> (\<forall>j < length (cp_connections p). pool_get j p \<noteq> None))"
proof (cases "cp_free_slots p = []")
  case True
  then have i: "i = length (cp_connections p)" "p' = p\<lparr>cp_connections := cp_connections p @ [None]\<rparr>"
    using assms(2) by (simp_all add: alloc_empty_def)
  have "\<forall>j < length (cp_connections p). cp_connections p ! j \<noteq> None" using assms(1) True by (auto simp: pool_ok_def)
  with True show ?thesis unfolding i by (auto simp: pool_get_def nth_append less_Suc_eq)
next
  case False
  then have i: "i = last (cp_free_slots p)" "p' = p\<lparr>cp_free_slots := butlast (cp_free_slots p)\<rparr>"
    using assms(2) by (simp_all add: alloc_empty_def)
  have fr: "cp_free_slots p = butlast (cp_free_slots p) @ [i]" using False i by simp
  have "distinct (butlast (cp_free_slots p) @ [i])" using assms(1) unfolding fr [symmetric] by (simp add: pool_ok_def)
  moreover have "set (butlast (cp_free_slots p) @ [i]) = {j. j < length (cp_connections p) \<and> cp_connections p ! j = None}"
    using assms(1) unfolding fr [symmetric] by (simp add: pool_ok_def)
  ultimately show ?thesis unfolding i(2) pool_get_def by auto
qed

lemma accept_connection_spec:
  assumes "pool_ok p" "accept_connection (s, a) p = (idx, p')"
  shows "pool_ok p' \<and> pool_get idx p = None \<and>
    (\<forall>j. pool_get j p' = (if j = idx then Some (connection_new s a) else pool_get j p)) \<and>
    (length (cp_connections p') = length (cp_connections p) \<or>
     (\<forall>j < length (cp_connections p). pool_get j p \<noteq> None))"
proof -
  obtain i p1 where al: "alloc_empty p = (i, p1)" by (cases "alloc_empty p")
  obtain c p2 where cr: "create_connection s a p1 = (c, p2)" by (cases "create_connection s a p1")
  have r: "idx = i" "p' = pool_set i c p2" using assms(2) al cr by (auto simp: accept_connection_def)
  note A = alloc_empty_spec [OF assms(1) al]
  have "recycled_ok p1" using assms(1) A by (simp add: pool_ok_def recycled_ok_def)
  note C = create_connection_new [OF this cr]
  have p': "cp_connections p' = (cp_connections p1)[i := Some c]" "cp_free_slots p' = cp_free_slots p1" "recycled_ok p'"
    using A C by (simp_all add: r pool_set_def recycled_ok_def)
  have "set (cp_free_slots p1) = {j. j < length (cp_connections p1) \<and> cp_connections p1 ! j = None} - {i}" using A by blast
  then have "pool_ok p'" unfolding pool_ok_def using A p' by (auto simp: nth_list_update)
  moreover have "pool_get j p' = (if j = i then Some c else pool_get j p1)" for j
    unfolding pool_get_def p' using A by (simp add: nth_list_update)
  ultimately show ?thesis using A C p'(1) r(1) by simp
qed

lemma pool_getD: "pool_get i p = Some d \<Longrightarrow> i < length (cp_connections p) \<and> cp_connections p ! i = Some d"
  by (simp add: pool_get_def split: if_splits)

lemma pool_set_spec:
  assumes "pool_ok p" "pool_get i p = Some d"
  shows "pool_ok (pool_set i c p) \<and> pool_get j (pool_set i c p) = (if j = i then Some c else pool_get j p)"
proof -
  note i = pool_getD [OF assms(2)]
  have e: "pool_set i c p = p\<lparr>cp_connections := (cp_connections p)[i := Some c]\<rparr>" using i by (simp add: pool_set_def)
  have "{k. k < length (cp_connections p) \<and> (cp_connections p)[i := Some c] ! k = None} =
      {k. k < length (cp_connections p) \<and> cp_connections p ! k = None}"
    using i by (auto simp: nth_list_update split: if_splits)
  then show ?thesis using assms(1) i unfolding e by (simp add: pool_ok_def recycled_ok_def pool_get_def nth_list_update)
qed

lemma pool_remove_spec:
  assumes "pool_ok p" "pool_get i p = Some d"
  shows "pool_ok (pool_remove i p) \<and> pool_get j (pool_remove i p) = (if j = i then None else pool_get j p)"
proof -
  note i = pool_getD [OF assms(2)]
  let ?q = "pool_remove i p"
  have e: "cp_connections ?q = (cp_connections p)[i := None]" "cp_free_slots ?q = cp_free_slots p @ [i]" "recycled_ok ?q"
    using i assms(1) by (auto simp: pool_remove_def recycled_ok_def pool_ok_def)
  have "{k. k < length (cp_connections p) \<and> (cp_connections p)[i := None] ! k = None} =
      insert i {k. k < length (cp_connections p) \<and> cp_connections p ! k = None}"
    using i by (auto simp: nth_list_update split: if_splits)
  moreover have "i \<notin> {k. k < length (cp_connections p) \<and> cp_connections p ! k = None}" using i by simp
  ultimately show ?thesis using assms(1) i e by (simp add: pool_ok_def pool_get_def nth_list_update)
qed

interpretation cp: slab pool_get pool_ok "\<lambda>(s, a). connection_new s a" accept_connection pool_set pool_remove
proof unfold_locales
  fix s :: connection_pool and k :: "nat \<times> socket_addr" and i s' j
  assume a: "pool_ok s" "accept_connection k s = (i, s')"
  obtain st ad where k: "k = (st, ad)" by (cases k)
  from accept_connection_spec [OF a(1) a(2) [unfolded k]]
  show "pool_ok s'" "pool_get i s = None"
    "pool_get j s' = (if j = i then Some ((\<lambda>(s, a). connection_new s a) k) else pool_get j s)"
    by (simp_all add: k)
next
  fix s :: connection_pool and i c j
  assume a: "pool_ok s" "pool_get i s \<noteq> None"
  then obtain d where d: "pool_get i s = Some d" by blast
  show "pool_ok (pool_set i c s)" "pool_get j (pool_set i c s) = (if j = i then Some c else pool_get j s)"
    using pool_set_spec [OF a(1) d] by simp_all
  show "pool_ok (pool_remove i s)" "pool_get j (pool_remove i s) = (if j = i then None else pool_get j s)"
    using pool_remove_spec [OF a(1) d] by simp_all
qed

text \<open>What the event loop does to the pool: accepting, storing back a live connection, closing a live connection.\<close>

datatype pool_op = Accept nat socket_addr | Store nat connection | Close nat

fun pool_step :: "pool_op \<Rightarrow> connection_pool \<Rightarrow> connection_pool" where
  "pool_step (Accept s a) p = snd (accept_connection (s, a) p)"
| "pool_step (Store i c) p = (if pool_get i p = None then p else pool_set i c p)"
| "pool_step (Close i) p = (if pool_get i p = None then p else pool_remove i p)"

lemma pool_steps_ok: "pool_ok p \<Longrightarrow> pool_ok (fold pool_step ops p)"
proof (induction ops arbitrary: p)
  case (Cons x ops)
  have "pool_ok (pool_step x p)"
    using Cons.prems cp.insert_invar cp.replace_invar cp.delete_invar
    by (cases x) (auto, metis prod.collapse)
  with Cons.IH show ?case by simp
qed simp

text \<open>
  C17. A new connection never shares anything with an old one. After any history of the pool the slot
  of an accepted connection held no live connection, the connection starts out as a fresh one, without
  a byte of the previous owner of its recycled buffers, and no other connection changes. The table of
  slots grows only when all slots are in use.
\<close>

theorem pool_accept_isolated:
  assumes "p = fold pool_step ops pool_new" "accept_connection (s, a) p = (idx, p')"
  shows "pool_get idx p = None \<and> pool_get idx p' = Some (connection_new s a) \<and>
    (\<forall>j. j \<noteq> idx \<longrightarrow> pool_get j p' = pool_get j p) \<and>
    (length (cp_connections p) < length (cp_connections p') \<longrightarrow> (\<forall>j < length (cp_connections p). pool_get j p \<noteq> None))"
  using accept_connection_spec [OF _ assms(2)] pool_steps_ok [OF pool_ok_new] assms(1) by auto

theorem pool_accept_isolated_witness:
  "pool_get 0 (fold pool_step [Accept 5 (V4 [] 1), Store 0 (connection_new 5 (V4 [] 1)\<lparr>cn_recv_buf := ''secret''\<rparr>), Close 0, Accept 6 (V4 [] 2)] pool_new) =
     Some (connection_new 6 (V4 [] 2))"
proof -
  let ?p = "fold pool_step [Accept 5 (V4 [] 1), Store 0 (connection_new 5 (V4 [] 1)\<lparr>cn_recv_buf := ''secret''\<rparr>), Close 0] pool_new"
  obtain idx p' where a: "accept_connection (6, V4 [] 2) ?p = (idx, p')" by (cases "accept_connection (6, V4 [] 2) ?p")
  moreover have "fst (accept_connection (6, V4 [] 2) ?p) = 0" by code_simp
  ultimately have "idx = 0" by (metis fst_conv)
  with pool_accept_isolated [OF refl a] a show ?thesis by simp
qed

end
