(* ===== verification/Rpc_Response.thy ===== *)
theory Rpc_Response
  imports Server_Connection
begin

text \<open>
  The way back from the worker to the client: the queue entries of \<open>src/server/src/queue.rs\<close>, what the
  worker of \<open>src/server/src/worker.rs\<close> does with one request, the JSON and HTTP text that
  \<open>src/server/src/server.rs\<close> makes of its answer, and that the client of \<open>src/client\<close> reads it back.
\<close>

section \<open>Queue entries\<close>

record response_sender =
  rp_request_id :: u64
  rp_token :: nat

record 'v queued_request =
  qr_request_id :: u64
  qr_token :: nat
  qr_request :: "'v parsed_request"
  qr_response_tx :: response_sender

record queued_response =
  qp_request_id :: u64
  qp_token :: nat
  qp_result :: "string + string"

text \<open>The response that \<open>ResponseSender::send\<close> pushes; the queue itself is in the server's state.\<close>

definition sender_response :: "response_sender \<Rightarrow> string + string \<Rightarrow> queued_response" where
  "sender_response tx result = \<lparr>qp_request_id = rp_request_id tx, qp_token = rp_token tx, qp_result = result\<rparr>"

section \<open>The worker's treatment of a request\<close>

text \<open>The format \<open>{:016x}\<close> of a \<open>u64\<close>.\<close>

definition hex_char :: "nat \<Rightarrow> char" where
  "hex_char d = (if d < 10 then char_of (48 + d) else char_of (87 + d))"

fun hex_pad :: "nat \<Rightarrow> nat \<Rightarrow> bytes" where
  "hex_pad 0 n = []"
| "hex_pad (Suc k) n = hex_pad k (n div 16) @ [hex_char (n mod 16)]"

definition hex16 :: "u64 \<Rightarrow> bytes" where
  "hex16 w = hex_pad 16 (unat w)"

text \<open>The answer that is sent first, and the call of the QUIC sender that follows it, if any.\<close>

definition process_request :: "'v queued_request \<Rightarrow> queued_response \<times> (u8 list \<times> usize) option" where
  "process_request queued =
     (if pr_transaction (qr_request queued) = [] then
        (sender_response (qr_response_tx queued) (Inl ''Empty transaction''), None)
      else
        (sender_response (qr_response_tx queued) (Inr (hex16 (qr_request_id queued))),
         Some (pr_transaction (qr_request queued), pr_fanout (qr_request queued))))"

section \<open>Response text\<close>

definition write_json_response :: "bytes \<Rightarrow> queued_response \<Rightarrow> bytes" where
  "write_json_response json_buf response =
     json_buf @ ''{'' @ jstr ''jsonrpc'' @ '':'' @ jstr ''2.0'' @ '','' @ jstr ''id'' @ '':'' @
     show_nat (unat (qp_request_id response)) @
     (case qp_result response of
        Inr request_id_hex \<Rightarrow>
          '','' @ jstr ''result'' @ '':{'' @ jstr ''status'' @ '':'' @ jstr ''queued'' @ '','' @ jstr ''request_id'' @ '':'' @
          [quot] @ request_id_hex @ [quot] @ ''}}''
      | Inl error_msg \<Rightarrow>
          '','' @ jstr ''error'' @ '':{'' @ jstr ''code'' @ '':-32603,'' @ jstr ''message'' @ '':'' @
          [quot] @ error_msg @ [quot] @ ''}}'')"

text \<open>The second component is the connection's JSON buffer.\<close>

definition create_response :: "date_cache \<Rightarrow> queued_response \<Rightarrow> bool \<Rightarrow> bytes \<Rightarrow> (bytes \<times> bytes) run" where
  "create_response cache response connection_close json_buf =
     (let json = write_json_response [] response;
          resp = with_json_bytes json response_ok
      in run_bind (response_build cache (if connection_close then with_connection_close resp else resp))
           (\<lambda>buf. Done (buf, json)))"

definition error_response ::
  "('v json_rpc_response \<Rightarrow> bytes) \<Rightarrow> date_cache \<Rightarrow> 'v \<Rightarrow> server_error \<Rightarrow> bool \<Rightarrow> bytes run" where
  "error_response to_writer cache i err connection_close =
     (let json_buf = to_writer (rpc_from_error i err);
          resp = with_json_bytes json_buf response_bad_request
      in response_build cache (if connection_close then with_connection_close resp else resp))"

section \<open>Hexadecimal numbers are read back\<close>

lemma hex_digit_char: "d < 16 \<Longrightarrow> hex_digit (hex_char d) = Some d"
  by (auto simp: hex_char_def hex_digit.simps Let_def of_char_of)

lemma hex_loop_append: "hex_loop v (s @ t) = (case hex_loop v s of None \<Rightarrow> None | Some w \<Rightarrow> hex_loop w t)"
  by (induction s arbitrary: v) (auto split: option.split)

lemma hex_loop_pad: "n < 16 ^ k \<Longrightarrow> n < 2 ^ 64 \<Longrightarrow> hex_loop 0 (hex_pad k n) = Some n"
proof (induction k arbitrary: n)
  case (Suc k)
  have n: "n div 16 * 16 + n mod 16 = n" by simp
  have "n div 16 < 16 ^ k" using Suc.prems(1) by (simp add: less_mult_imp_div_less mult.commute)
  moreover have "n div 16 < 2 ^ 64" using Suc.prems(2) by (rule le_less_trans [rotated]) simp
  ultimately have "hex_loop 0 (hex_pad k (n div 16)) = Some (n div 16)" by (rule Suc.IH)
  moreover have "n div 16 * 16 < 2 ^ 64" using Suc.prems(2) n by linarith
  ultimately show ?case using Suc.prems(2) n by (simp add: hex_loop_append hex_digit_char del: div_mult_mod_eq)
qed simp

lemma parse_hex16: "parse_hex_u64 (hex16 w) = Some w"
proof -
  have w: "unat w < 2 ^ 64" using unsigned_less [of w] by simp
  then have "unat w < 16 ^ 16" by simp
  then have "hex_loop 0 (hex16 w) = Some (unat w)" unfolding hex16_def using w by (rule hex_loop_pad)
  then show ?thesis by (simp add: parse_hex_u64_def)
qed

section \<open>The client's scanner on the server's JSON\<close>

lemma quot_eq: "quot = CHR 0x22"
  unfolding quot_def by code_simp

text \<open>The rest of a buffer from the first place where a key, or a byte, is found.\<close>

definition after_key :: "bytes \<Rightarrow> bytes \<Rightarrow> bytes option" where
  "after_key buf key = map_option (\<lambda>k. drop k buf) (find_key buf key)"

definition after_byte :: "bytes \<Rightarrow> char \<Rightarrow> bytes option" where
  "after_byte buf b = map_option (\<lambda>k. drop k buf) (find_byte buf b)"

lemma find_key_Cons:
  assumes "key \<noteq> []"
  shows "find_key (c # s) key = (if take (length key) (c # s) = key then Some 0 else map_option Suc (find_key s key))"
proof (cases "length s < length key")
  case True
  show ?thesis
  proof (cases "length (c # s) < length key")
    case True
    then have "take (length key) (c # s) \<noteq> key" by (metis length_take min.strict_order_iff nat_neq_iff)
    with True show ?thesis by (simp add: find_key_def)
  next
    case False
    with True have "length (c # s) = length key" by simp
    with assms show ?thesis by (simp add: find_key_def)
  qed
next
  case False
  then have l: "length (c # s) - length key + 1 = Suc (length s - length key + 1)" "\<not> length (c # s) < length key" by simp_all
  show ?thesis unfolding find_key_def l(1) using False l(2) by (simp only: find_upt_Suc if_False drop_0 drop_Suc_Cons)
qed

lemma find_key_Nil: "key \<noteq> [] \<Longrightarrow> find_key [] key = None"
  by (simp add: find_key_def)

lemma find_byte_Cons: "find_byte (c # s) b = (if c = b then Some 0 else map_option Suc (find_byte s b))"
  unfolding find_byte_def list.size(4) Nat.add_0_right add_Suc_right by (simp add: find_upt_Suc del: upt_Suc)

lemma after_key_Cons:
  "key \<noteq> [] \<Longrightarrow> after_key (c # s) key = (if take (length key) (c # s) = key then Some (c # s) else after_key s key)"
  by (simp add: after_key_def find_key_Cons option.map_comp o_def)

lemma after_key_Nil: "key \<noteq> [] \<Longrightarrow> after_key [] key = None"
  by (simp add: after_key_def find_key_Nil)

lemma after_key_skip: "b \<notin> set l \<Longrightarrow> after_key (l @ s) (b # key) = after_key s (b # key)"
  by (induction l) (auto simp: after_key_Cons)

lemma after_byte_Cons: "after_byte (c # s) b = (if c = b then Some (c # s) else after_byte s b)"
  by (simp add: after_byte_def find_byte_Cons option.map_comp o_def)

lemma find_byte_found: "b \<notin> set l \<Longrightarrow> find_byte (l @ b # s) b = Some (length l)"
  by (induction l) (auto simp: find_byte_Cons)

lemma find_request_id_after:
  "find_request_id body =
     (case after_key body (jstr ''request_id'') of
        None \<Rightarrow> None
      | Some rest \<Rightarrow>
          (case after_byte rest (CHR '':'') of
             None \<Rightarrow> None
           | Some r1 \<Rightarrow>
               (case after_byte r1 quot of
                  None \<Rightarrow> None
                | Some r2 \<Rightarrow>
                    if tl r2 = [] then None
                    else (case find_byte (tl r2) quot of None \<Rightarrow> None | Some quote_end \<Rightarrow> parse_hex_u64 (take quote_end (tl r2))))))"
proof -
  have d: "tl (drop q (drop c rest)) = drop (Suc (c + q)) rest" for q c and rest :: bytes
    by (simp add: drop_Suc tl_drop add.commute)
  show ?thesis
    unfolding find_request_id_def after_key_def after_byte_def Let_def
    by (simp add: d del: drop_drop split: option.split)
qed

lemma find_error_code_after:
  "find_error_code body =
     (case after_key body (jstr ''error'') of
        None \<Rightarrow> None
      | Some r \<Rightarrow> (case after_key r (jstr ''code'') of None \<Rightarrow> None | Some r2 \<Rightarrow> parse_number_after r2))"
  by (auto simp: find_error_code_def after_key_def add.commute split: option.split)

lemma quot_free_digits: "quot \<notin> set (show_nat n)"
  using show_nat_digits [of quot n] by (auto simp: is_ascii_digit_def quot_eq)

lemma quot_free_hex: "quot \<notin> set (hex_pad k n)"
proof (induction k arbitrary: n)
  case (Suc k)
  have "hex_digit quot = None" by (simp add: hex_digit.simps quot_eq)
  then have "hex_char (n mod 16) \<noteq> quot" using hex_digit_char [of "n mod 16"] by auto
  with Suc show ?case by auto
qed simp

lemma length_hex16: "length (hex16 r) = 16"
proof -
  have "length (hex_pad k n) = k" for k n by (induction k arbitrary: n) auto
  then show ?thesis by (simp add: hex16_def)
qed

lemma hex16_no_quot: "quot \<notin> set (take k (hex16 r))"
  using quot_free_hex [of 16 "unat r"] by (auto simp: hex16_def dest: in_set_takeD)

text \<open>What comes first in every answer contains neither key.\<close>

lemma after_key_preamble:
  assumes "key = jstr ''error'' \<or> key = jstr ''request_id''"
  shows "after_key (''{'' @ jstr ''jsonrpc'' @ '':'' @ jstr ''2.0'' @ '','' @ jstr ''id'' @ '':'' @ show_nat n @ s) key = after_key s key"
proof -
  have "after_key (show_nat n @ s) key = after_key s key"
    using assms quot_free_digits after_key_skip by (auto simp: jstr_def)
  then show ?thesis using assms by (auto simp: jstr_def quot_eq after_key_Cons)
qed

lemma answer_parsed:
  "parse_json_rpc_response (write_json_response [] \<lparr>qp_request_id = i, qp_token = t, qp_result = Inr (hex16 r)\<rparr>) = Inr r"
proof -
  let ?s = "'','' @ jstr ''result'' @ '':{'' @ jstr ''status'' @ '':'' @ jstr ''queued'' @ '',''"
  let ?t = "jstr ''request_id'' @ '':'' @ [quot] @ hex16 r @ [quot] @ ''}}''"
  have e: "after_key (hex16 r @ [quot] @ ''}}'') (jstr ''error'') = after_key ([quot] @ ''}}'') (jstr ''error'')"
    unfolding jstr_def append_Cons append_Nil hex16_def by (rule after_key_skip [OF quot_free_hex])
  have "after_key (?s @ ?t) (jstr ''error'') = None"
    using e hex16_no_quot [of "Suc (Suc (Suc (Suc (Suc (Suc 0)))))" r] length_hex16 [of r] by (auto simp: jstr_def quot_eq after_key_Cons after_key_Nil)
  moreover have k: "after_key (?s @ ?t) (jstr ''request_id'') = Some ?t"
    by (simp add: jstr_def quot_eq after_key_Cons)
  have c: "after_byte ?t (CHR '':'') = Some ('':'' @ [quot] @ hex16 r @ [quot] @ ''}}'')"
    "after_byte ('':'' @ [quot] @ hex16 r @ [quot] @ ''}}'') quot = Some ([quot] @ hex16 r @ [quot] @ ''}}'')"
    by (simp_all add: jstr_def quot_eq after_byte_Cons)
  have "find_byte (hex16 r @ [quot] @ ''}}'') quot = Some (length (hex16 r))"
    unfolding append_Cons append_Nil hex16_def by (rule find_byte_found [OF quot_free_hex])
  with k c have "find_request_id (?s @ ?t) = Some r" by (simp add: find_request_id_after parse_hex16)
  ultimately show ?thesis
    unfolding parse_json_rpc_response_def write_json_response_def
    by (simp add: find_error_code_after find_request_id_after after_key_preamble [simplified] split: option.split)
qed

lemma error_parsed:
  "parse_json_rpc_response (write_json_response [] \<lparr>qp_request_id = i, qp_token = t, qp_result = Inl msg\<rparr>) = Inl (Rpc (- 32603))"
proof -
  let ?t = "jstr ''error'' @ '':{'' @ jstr ''code'' @ '':-32603,'' @ jstr ''message'' @ '':'' @ [quot] @ msg @ [quot] @ ''}}''"
  let ?c = "jstr ''code'' @ '':-32603,'' @ jstr ''message'' @ '':'' @ [quot] @ msg @ [quot] @ ''}}''"
  have e: "after_key ('','' @ ?t) (jstr ''error'') = Some ?t" "after_key ?t (jstr ''code'') = Some ?c"
    by (simp_all add: jstr_def quot_eq after_key_Cons)
  let ?r = "''-32603,'' @ jstr ''message'' @ '':'' @ [quot] @ msg @ [quot] @ ''}}''"
  have "find_byte ?c (CHR '':'') = Some 6" by (simp add: jstr_def quot_eq find_byte_Cons eval_nat_numeral)
  moreover have "drop (6 + 1) ?c = ?r" by (simp add: jstr_def)
  moreover have "takeWhile is_ascii_digit (tl ?r) = ''32603''" by (simp add: is_ascii_digit_def)
  moreover have "foldl (\<lambda>val c. val * 10 + of_nat (digit_val c)) (0 :: 32 word) ''32603'' = 32603" by code_simp
  moreover have "sint (- (32603 :: 32 word)) = - 32603" by code_simp
  moreover have "dropWhile (\<lambda>c. c = CHR '' '' \<or> c = char_of (9 :: nat)) ?r = ?r"
  proof -
    have "CHR ''-'' \<noteq> char_of (9 :: nat)" by code_simp
    then show ?thesis by simp
  qed
  ultimately have "parse_number_after ?c = Some (- 32603)" by (simp add: parse_number_after_def Let_def)
  with e have "find_error_code (''{'' @ jstr ''jsonrpc'' @ '':'' @ jstr ''2.0'' @ '','' @ jstr ''id'' @ '':'' @ show_nat (unat i) @ '','' @ ?t) =
      Some (- 32603)"
    by (simp add: find_error_code_after after_key_preamble [simplified])
  then show ?thesis unfolding parse_json_rpc_response_def write_json_response_def by simp
qed

section \<open>The HTTP frame of a response\<close>

definition response_lines :: "bytes \<Rightarrow> bytes \<Rightarrow> bool \<Rightarrow> nat \<Rightarrow> bytes list" where
  "response_lines status date keep n =
     [''HTTP/1.1 '' @ status, ''Content-Length: '' @ show_nat n, ''Date: '' @ date, ''Content-Type: application/json'',
      ''Connection: '' @ (if keep then ''keep-alive'' else ''close'')]"

text \<open>The date that the cache holds, and that it is plain text.\<close>

definition date_text :: "date_cache \<Rightarrow> bytes" where
  "date_text cache = take (dc_len cache) (dc_formatted cache)"

definition date_ok :: "date_cache \<Rightarrow> bool" where
  "date_ok cache \<longleftrightarrow> dc_len cache \<le> length (dc_formatted cache) \<and> list_all (\<lambda>c. 32 \<le> (of_char c :: nat)) (date_text cache)"

lemma response_build_lines:
  assumes "date_ok cache" "hp_headers r = [(''Content-Type'', ''application/json'')]"
  shows "response_build cache r =
    Done (join_lines (response_lines (show_nat (unat (hp_status r)) @ '' '' @ hp_status_text r) (date_text cache) (hp_keep_alive r)
        (length (hp_body r))) @ CRLF @ CRLF @ hp_body r)"
  using assms by (simp add: response_build_def append_date_def date_ok_def date_text_def response_lines_def join_lines_def)

lemma response_lines_ok:
  assumes "date_ok cache" "list_all (\<lambda>c. 32 \<le> (of_char c :: nat)) status"
  shows "list_all header_line (response_lines status (date_text cache) keep n)"
  using assms graph_plain [OF show_nat_graph [of n]] unfolding response_lines_def date_ok_def
  by (simp only: list.pred_inject, intro conjI plain_line) simp_all

lemma response_content_length:
  assumes "list_all header_line (response_lines status date keep n)" "n < 2 ^ 64"
  shows "find_content_length_bytes (join_lines (response_lines status date keep n)) = Some (of_nat n)"
proof -
  let ?rest = "join_lines (drop 2 (response_lines status date keep n))"
  have hl: "header_line (''HTTP/1.1 '' @ status)" using assms(1) by (simp add: response_lines_def)
  have j: "join_lines (response_lines status date keep n) = (''HTTP/1.1 '' @ status) @ CRLF @ ''Content-Length: '' @ show_nat n @ CRLF @ ?rest"
    by (simp add: response_lines_def join_lines_Cons)
  have "cl_scan True (''Content-Length: '' @ show_nat n @ CRLF @ ?rest) = Some (of_nat n)"
    by (rule cl_scan_hit [OF _ assms(2)]) (simp add: CRLF_def is_ascii_digit_def CR_LF_code)
  moreover have "cl_scan True ((''HTTP/1.1 '' @ status) @ CRLF @ ''Content-Length: '' @ show_nat n @ CRLF @ ?rest) =
      cl_scan True (''Content-Length: '' @ show_nat n @ CRLF @ ?rest)"
    by (rule cl_scan_line [OF hl]) (simp_all add: cl_match_def)
  ultimately show ?thesis by (simp only: find_content_length_scan j)
qed

lemma length_show_nat_pow: "n < 10 ^ Suc k \<Longrightarrow> length (show_nat n) \<le> Suc k"
proof (induction k arbitrary: n)
  case 0
  then show ?case by (subst length_show_nat) simp
next
  case (Suc k)
  have "n div 10 < 10 ^ Suc k" using Suc.prems by (simp add: less_mult_imp_div_less mult.commute)
  with Suc.IH [of "n div 10"] show ?case by (subst length_show_nat) simp
qed

lemma length_show_nat_u64: "length (show_nat (unat (w :: u64))) \<le> 20"
proof -
  have "unat w < 2 ^ 64" using unsigned_less [of w] by simp
  then have "unat w < 10 ^ Suc 19" by simp
  from length_show_nat_pow [OF this] show ?thesis by simp
qed

lemma http_status_200: "get_http_status (''HTTP/1.1 200 OK'' @ s) = 200"
proof -
  have "find (\<lambda>i. (''HTTP/1.1 200 OK'' @ s) ! i = CHR '' '') [0..<12] = Some 8"
    by (simp add: upt_conv_Cons)
  moreover have "of_nat (digit_val (CHR ''2'')) * 100 + of_nat (digit_val (CHR ''0'')) * 10 + of_nat (digit_val (CHR ''0'')) = (200 :: u16)"
    by code_simp
  ultimately show ?thesis by (simp add: get_http_status_def is_ascii_digit_def eval_nat_numeral)
qed

lemma http_status_400: "get_http_status (''HTTP/1.1 400 Bad Request'' @ s) = 400"
proof -
  have "find (\<lambda>i. (''HTTP/1.1 400 Bad Request'' @ s) ! i = CHR '' '') [0..<12] = Some 8"
    by (simp add: upt_conv_Cons)
  moreover have "of_nat (digit_val (CHR ''4'')) * 100 + of_nat (digit_val (CHR ''0'')) * 10 + of_nat (digit_val (CHR ''0'')) = (400 :: u16)"
    by code_simp
  ultimately show ?thesis by (simp add: get_http_status_def is_ascii_digit_def eval_nat_numeral)
qed

lemma response_complete:
  assumes "date_ok cache" "list_all (\<lambda>c. 32 \<le> (of_char c :: nat)) status" "length body < 2 ^ 64"
    and "buf = join_lines (response_lines status (date_text cache) keep (length body)) @ CRLF @ CRLF @ body"
  shows "cl_is_complete buf \<and> (\<forall>k < length buf. \<not> cl_is_complete (take k buf)) \<and>
    cl_find_headers_end buf = Some (length (join_lines (response_lines status (date_text cache) keep (length body))))"
proof -
  have ne: "response_lines status (date_text cache) keep (length body) \<noteq> []" by (simp add: response_lines_def)
  note ok = response_lines_ok [OF assms(1,2), of keep "length body"]
  have he: "find_headers_end buf = Some (length (join_lines (response_lines status (date_text cache) keep (length body))))"
    unfolding assms(4) by (rule find_headers_end_join [OF ne ok])
  from is_complete_exact [OF he assms(4) response_content_length [OF ok assms(3)] assms(3)] he
  show ?thesis by (simp add: cl_is_complete_eq cl_find_headers_end_eq)
qed

lemma create_response_frame:
  assumes "date_ok cache" "create_response cache response close json = Done (buf, json')"
  shows "json' = write_json_response [] response \<and>
    buf = join_lines (response_lines ''200 OK'' (date_text cache) (\<not> close) (length json')) @ CRLF @ CRLF @ json'"
proof -
  have "show_nat 200 = ''200''" by code_simp
  then show ?thesis
    using assms response_build_lines [OF assms(1)]
    by (auto simp: create_response_def with_json_bytes_def with_connection_close_def response_ok_def Let_def split: if_splits)
qed

lemma create_response_done:
  "date_ok cache \<Longrightarrow> \<exists>buf. create_response cache response close json = Done (buf, write_json_response [] response)"
  by (auto simp: create_response_def with_json_bytes_def with_connection_close_def response_ok_def Let_def response_build_lines)

lemma answer_understood:
  assumes "date_ok cache" "qr_response_tx q = \<lparr>rp_request_id = qr_request_id q, rp_token = t\<rparr>"
    and "create_response cache (fst (process_request q)) close json = Done (buf, json')"
  shows "cl_is_complete buf \<and> (\<forall>k < length buf. \<not> cl_is_complete (take k buf)) \<and>
    parse_response buf = (if pr_transaction (qr_request q) = [] then Inl (Rpc (- 32603)) else Inr (qr_request_id q))"
proof -
  from create_response_frame [OF assms(1,3)]
  have j: "json' = write_json_response [] (fst (process_request q))"
    and b: "buf = join_lines (response_lines ''200 OK'' (date_text cache) (\<not> close) (length json')) @ CRLF @ CRLF @ json'" by simp_all
  have st: "list_all (\<lambda>c. 32 \<le> (of_char c :: nat)) ''200 OK''" by simp
  have "length json' < 2 ^ 64"
    using length_show_nat_u64 [of "qr_request_id q"] length_hex16 [of "qr_request_id q"] assms(2) unfolding j
    by (simp add: process_request_def sender_response_def write_json_response_def jstr_def)
  note C = response_complete [OF assms(1) st this b]
  have "drop (length (join_lines (response_lines ''200 OK'' (date_text cache) (\<not> close) (length json'))) + 4) buf = json'"
    unfolding b by (simp add: CRLF_def)
  moreover have "get_http_status buf = 200" unfolding b
    using http_status_200 by (simp add: response_lines_def join_lines_Cons)
  ultimately have "parse_response buf = parse_json_rpc_response json'" using C by (simp add: parse_response_def)
  then have "parse_response buf = (if pr_transaction (qr_request q) = [] then Inl (Rpc (- 32603)) else Inr (qr_request_id q))"
    unfolding j using assms(2) by (simp add: process_request_def sender_response_def answer_parsed error_parsed)
  with C show ?thesis by blast
qed

text \<open>
  C9. The client understands what the server answers. The worker's answer to a request, formatted by
  the server, is complete for the client when its last byte has arrived and not before, and is read
  back as the request id that the server assigned; a request with an empty transaction is read back
  as the JSON-RPC error \<open>-32603\<close>. A request that the server rejects before queueing it is answered with
  status 400, which the client reports as an HTTP error whatever the JSON-RPC code in the body is.
\<close>

theorem server_response_understood:
  assumes "date_ok cache"
    and "q = \<lparr>qr_request_id = r, qr_token = t, qr_request = req, qr_response_tx = \<lparr>rp_request_id = r, rp_token = t\<rparr>\<rparr>"
    and "create_response cache (fst (process_request q)) close json = Done (buf, json')"
    and "error_response to_writer cache i err close = Done ebuf" "length (to_writer (rpc_from_error i err)) < 2 ^ 64"
  shows "cl_is_complete buf \<and> (\<forall>k < length buf. \<not> cl_is_complete (take k buf)) \<and>
    parse_response buf = (if pr_transaction req = [] then Inl (Rpc (- 32603)) else Inr r) \<and>
    cl_is_complete ebuf \<and> (\<forall>k < length ebuf. \<not> cl_is_complete (take k ebuf)) \<and> parse_response ebuf = Inl BadHttp"
proof -
  have "qr_response_tx q = \<lparr>rp_request_id = qr_request_id q, rp_token = t\<rparr>" by (simp add: assms(2))
  note A = answer_understood [OF assms(1) this assms(3)]
  have st: "list_all (\<lambda>c. 32 \<le> (of_char c :: nat)) ''400 Bad Request''" by simp
  let ?e = "to_writer (rpc_from_error i err)"
  have "show_nat 400 = ''400''" by code_simp
  then have eb: "ebuf = join_lines (response_lines ''400 Bad Request'' (date_text cache) (\<not> close) (length ?e)) @ CRLF @ CRLF @ ?e"
    using assms(4) response_build_lines [OF assms(1)]
    by (auto simp: error_response_def with_json_bytes_def with_connection_close_def response_bad_request_def Let_def split: if_splits)
  note E = response_complete [OF assms(1) st assms(5) eb]
  have "get_http_status ebuf = 400" unfolding eb
    using http_status_400 by (simp add: response_lines_def join_lines_Cons)
  then have "parse_response ebuf = Inl BadHttp" using E by (simp add: parse_response_def)
  with A E show ?thesis by (simp add: assms(2))
qed

theorem server_response_understood_witness:
  "\<exists>buf. create_response \<lparr>dc_formatted = [], dc_len = 0\<rparr> (fst (process_request \<lparr>qr_request_id = 26, qr_token = 1,
       qr_request = \<lparr>pr_id = (), pr_transaction = [7], pr_fanout = 1, pr_target_slot = 0, pr_neighbor_fanout = None\<rparr>,
       qr_response_tx = \<lparr>rp_request_id = 26, rp_token = 1\<rparr>\<rparr>)) False [] = Done (buf, write_json_response [] \<lparr>qp_request_id = 26, qp_token = 1, qp_result = Inr (hex16 26)\<rparr>) \<and>
     parse_response buf = Inr 26"
proof -
  let ?d = "\<lparr>dc_formatted = [], dc_len = 0\<rparr> :: date_cache"
  let ?r = "\<lparr>pr_id = (), pr_transaction = [7], pr_fanout = 1, pr_target_slot = 0, pr_neighbor_fanout = None\<rparr> :: unit parsed_request"
  let ?q = "\<lparr>qr_request_id = 26, qr_token = 1, qr_request = ?r, qr_response_tx = \<lparr>rp_request_id = 26, rp_token = 1\<rparr>\<rparr> :: unit queued_request"
  have d: "date_ok ?d" by (simp add: date_ok_def date_text_def)
  obtain buf where b: "create_response ?d (fst (process_request ?q)) False [] = Done (buf, write_json_response [] (fst (process_request ?q)))"
    using create_response_done [OF d] by blast
  obtain ebuf where e: "error_response (\<lambda>_. ''{}'') ?d () QueueFull False = Done ebuf"
    by (simp add: error_response_def with_json_bytes_def response_bad_request_def response_build_lines [OF d] Let_def)
  have "parse_response buf = Inr 26"
    using server_response_understood [OF d refl b e] by simp
  with b show ?thesis by (auto simp: process_request_def sender_response_def)
qed

end
