(* ===== verification/Rpc_Server.thy ===== *)
theory Rpc_Server
  imports Rpc_Response Ring_Buffer
begin

text \<open>
  The RPC server as a whole: the event loop of \<open>src/server/src/server.rs\<close>, the worker loop of
  \<open>src/server/src/worker.rs\<close>, the two queues between them of \<open>src/server/src/queue.rs\<close> and the
  configuration of \<open>src/server/src/config.rs\<close>.

  The two threads are step relations over one state. A queue is the bounded first-in first-out queue
  that the channel theories show the channels to be; a send to a full queue spins, so the step that
  contains it is not enabled. \<open>serde_json\<close> is the argument \<open>sd\<close>; the answers of the sockets are part of
  the events that a poll returns. The calls of the QUIC sender are recorded in the order in which the
  worker makes them, and so are the accepted requests, the owner of each request id and the responses
  handed to connections.
\<close>

section \<open>Configuration\<close>

record server_config =
  sc_bind_addr :: socket_addr
  sc_queue_size :: usize
  sc_worker_cpu_core :: "usize option"
  sc_max_request_size :: usize
  sc_max_connections :: usize
  sc_tcp_recv_buffer_size :: usize
  sc_tcp_send_buffer_size :: usize

definition config_default :: server_config where
  "config_default =
     \<lparr>sc_bind_addr = V4 [127, 0, 0, 1] 8080, sc_queue_size = 4096, sc_worker_cpu_core = Some 5,
      sc_max_request_size = 1024 * 1024, sc_max_connections = 10240, sc_tcp_recv_buffer_size = 64 * 1024,
      sc_tcp_send_buffer_size = 64 * 1024\<rparr>"

definition with_bind_addr :: "socket_addr \<Rightarrow> server_config \<Rightarrow> server_config" where
  "with_bind_addr addr c = c\<lparr>sc_bind_addr := addr\<rparr>"

definition with_queue_size :: "usize \<Rightarrow> server_config \<Rightarrow> server_config run" where
  "with_queue_size sz c = (if \<not> is_power_of_two sz then Panicked else Done (c\<lparr>sc_queue_size := sz\<rparr>))"

definition with_worker_cpu_core :: "usize \<Rightarrow> server_config \<Rightarrow> server_config" where
  "with_worker_cpu_core core c = c\<lparr>sc_worker_cpu_core := Some core\<rparr>"

definition with_max_request_size :: "usize \<Rightarrow> server_config \<Rightarrow> server_config" where
  "with_max_request_size sz c = c\<lparr>sc_max_request_size := sz\<rparr>"

definition with_max_connections :: "usize \<Rightarrow> server_config \<Rightarrow> server_config" where
  "with_max_connections count c = c\<lparr>sc_max_connections := count\<rparr>"

definition with_tcp_buffer_sizes :: "usize \<Rightarrow> usize \<Rightarrow> server_config \<Rightarrow> server_config" where
  "with_tcp_buffer_sizes recv send c = c\<lparr>sc_tcp_recv_buffer_size := recv, sc_tcp_send_buffer_size := send\<rparr>"

definition config_validate :: "server_config \<Rightarrow> string + unit" where
  "config_validate c =
     (if \<not> is_power_of_two (sc_queue_size c)
      then Inl (''Queue size must be a power of 2, got '' @ show_nat (unat (sc_queue_size c)))
      else if sc_max_request_size c = 0 then Inl ''Max request size must be greater than 0''
      else if sc_max_connections c = 0 then Inl ''Max connections must be greater than 0''
      else Inr ())"

section \<open>State\<close>

record 'v serde =
  sd_from_slice :: "bytes \<Rightarrow> string + 'v json_rpc_request"
  sd_from_value :: "'v \<Rightarrow> string + send_transaction_params"
  sd_to_writer :: "'v json_rpc_response \<Rightarrow> bytes"
  sd_null :: 'v

datatype accept_obs = Accepted nat socket_addr bool | AcceptWouldBlock | AcceptErr

text \<open>
  An event of a poll: the listener with the answers of \<open>accept\<close> (the last argument says whether the
  registration of the stream succeeded), or a token with its readiness and the answers of its socket.
\<close>

datatype mio_event =
    ListenerEvent "accept_obs list"
  | ClientEvent nat bool bool "read_obs list" "write_obs list"

datatype http_pc = Polling | Handling "mio_event list" | Collecting "queued_response list" | Routing "queued_response list" | HttpDone

datatype 'v worker_pc =
    Idle
  | Draining "'v queued_request list"
  | Working "'v queued_request list"
  | Transmitting "'v queued_request" "'v queued_request list"
  | WorkerDone

record 'v rpc_server =
  sv_capacity :: nat
  sv_pool :: connection_pool
  sv_next_id :: u64
  sv_requests :: "'v queued_request list"
  sv_responses :: "queued_response list"
  sv_shutdown :: bool
  sv_date :: date_cache
  sv_http :: http_pc
  sv_worker :: "'v worker_pc"
  sv_generated :: nat
  sv_accepted :: "'v queued_request list"
  sv_owners :: "(u64 \<times> nat) list"
  sv_answered :: "queued_response list"
  sv_sent :: "(u8 list \<times> usize) list"
  sv_delivered :: "(u64 \<times> nat \<times> bytes) list"

definition server_new :: "server_config \<Rightarrow> date_cache \<Rightarrow> server_error + 'v rpc_server" where
  "server_new cfg date =
     (case config_validate cfg of
        Inl e \<Rightarrow> Inl (InternalError e)
      | Inr _ \<Rightarrow> Inr \<lparr>sv_capacity = unat (sc_queue_size cfg), sv_pool = pool_new, sv_next_id = 1, sv_requests = [],
          sv_responses = [], sv_shutdown = False, sv_date = date, sv_http = Polling, sv_worker = Idle, sv_generated = 0,
          sv_accepted = [], sv_owners = [], sv_answered = [], sv_sent = [], sv_delivered = []\<rparr>)"

definition generate_request_id :: "'v rpc_server \<Rightarrow> u64 \<times> 'v rpc_server" where
  "generate_request_id s = (sv_next_id s, s\<lparr>sv_next_id := sv_next_id s + 1, sv_generated := sv_generated s + 1\<rparr>)"

section \<open>The event loop\<close>

text \<open>The send to the worker: refused when the worker has gone, spinning while the queue is full.\<close>

definition send_request :: "'v queued_request \<Rightarrow> 'v rpc_server \<Rightarrow> (bool \<times> 'v rpc_server) run" where
  "send_request q s =
     (if sv_worker s = WorkerDone then Done (False, s)
      else if length (sv_requests s) < sv_capacity s
      then Done (True, s\<lparr>sv_requests := sv_requests s @ [q], sv_accepted := sv_accepted s @ [q]\<rparr>)
      else Blocked)"

definition handle_request ::
  "'v serde \<Rightarrow> bytes \<Rightarrow> nat \<Rightarrow> 'v rpc_server \<Rightarrow> ((server_error + u64 \<times> bool) \<times> 'v rpc_server) run" where
  "handle_request sd buf token s =
     (case http_parse buf of
        Inl e \<Rightarrow> Done (Inl e, s)
      | Inr http_req \<Rightarrow>
          if hr_method http_req \<noteq> ''POST'' then Done (Inl (InvalidHttp (''Method not allowed: '' @ hr_method http_req)), s)
          else case sd_from_slice sd (hr_body http_req) of
            Inl e \<Rightarrow> Done (Inl (JsonParse e), s)
          | Inr rpc_req \<Rightarrow>
              (case from_rpc_request (sd_from_value sd) rpc_req of
                 Inl e \<Rightarrow> Done (Inl e, s)
               | Inr parsed \<Rightarrow>
                   (case generate_request_id s of
                      (request_id, s1) \<Rightarrow>
                        let queued = \<lparr>qr_request_id = request_id, qr_token = token, qr_request = parsed,
                              qr_response_tx = \<lparr>rp_request_id = request_id, rp_token = token\<rparr>\<rparr>
                        in run_bind (send_request queued s1)
                             (\<lambda>(sent, s2). Done (if sent then Inr (request_id, hr_connection_close http_req) else Inl QueueFull, s2)))))"

text \<open>The readable part of a client event; the first component says whether the connection is to be removed.\<close>

definition client_read ::
  "'v serde \<Rightarrow> nat \<Rightarrow> read_obs list \<Rightarrow> connection \<Rightarrow> 'v rpc_server \<Rightarrow> (bool \<times> connection \<times> 'v rpc_server) run" where
  "client_read sd token robs conn s =
     (case try_read robs conn of
        (r, c) \<Rightarrow>
          run_bind r (\<lambda>r. case r of
            Inl e \<Rightarrow> Done (True, c, s)
          | Inr False \<Rightarrow> Done (True, c, s)
          | Inr True \<Rightarrow>
              (case is_request_complete c of
                 (complete, c1) \<Rightarrow>
                   if complete \<and> cn_pending_request_id c1 = None then
                     run_bind (handle_request sd (cn_recv_buf c1) token s) (\<lambda>(res, s1).
                       case res of
                         Inr (req_id, connection_close) \<Rightarrow>
                           Done (False,
                             clear_recv_buf (c1\<lparr>cn_pending_request_id := Some req_id, cn_should_close := connection_close,
                               cn_state := Processing\<rparr>),
                             s1\<lparr>sv_owners := sv_owners s1 @ [(req_id, cn_stream c1)]\<rparr>)
                       | Inl e \<Rightarrow>
                           run_bind (error_response (sd_to_writer sd) (sv_date s1) (sd_null sd) e False)
                             (\<lambda>response. Done (False, queue_response response c1, s1)))
                   else Done (False, c1, s))))"

text \<open>Writing what is queued, and what follows a response that is fully sent.\<close>

definition client_write :: "write_obs list \<Rightarrow> connection \<Rightarrow> (bool \<times> connection) run" where
  "client_write wobs conn =
     (case try_write wobs conn of
        (r, _, c) \<Rightarrow>
          run_bind r (\<lambda>r. case r of
            Inl e \<Rightarrow> Done (True, c)
          | Inr _ \<Rightarrow>
              if is_response_sent c then
                (if cn_should_close c then Done (True, c) else Done (False, reset_for_next_request c))
              else Done (False, c)))"

definition store_or_remove :: "nat \<Rightarrow> bool \<Rightarrow> connection \<Rightarrow> 'v rpc_server \<Rightarrow> 'v rpc_server" where
  "store_or_remove idx remove c s =
     s\<lparr>sv_pool := (if remove then pool_remove idx (sv_pool s) else pool_set idx c (sv_pool s))\<rparr>"

definition client_event ::
  "'v serde \<Rightarrow> nat \<Rightarrow> bool \<Rightarrow> bool \<Rightarrow> read_obs list \<Rightarrow> write_obs list \<Rightarrow> 'v rpc_server \<Rightarrow> 'v rpc_server run" where
  "client_event sd token readable writable robs wobs s =
     (let idx = token - 1 in
      case pool_get idx (sv_pool s) of
        None \<Rightarrow> Done s
      | Some conn \<Rightarrow>
          run_bind (if readable \<and> cn_state conn = Reading then client_read sd token robs conn s else Done (False, conn, s))
            (\<lambda>(remove, c, s1).
               run_bind (if \<not> remove \<and> writable \<and> cn_send_buf c \<noteq> [] then client_write wobs c else Done (remove, c))
                 (\<lambda>(remove, c). Done (store_or_remove idx remove c s1))))"

text \<open>The accept loop; a failed registration ends the server.\<close>

fun accept_loop :: "accept_obs list \<Rightarrow> 'v rpc_server \<Rightarrow> (bool \<times> 'v rpc_server) run" where
  "accept_loop [] s = Blocked"
| "accept_loop (AcceptWouldBlock # obs) s = Done (True, s)"
| "accept_loop (AcceptErr # obs) s = Done (True, s)"
| "accept_loop (Accepted stream addr registered # obs) s =
     (if registered then accept_loop obs (s\<lparr>sv_pool := snd (accept_connection (stream, addr) (sv_pool s))\<rparr>)
      else Done (False, s))"

fun handle_event :: "'v serde \<Rightarrow> mio_event \<Rightarrow> 'v rpc_server \<Rightarrow> (bool \<times> 'v rpc_server) run" where
  "handle_event sd (ListenerEvent obs) s = accept_loop obs s"
| "handle_event sd (ClientEvent token readable writable robs wobs) s =
     run_bind (client_event sd token readable writable robs wobs s) (\<lambda>s1. Done (True, s1))"

text \<open>A worker response on its way to the connection of its token, if that still waits for it.\<close>

definition route_response :: "write_obs list \<Rightarrow> queued_response \<Rightarrow> 'v rpc_server \<Rightarrow> 'v rpc_server run" where
  "route_response wobs response s =
     (let idx = qp_token response - 1 in
      case pool_get idx (sv_pool s) of
        None \<Rightarrow> Done s
      | Some conn \<Rightarrow>
          if cn_pending_request_id conn = Some (qp_request_id response) then
            run_bind (create_response (sv_date s) response (cn_should_close conn) (cn_json_buf conn))
              (\<lambda>(http_response, json).
                 let c = (queue_response http_response (conn\<lparr>cn_json_buf := json\<rparr>))\<lparr>cn_pending_request_id := None\<rparr>
                 in run_bind (client_write wobs c)
                      (\<lambda>(remove, c1). Done ((store_or_remove idx remove c1 s)\<lparr>sv_delivered :=
                         sv_delivered s @ [(qp_request_id response, cn_stream conn, http_response)]\<rparr>)))
          else Done s)"

section \<open>Steps of the two threads\<close>

text \<open>Observations on which a call returns: the last answer of a socket is that it would block.\<close>

fun event_ok :: "mio_event \<Rightarrow> bool" where
  "event_ok (ListenerEvent obs) \<longleftrightarrow> obs \<noteq> [] \<and> last obs = AcceptWouldBlock"
| "event_ok (ClientEvent token readable writable robs wobs) \<longleftrightarrow>
     0 < token \<and> robs \<noteq> [] \<and> last robs = ReadWouldBlock \<and> wobs \<noteq> [] \<and> last wobs = WriteWouldBlock"

inductive http_step :: "'v serde \<Rightarrow> 'v rpc_server \<Rightarrow> 'v rpc_server \<Rightarrow> bool" for sd :: "'v serde" where
  poll: "sv_http s = Polling \<Longrightarrow> \<not> sv_shutdown s \<Longrightarrow> length evs \<le> 1024 \<Longrightarrow> list_all event_ok evs \<Longrightarrow>
    http_step sd s (s\<lparr>sv_http := Handling evs\<rparr>)"
| stop: "sv_http s = Polling \<Longrightarrow> sv_shutdown s \<Longrightarrow> http_step sd s (s\<lparr>sv_http := HttpDone\<rparr>)"
| event: "sv_http s = Handling (e # evs) \<Longrightarrow> handle_event sd e s = Done (True, s') \<Longrightarrow>
    http_step sd s (s'\<lparr>sv_http := Handling evs\<rparr>)"
| failed: "sv_http s = Handling (e # evs) \<Longrightarrow> handle_event sd e s = Done (False, s') \<Longrightarrow>
    http_step sd s (s'\<lparr>sv_http := HttpDone\<rparr>)"
| events_done: "sv_http s = Handling [] \<Longrightarrow> http_step sd s (s\<lparr>sv_http := Collecting []\<rparr>)"
| collect: "sv_http s = Collecting batch \<Longrightarrow> length batch < 64 \<Longrightarrow> sv_responses s = r # rs \<Longrightarrow>
    http_step sd s (s\<lparr>sv_http := Collecting (batch @ [r]), sv_responses := rs\<rparr>)"
| collected: "sv_http s = Collecting batch \<Longrightarrow> 64 \<le> length batch \<or> sv_responses s = [] \<Longrightarrow>
    http_step sd s (s\<lparr>sv_http := Routing batch\<rparr>)"
| route: "sv_http s = Routing (r # rs) \<Longrightarrow> wobs \<noteq> [] \<Longrightarrow> last wobs = WriteWouldBlock \<Longrightarrow> route_response wobs r s = Done s' \<Longrightarrow>
    http_step sd s (s'\<lparr>sv_http := Routing rs\<rparr>)"
| routed: "sv_http s = Routing [] \<Longrightarrow> http_step sd s (s\<lparr>sv_http := Polling\<rparr>)"

inductive worker_step :: "'v rpc_server \<Rightarrow> 'v rpc_server \<Rightarrow> bool" where
  wake: "sv_worker s = Idle \<Longrightarrow> \<not> sv_shutdown s \<Longrightarrow> worker_step s (s\<lparr>sv_worker := Draining []\<rparr>)"
| stop: "sv_worker s = Idle \<Longrightarrow> sv_shutdown s \<Longrightarrow> worker_step s (s\<lparr>sv_worker := WorkerDone\<rparr>)"
| drain: "sv_worker s = Draining batch \<Longrightarrow> length batch < 64 \<Longrightarrow> sv_requests s = q # qs \<Longrightarrow>
    worker_step s (s\<lparr>sv_worker := Draining (batch @ [q]), sv_requests := qs\<rparr>)"
| drained: "sv_worker s = Draining batch \<Longrightarrow> 64 \<le> length batch \<or> sv_requests s = [] \<Longrightarrow>
    worker_step s (s\<lparr>sv_worker := Working batch\<rparr>)"
| answer: "sv_worker s = Working (q # qs) \<Longrightarrow> length (sv_responses s) < sv_capacity s \<Longrightarrow>
    process_request q = (response, call) \<Longrightarrow>
    worker_step s (s\<lparr>sv_responses := sv_responses s @ [response], sv_answered := sv_answered s @ [response],
      sv_worker := (if call = None then Working qs else Transmitting q qs)\<rparr>)"
| transmit: "sv_worker s = Transmitting q qs \<Longrightarrow> snd (process_request q) = Some call \<Longrightarrow>
    worker_step s (s\<lparr>sv_sent := sv_sent s @ [call], sv_worker := Working qs\<rparr>)"
| batch_done: "sv_worker s = Working [] \<Longrightarrow> worker_step s (s\<lparr>sv_worker := Idle\<rparr>)"

text \<open>The whole server: a step of a thread, the shutdown signal or the update of the date.\<close>

inductive server_step :: "'v serde \<Rightarrow> 'v rpc_server \<Rightarrow> 'v rpc_server \<Rightarrow> bool" for sd :: "'v serde" where
  http: "http_step sd s s' \<Longrightarrow> server_step sd s s'"
| worker: "worker_step s s' \<Longrightarrow> server_step sd s s'"
| shutdown: "server_step sd s (s\<lparr>sv_shutdown := True\<rparr>)"
| date: "update_date secs (sv_date s) = Done d \<Longrightarrow> server_step sd s (s\<lparr>sv_date := d\<rparr>)"

inductive server_reachable :: "'v serde \<Rightarrow> server_config \<Rightarrow> 'v rpc_server \<Rightarrow> bool" for sd :: "'v serde" and cfg where
  init: "server_new cfg date = Inr s \<Longrightarrow> date_ok date \<Longrightarrow> length (dc_formatted date) = 32 \<Longrightarrow> server_reachable sd cfg s"
| step: "server_reachable sd cfg s \<Longrightarrow> server_step sd s s' \<Longrightarrow> server_reachable sd cfg s'"

section \<open>What an event does to the state\<close>

text \<open>Live connections are scanned correctly, and an awaited request id is on record for their socket.\<close>

definition conn_ok :: "(u64 \<times> nat) list \<Rightarrow> connection \<Rightarrow> bool" where
  "conn_ok owners c \<longleftrightarrow> scan_ok c \<and> (\<forall>r. cn_pending_request_id c = Some r \<longrightarrow> (r, cn_stream c) \<in> set owners)"

definition conns_ok :: "(u64 \<times> nat) list \<Rightarrow> connection_pool \<Rightarrow> bool" where
  "conns_ok owners p \<longleftrightarrow> pool_ok p \<and> (\<forall>i c. pool_get i p = Some c \<longrightarrow> conn_ok owners c)"

lemma conn_ok_mono: "conn_ok owners c \<Longrightarrow> conn_ok (owners @ os) c"
  by (auto simp: conn_ok_def)

lemma conns_ok_mono: "conns_ok owners p \<Longrightarrow> conns_ok (owners @ os) p"
  by (auto simp: conns_ok_def intro: conn_ok_mono)

lemma conns_ok_accept:
  assumes "conns_ok owners p"
  shows "conns_ok owners (snd (accept_connection (stream, addr) p))"
proof -
  obtain i p' where a: "accept_connection (stream, addr) p = (i, p')" by (cases "accept_connection (stream, addr) p")
  have ok: "pool_ok p" using assms by (simp add: conns_ok_def)
  have "conn_ok owners (connection_new stream addr)" using scan_ok_new by (simp add: conn_ok_def connection_new_def)
  with assms cp.insert_invar [OF ok a] cp.insert_lookup [OF ok a] show ?thesis by (auto simp: a conns_ok_def)
qed

lemma conns_ok_store:
  assumes "conns_ok owners (sv_pool s)" "pool_get idx (sv_pool s) = Some c0" "remove \<or> conn_ok owners c"
  shows "conns_ok owners (sv_pool (store_or_remove idx remove c s))"
proof -
  have ok: "pool_ok (sv_pool s)" and ne: "pool_get idx (sv_pool s) \<noteq> None" using assms(1,2) by (simp_all add: conns_ok_def)
  show ?thesis
    using assms(1,3) cp.replace_invar [OF ok ne] cp.delete_invar [OF ok ne]
      cp.replace_lookup [OF ok ne] cp.delete_lookup [OF ok ne]
    by (auto simp: store_or_remove_def conns_ok_def split: if_splits)
qed

text \<open>The three outcomes of a request: nothing taken, an id taken but the worker gone, or queued.\<close>

definition queued_of :: "nat \<Rightarrow> 'v parsed_request \<Rightarrow> 'v rpc_server \<Rightarrow> 'v queued_request" where
  "queued_of token parsed s = \<lparr>qr_request_id = sv_next_id s, qr_token = token, qr_request = parsed,
     qr_response_tx = \<lparr>rp_request_id = sv_next_id s, rp_token = token\<rparr>\<rparr>"

definition id_taken :: "'v rpc_server \<Rightarrow> 'v rpc_server" where
  "id_taken s = s\<lparr>sv_next_id := sv_next_id s + 1, sv_generated := sv_generated s + 1\<rparr>"

definition request_queued :: "nat \<Rightarrow> 'v parsed_request \<Rightarrow> 'v rpc_server \<Rightarrow> 'v rpc_server" where
  "request_queued token parsed s =
     (id_taken s)\<lparr>sv_requests := sv_requests s @ [queued_of token parsed s], sv_accepted := sv_accepted s @ [queued_of token parsed s]\<rparr>"

lemma handle_request_shape:
  "(\<exists>e. handle_request sd buf token s = Done (Inl e, s)) \<or>
   (\<exists>parsed close. handle_request sd buf token s =
      run_bind (send_request (queued_of token parsed s) (id_taken s))
        (\<lambda>(sent, s2). Done (if sent then Inr (sv_next_id s, close) else Inl QueueFull, s2)))"
proof (cases "http_parse buf")
  case (Inr r)
  show ?thesis
  proof (cases "hr_method r = ''POST''")
    case post: True
    show ?thesis
    proof (cases "sd_from_slice sd (hr_body r)")
      case rpc: (Inr rq)
      show ?thesis
      proof (cases "from_rpc_request (sd_from_value sd) rq")
        case (Inr parsed)
        have "handle_request sd buf token s =
            run_bind (send_request (queued_of token parsed s) (id_taken s))
              (\<lambda>(sent, s2). Done (if sent then Inr (sv_next_id s, hr_connection_close r) else Inl QueueFull, s2))"
          using Inr rpc post \<open>http_parse buf = Inr r\<close>
          by (simp add: handle_request_def generate_request_id_def queued_of_def id_taken_def Let_def)
        then show ?thesis by blast
      qed (use rpc post Inr in \<open>simp add: handle_request_def\<close>)
    qed (use post Inr in \<open>simp add: handle_request_def\<close>)
  qed (use Inr in \<open>simp add: handle_request_def\<close>)
qed (simp add: handle_request_def)

lemma handle_request_cases:
  assumes "handle_request sd buf token s = Done (res, s')"
  obtains (rejected) e where "res = Inl e" "s' = s"
  | (refused) "res = Inl QueueFull" "s' = id_taken s" "sv_worker s = WorkerDone"
  | (queued) close parsed where "res = Inr (sv_next_id s, close)" "s' = request_queued token parsed s"
      "length (sv_requests s) < sv_capacity s" "sv_worker s \<noteq> WorkerDone"
proof -
  consider (early) e where "handle_request sd buf token s = Done (Inl e, s)"
    | (late) parsed close where "handle_request sd buf token s =
        run_bind (send_request (queued_of token parsed s) (id_taken s))
          (\<lambda>(sent, s2). Done (if sent then Inr (sv_next_id s, close) else Inl QueueFull, s2))"
    using handle_request_shape [of sd buf token s] by blast
  then show thesis
  proof cases
    case early
    then show thesis using assms rejected by simp
  next
    case late
    show thesis
    proof (cases "sv_worker s = WorkerDone")
      case True
      then show thesis using late assms refused by (simp add: send_request_def id_taken_def)
    next
      case False
      then show thesis
        using late assms queued [of close parsed] by (simp add: send_request_def id_taken_def request_queued_def split: if_splits)
    qed
  qed
qed

lemma error_response_done:
  "date_ok cache \<Longrightarrow> \<exists>buf. error_response w cache i e close = Done buf"
  by (auto simp: error_response_def with_json_bytes_def with_connection_close_def response_bad_request_def Let_def response_build_lines)

lemma client_read_request:
  assumes "try_read robs conn = (Done (Inr True), c)" "is_request_complete c = (True, c1)" "cn_pending_request_id c1 = None"
  shows "client_read sd token robs conn s =
    run_bind (handle_request sd (cn_recv_buf c1) token s) (\<lambda>(res, s1).
      case res of
        Inr (req_id, connection_close) \<Rightarrow>
          Done (False,
            clear_recv_buf (c1\<lparr>cn_pending_request_id := Some req_id, cn_should_close := connection_close, cn_state := Processing\<rparr>),
            s1\<lparr>sv_owners := sv_owners s1 @ [(req_id, cn_stream c1)]\<rparr>)
      | Inl e \<Rightarrow>
          run_bind (error_response (sd_to_writer sd) (sv_date s1) (sd_null sd) e False)
            (\<lambda>response. Done (False, queue_response response c1, s1)))"
  using assms by (simp add: client_read_def)

lemma scan_ok_frame [simp]:
  "scan_ok (c\<lparr>cn_send_pos := n\<rparr>) = scan_ok c" "scan_ok (queue_response b c) = scan_ok c"
  "scan_ok (c\<lparr>cn_json_buf := b\<rparr>) = scan_ok c" "scan_ok (c\<lparr>cn_pending_request_id := r\<rparr>) = scan_ok c"
  by (simp_all add: scan_ok_def queue_response_def split: option.split)

lemma conn_ok_queue [simp]: "conn_ok owners (queue_response b c) = conn_ok owners c"
  by (simp add: conn_ok_def) (simp add: queue_response_def)

lemma client_read_cases:
  assumes "client_read sd token robs conn s = Done (remove, c, s')" "conn_ok (sv_owners s) conn"
  obtains (none) "s' = s \<or> s' = id_taken s" "conn_ok (sv_owners s) c"
  | (queued) parsed where "length (sv_requests s) < sv_capacity s" "sv_worker s \<noteq> WorkerDone" "\<not> remove"
      "s' = (request_queued token parsed s)\<lparr>sv_owners := sv_owners s @ [(sv_next_id s, cn_stream conn)]\<rparr>"
      "conn_ok (sv_owners s @ [(sv_next_id s, cn_stream conn)]) c"
proof -
  obtain r c1 where t: "try_read robs conn = (r, c1)" by (cases "try_read robs conn")
  have sc: "scan_ok conn" using assms(2) by (simp add: conn_ok_def)
  from try_read_spec [OF sc t] have c1: "conn_ok (sv_owners s) c1" "cn_stream c1 = cn_stream conn"
    using assms(2) by (auto simp: conn_ok_def)
  obtain res where r: "r = Done res" using assms(1) t by (cases r) (auto simp: client_read_def)
  show thesis
  proof (cases "res = Inr True")
    case False
    then have "s' = s" "c = c1" using assms(1) t r by (auto simp: client_read_def split: sum.splits bool.splits)
    then show thesis using none c1 by simp
  next
    case True
    obtain b c2 where q: "is_request_complete c1 = (b, c2)" by (cases "is_request_complete c1")
    have "scan_ok c1" using c1 by (simp add: conn_ok_def)
    from is_request_complete_spec [OF this q] have c2: "conn_ok (sv_owners s) c2" "cn_stream c2 = cn_stream conn"
      using c1 by (auto simp: conn_ok_def)
    show thesis
    proof (cases "b \<and> cn_pending_request_id c2 = None")
      case False
      then have "s' = s" "c = c2" using assms(1) t r True q by (auto simp: client_read_def split: if_splits)
      then show thesis using none c2 by simp
    next
      case p: True
      have "try_read robs conn = (Done (Inr True), c1)" "is_request_complete c1 = (True, c2)" using t r True q p by simp_all
      note cr = assms(1) [unfolded client_read_request [OF this conjunct2 [OF p]]]
      then obtain res2 s1 where h: "handle_request sd (cn_recv_buf c2) token s = Done (res2, s1)"
        by (auto simp: run_bind_eq_Done)
      from h show thesis
      proof (cases rule: handle_request_cases)
        case (rejected e)
        then obtain resp where "c = queue_response resp c2" "s' = s" using cr h by (auto simp: run_bind_eq_Done)
        then show thesis using none c2 by simp
      next
        case refused
        then obtain resp where "c = queue_response resp c2" "s' = id_taken s" using cr h by (auto simp: run_bind_eq_Done)
        then show thesis using none c2 by simp
      next
        case (queued close parsed)
        let ?c = "clear_recv_buf (c2\<lparr>cn_pending_request_id := Some (sv_next_id s), cn_should_close := close, cn_state := Processing\<rparr>)"
        have o: "sv_owners s1 = sv_owners s" using queued by (simp add: request_queued_def id_taken_def)
        have "c = ?c" "\<not> remove" "s' = s1\<lparr>sv_owners := sv_owners s @ [(sv_next_id s, cn_stream conn)]\<rparr>"
          using cr h queued(1) c2(2) o by auto
        moreover have "conn_ok (sv_owners s @ [(sv_next_id s, cn_stream conn)]) ?c"
          using scan_ok_clear c2(2) by (simp add: conn_ok_def) (simp add: clear_recv_buf_def)
        ultimately show thesis using that(2) [of parsed] queued by simp
      qed
    qed
  qed
qed

lemma client_write_ok:
  assumes "client_write wobs conn = Done (remove, c)" "conn_ok owners conn"
  shows "conn_ok owners c"
proof -
  obtain r sent c1 where t: "try_write wobs conn = (r, sent, c1)" by (cases "try_write wobs conn") auto
  obtain p where "c1 = conn\<lparr>cn_send_pos := p\<rparr>" using try_write_spec [OF t] by blast
  then have "conn_ok owners c1" using assms(2) by (simp add: conn_ok_def)
  moreover have "conn_ok owners (reset_for_next_request c1)" using scan_ok_reset [of c1]
    by (simp add: conn_ok_def) (simp add: reset_for_next_request_def)
  moreover have "c = c1 \<or> c = reset_for_next_request c1"
    using assms(1) t by (cases r) (auto simp: client_write_def split: sum.splits if_splits)
  ultimately show ?thesis by auto
qed

lemma client_event_cases:
  assumes "client_event sd token readable writable robs wobs s = Done s'" "conns_ok (sv_owners s) (sv_pool s)"
  obtains (none) p where "s' = s\<lparr>sv_pool := p\<rparr> \<or> s' = (id_taken s)\<lparr>sv_pool := p\<rparr>" "conns_ok (sv_owners s) p"
  | (queued) p parsed stream where "length (sv_requests s) < sv_capacity s" "sv_worker s \<noteq> WorkerDone"
      "s' = (request_queued token parsed s)\<lparr>sv_owners := sv_owners s @ [(sv_next_id s, stream)], sv_pool := p\<rparr>"
      "conns_ok (sv_owners s @ [(sv_next_id s, stream)]) p"
proof (cases "pool_get (token - 1) (sv_pool s)")
  case None
  then have "s' = s\<lparr>sv_pool := sv_pool s\<rparr>" using assms(1) by (simp add: client_event_def)
  then show thesis using none assms(2) by blast
next
  case (Some conn)
  let ?rd = "if readable \<and> cn_state conn = Reading then client_read sd token robs conn s else Done (False, conn, s)"
  let ?wr = "\<lambda>rm c. if \<not> rm \<and> writable \<and> cn_send_buf c \<noteq> [] then client_write wobs c else Done (rm, c)"
  obtain rm c s1 rm' c' where rd: "?rd = Done (rm, c, s1)" and wr: "?wr rm c = Done (rm', c')"
    and s': "s' = store_or_remove (token - 1) rm' c' s1"
    using assms(1) Some by (auto simp: client_event_def Let_def run_bind_eq_Done)
  have conn: "conn_ok (sv_owners s) conn" using assms(2) Some by (auto simp: conns_ok_def)
  have keep: "conn_ok owners c'" if "conn_ok owners c" for owners
    using wr that client_write_ok by (auto split: if_splits)
  have st: "s' = s1\<lparr>sv_pool := sv_pool s'\<rparr>" unfolding s' by (simp add: store_or_remove_def)
  have same: thesis if "s1 = s \<or> s1 = id_taken s" "conn_ok (sv_owners s) c"
  proof -
    have "sv_pool s1 = sv_pool s" using that(1) by (auto simp: id_taken_def)
    then have "conns_ok (sv_owners s) (sv_pool s')"
      unfolding s' using assms(2) Some keep [OF that(2)] by (intro conns_ok_store) simp_all
    then show thesis using none that(1) st by metis
  qed
  show thesis
  proof (cases "readable \<and> cn_state conn = Reading")
    case False
    then show thesis using same rd conn by auto
  next
    case True
    then have "client_read sd token robs conn s = Done (rm, c, s1)" using rd by simp
    then show thesis using conn
    proof (cases rule: client_read_cases)
      case none
      then show thesis by (rule same)
    next
      case q: (queued parsed)
      have "sv_pool s1 = sv_pool s" using q(4) by (simp add: request_queued_def id_taken_def)
      then have "conns_ok (sv_owners s @ [(sv_next_id s, cn_stream conn)]) (sv_pool s')"
        unfolding s' using conns_ok_mono [OF assms(2)] Some keep [OF q(5)] by (intro conns_ok_store) simp_all
      moreover have "s' = (request_queued token parsed s)\<lparr>sv_owners := sv_owners s @ [(sv_next_id s, cn_stream conn)], sv_pool := sv_pool s'\<rparr>"
        using st unfolding q(4) .
      ultimately show thesis using queued q(1,2) by blast
    qed
  qed
qed

lemma accept_loop_cases:
  "accept_loop obs s = Done (b, s') \<Longrightarrow> conns_ok owners (sv_pool s) \<Longrightarrow>
     \<exists>p. s' = s\<lparr>sv_pool := p\<rparr> \<and> conns_ok owners p"
proof (induction obs s arbitrary: b s' rule: accept_loop.induct)
  case (4 stream addr registered obs s)
  show ?case
  proof (cases registered)
    case True
    let ?s = "s\<lparr>sv_pool := snd (accept_connection (stream, addr) (sv_pool s))\<rparr>"
    from True 4 have "\<exists>p. s' = ?s\<lparr>sv_pool := p\<rparr> \<and> conns_ok owners p"
      by (intro "4.IH") (auto intro: conns_ok_accept)
    then show ?thesis by auto
  next
    case False
    then have "s' = s\<lparr>sv_pool := sv_pool s\<rparr>" using 4 by simp
    then show ?thesis using 4 by blast
  qed
qed (simp_all, (metis rpc_server.surjective rpc_server.update_convs(2))+)

lemma handle_event_cases:
  assumes "handle_event sd e s = Done (b, s')" "conns_ok (sv_owners s) (sv_pool s)"
  obtains (none) p where "s' = s\<lparr>sv_pool := p\<rparr> \<or> s' = (id_taken s)\<lparr>sv_pool := p\<rparr>" "conns_ok (sv_owners s) p"
  | (queued) p token parsed stream where "length (sv_requests s) < sv_capacity s" "sv_worker s \<noteq> WorkerDone"
      "s' = (request_queued token parsed s)\<lparr>sv_owners := sv_owners s @ [(sv_next_id s, stream)], sv_pool := p\<rparr>"
      "conns_ok (sv_owners s @ [(sv_next_id s, stream)]) p"
proof (cases e)
  case (ListenerEvent obs)
  with assms accept_loop_cases [of obs s b s' "sv_owners s"] none show thesis by auto
next
  case (ClientEvent token readable writable robs wobs)
  then have "client_event sd token readable writable robs wobs s = Done s'"
    using assms(1) by (auto simp: run_bind_eq_Done)
  then show thesis using assms(2)
  proof (cases rule: client_event_cases)
    case (none p)
    then show thesis by (rule that(1))
  next
    case (queued p parsed stream)
    then show thesis by (rule that(2))
  qed
qed

lemma route_response_cases:
  assumes "route_response wobs response s = Done s'" "conns_ok (sv_owners s) (sv_pool s)"
  obtains (ignored) "s' = s"
  | (delivered) p stream buf close json where
      "s' = s\<lparr>sv_pool := p, sv_delivered := sv_delivered s @ [(qp_request_id response, stream, buf)]\<rparr>"
      "conns_ok (sv_owners s) p" "(qp_request_id response, stream) \<in> set (sv_owners s)"
      "create_response (sv_date s) response close json = Done (buf, write_json_response [] response)"
proof (cases "pool_get (qp_token response - 1) (sv_pool s)")
  case None
  then show thesis using assms(1) ignored by (simp add: route_response_def)
next
  case (Some conn)
  have conn: "conn_ok (sv_owners s) conn" using assms(2) Some by (auto simp: conns_ok_def)
  show thesis
  proof (cases "cn_pending_request_id conn = Some (qp_request_id response)")
    case False
    then show thesis using assms(1) Some ignored by (simp add: route_response_def)
  next
    case True
    let ?c = "\<lambda>buf json. (queue_response buf (conn\<lparr>cn_json_buf := json\<rparr>))\<lparr>cn_pending_request_id := None\<rparr>"
    obtain buf json rm c1 where cr: "create_response (sv_date s) response (cn_should_close conn) (cn_json_buf conn) = Done (buf, json)"
      and w: "client_write wobs (?c buf json) = Done (rm, c1)"
      and s': "s' = (store_or_remove (qp_token response - 1) rm c1 s)\<lparr>sv_delivered :=
        sv_delivered s @ [(qp_request_id response, cn_stream conn, buf)]\<rparr>"
      using assms(1) Some True by (auto simp: route_response_def Let_def run_bind_eq_Done)
    have "json = write_json_response [] response"
      using cr by (auto simp: create_response_def Let_def run_bind_eq_Done)
    moreover have "conn_ok (sv_owners s) (?c buf json)" using conn by (simp add: conn_ok_def)
    then have "conns_ok (sv_owners s) (sv_pool (store_or_remove (qp_token response - 1) rm c1 s))"
      using assms(2) Some client_write_ok [OF w] by (intro conns_ok_store) simp_all
    moreover have "(qp_request_id response, cn_stream conn) \<in> set (sv_owners s)" using conn True by (simp add: conn_ok_def)
    moreover have "s' = s\<lparr>sv_pool := sv_pool (store_or_remove (qp_token response - 1) rm c1 s),
        sv_delivered := sv_delivered s @ [(qp_request_id response, cn_stream conn, buf)]\<rparr>"
      unfolding s' by (simp add: store_or_remove_def)
    ultimately show thesis using delivered cr by blast
  qed
qed

section \<open>The invariant of the server\<close>

fun worker_load :: "'v worker_pc \<Rightarrow> 'v queued_request list" where
  "worker_load (Draining batch) = batch"
| "worker_load (Working batch) = batch"
| "worker_load (Transmitting q qs) = q # qs"
| "worker_load Idle = []"
| "worker_load WorkerDone = []"

fun in_transit :: "'v worker_pc \<Rightarrow> 'v queued_request list" where
  "in_transit (Transmitting q qs) = [q]"
| "in_transit (Draining batch) = []"
| "in_transit (Working batch) = []"
| "in_transit Idle = []"
| "in_transit WorkerDone = []"

fun http_load :: "http_pc \<Rightarrow> queued_response list" where
  "http_load (Collecting batch) = batch"
| "http_load (Routing batch) = batch"
| "http_load Polling = []"
| "http_load (Handling evs) = []"
| "http_load HttpDone = []"

text \<open>Requests pass the queue, the worker's batch and the sender in the order of their acceptance.\<close>

definition pipeline_ok :: "'v rpc_server \<Rightarrow> bool" where
  "pipeline_ok s \<longleftrightarrow>
     (\<exists>fin. sv_accepted s = fin @ worker_load (sv_worker s) @ sv_requests s \<and>
       sv_sent s = List.map_filter (snd \<circ> process_request) fin \<and>
       sv_answered s = map (fst \<circ> process_request) (fin @ in_transit (sv_worker s))) \<and>
     list_all (\<lambda>q. snd (process_request q) \<noteq> None) (in_transit (sv_worker s))"

text \<open>Answers pass the queue and the batch of the event loop in order, and what is delivered is what was answered.\<close>

definition delivery_ok :: "'v rpc_server \<Rightarrow> u64 \<times> nat \<times> bytes \<Rightarrow> bool" where
  "delivery_ok s d \<longleftrightarrow>
     (case d of (r, stream, buf) \<Rightarrow>
        (r, stream) \<in> set (sv_owners s) \<and>
        (\<exists>response cache close json. response \<in> set (sv_answered s) \<and> qp_request_id response = r \<and> date_ok cache \<and>
           create_response cache response close json = Done (buf, write_json_response [] response)))"

definition routing_ok :: "'v rpc_server \<Rightarrow> bool" where
  "routing_ok s \<longleftrightarrow>
     (\<exists>consumed. sv_answered s = consumed @ http_load (sv_http s) @ sv_responses s \<and>
        subseq (map fst (sv_delivered s)) (map qp_request_id consumed)) \<and>
     list_all (delivery_ok s) (sv_delivered s)"

text \<open>Request ids are consecutive numbers, modulo the width of the counter.\<close>

definition ids_ok :: "'v rpc_server \<Rightarrow> bool" where
  "ids_ok s \<longleftrightarrow>
     sv_next_id s = of_nat (sv_generated s + 1) \<and> map fst (sv_owners s) = map qr_request_id (sv_accepted s) \<and>
     (\<exists>ns. map qr_request_id (sv_accepted s) = map of_nat ns \<and> sorted_wrt (<) ns \<and> (\<forall>n \<in> set ns. n \<le> sv_generated s)) \<and>
     list_all (\<lambda>q. qr_response_tx q = \<lparr>rp_request_id = qr_request_id q, rp_token = qr_token q\<rparr>) (sv_accepted s)"

definition env_ok :: "'v rpc_server \<Rightarrow> bool" where
  "env_ok s \<longleftrightarrow>
     conns_ok (sv_owners s) (sv_pool s) \<and> date_ok (sv_date s) \<and> length (dc_formatted (sv_date s)) = 32 \<and>
     length (sv_requests s) \<le> sv_capacity s \<and> length (sv_responses s) \<le> sv_capacity s \<and>
     (case sv_http s of Handling evs \<Rightarrow> list_all event_ok evs | _ \<Rightarrow> True)"

definition server_inv :: "'v rpc_server \<Rightarrow> bool" where
  "server_inv s \<longleftrightarrow> pipeline_ok s \<and> routing_ok s \<and> ids_ok s \<and> env_ok s"

lemmas server_inv_defs = server_inv_def pipeline_ok_def routing_ok_def ids_ok_def env_ok_def

lemma pad2_plain: "list_all (\<lambda>c. 32 \<le> (of_char c :: nat)) (pad2 n)"
  using graph_plain [OF show_nat_graph [of n]] by (simp add: pad2_def)

lemma names_plain:
  "i < 7 \<Longrightarrow> list_all (\<lambda>c. 32 \<le> (of_char c :: nat)) (DAYS ! i)"
  "i < 12 \<Longrightarrow> list_all (\<lambda>c. 32 \<le> (of_char c :: nat)) (MONTHS ! i)"
proof -
  have d: "\<forall>x \<in> set DAYS. list_all (\<lambda>c. 32 \<le> (of_char c :: nat)) x"
    and m: "\<forall>x \<in> set MONTHS. list_all (\<lambda>c. 32 \<le> (of_char c :: nat)) x" by (simp_all add: DAYS_def MONTHS_def)
  have l: "length DAYS = 7" "length MONTHS = 12" by (simp_all add: DAYS_def MONTHS_def)
  show "i < 7 \<Longrightarrow> list_all (\<lambda>c. 32 \<le> (of_char c :: nat)) (DAYS ! i)" using d l by simp
  show "i < 12 \<Longrightarrow> list_all (\<lambda>c. 32 \<le> (of_char c :: nat)) (MONTHS ! i)" using m l by simp
qed

lemma format_http_date_plain: "list_all (\<lambda>c. 32 \<le> (of_char c :: nat)) (format_http_date secs)"
proof -
  obtain y m d where c: "civil_date (unat secs div 86400) = (y, m, d)" by (cases "civil_date (unat secs div 86400)")
  from civil_date_spec [OF c] have "m < 12" by auto
  then show ?thesis
    using names_plain(1) [of "(unat secs div 86400 + 4) mod 7"] names_plain(2) [of m] pad2_plain
      graph_plain [OF show_nat_graph [of y]]
    by (simp add: format_http_date_def c Let_def)
qed

lemma update_date_ok:
  assumes "update_date secs d = Done d'" "length (dc_formatted d) = 32"
  shows "date_ok d' \<and> length (dc_formatted d') = 32"
  using assms format_http_date_plain [of secs] by (auto simp: update_date_def date_ok_def date_text_def Let_def split: if_splits)

lemma server_inv_init:
  "server_new cfg date = Inr s \<Longrightarrow> date_ok date \<Longrightarrow> length (dc_formatted date) = 32 \<Longrightarrow> server_inv s"
  by (auto simp: server_new_def server_inv_defs conns_ok_def pool_get_def map_filter_simps split: sum.splits)
     (simp_all add: pool_new_def)

lemma delivery_ok_cong:
  "set (sv_owners s) \<subseteq> set (sv_owners s') \<Longrightarrow> set (sv_answered s) \<subseteq> set (sv_answered s') \<Longrightarrow>
     list_all (delivery_ok s) ds \<Longrightarrow> list_all (delivery_ok s') ds"
  unfolding list_all_iff delivery_ok_def by (fastforce split: prod.splits)

lemma inv_pool: "server_inv s \<Longrightarrow> conns_ok (sv_owners s) p \<Longrightarrow> server_inv (s\<lparr>sv_pool := p\<rparr>)"
  unfolding server_inv_defs by (auto intro: delivery_ok_cong [of s])

lemma inv_id_taken:
  assumes "server_inv s"
  shows "server_inv (id_taken s)"
proof -
  have "pipeline_ok (id_taken s)" "env_ok (id_taken s)"
    using assms by (simp_all add: server_inv_defs id_taken_def)
  moreover have "routing_ok (id_taken s)"
    using assms by (auto simp: server_inv_defs id_taken_def intro: delivery_ok_cong [of s])
  moreover have "ids_ok (id_taken s)"
    using assms by (fastforce simp: server_inv_defs id_taken_def)
  ultimately show ?thesis by (simp add: server_inv_def)
qed

lemma inv_queued:
  assumes "server_inv s" "length (sv_requests s) < sv_capacity s" "conns_ok (sv_owners s @ [(sv_next_id s, stream)]) p"
  shows "server_inv ((request_queued token parsed s)\<lparr>sv_owners := sv_owners s @ [(sv_next_id s, stream)], sv_pool := p\<rparr>)"
    (is "server_inv ?s")
proof -
  let ?q = "queued_of token parsed s"
  obtain fin where "sv_accepted s = fin @ worker_load (sv_worker s) @ sv_requests s"
    "sv_sent s = List.map_filter (snd \<circ> process_request) fin"
    "sv_answered s = map (fst \<circ> process_request) (fin @ in_transit (sv_worker s))"
    using assms(1) by (auto simp: server_inv_def pipeline_ok_def)
  moreover have "list_all (\<lambda>q. snd (process_request q) \<noteq> None) (in_transit (sv_worker s))"
    using assms(1) by (simp add: server_inv_def pipeline_ok_def)
  ultimately have "pipeline_ok ?s"
    unfolding pipeline_ok_def by (intro conjI exI [of _ fin]) (simp_all add: request_queued_def id_taken_def)
  moreover have "routing_ok ?s"
    using assms(1) by (auto simp: server_inv_def routing_ok_def request_queued_def id_taken_def intro: delivery_ok_cong [of s])
  moreover have "ids_ok ?s"
  proof -
    obtain ns where ns: "map qr_request_id (sv_accepted s) = map of_nat ns" "sorted_wrt (<) ns" "\<forall>n \<in> set ns. n \<le> sv_generated s"
      using assms(1) by (auto simp: server_inv_def ids_ok_def)
    then have "map qr_request_id (sv_accepted ?s) = map of_nat (ns @ [sv_generated s + 1])"
      "sorted_wrt (<) (ns @ [sv_generated s + 1])" "\<forall>n \<in> set (ns @ [sv_generated s + 1]). n \<le> sv_generated ?s"
      using assms(1) by (auto simp: server_inv_def ids_ok_def request_queued_def id_taken_def queued_of_def sorted_wrt_append)
    then have "\<exists>ns. map qr_request_id (sv_accepted ?s) = map of_nat ns \<and> sorted_wrt (<) ns \<and> (\<forall>n \<in> set ns. n \<le> sv_generated ?s)"
      by blast
    moreover have "sv_next_id ?s = of_nat (sv_generated ?s + 1)" "map fst (sv_owners ?s) = map qr_request_id (sv_accepted ?s)"
      "list_all (\<lambda>q. qr_response_tx q = \<lparr>rp_request_id = qr_request_id q, rp_token = qr_token q\<rparr>) (sv_accepted ?s)"
      using assms(1) by (simp_all add: server_inv_def ids_ok_def request_queued_def id_taken_def queued_of_def)
    ultimately show ?thesis unfolding ids_ok_def by blast
  qed
  moreover have "env_ok ?s"
    using assms by (simp add: server_inv_def env_ok_def request_queued_def id_taken_def)
  ultimately show ?thesis by (simp add: server_inv_def)
qed

lemma inv_event:
  assumes "server_inv s" "handle_event sd e s = Done (b, s')"
  shows "server_inv s' \<and> sv_http s' = sv_http s"
proof -
  have c: "conns_ok (sv_owners s) (sv_pool s)" using assms(1) by (simp add: server_inv_def env_ok_def)
  from assms(2) c show ?thesis
  proof (cases rule: handle_event_cases)
    case (none p)
    have "conns_ok (sv_owners (id_taken s)) p" "sv_http (id_taken s) = sv_http s" using none(2) by (simp_all add: id_taken_def)
    with none inv_pool [OF assms(1)] inv_pool [OF inv_id_taken [OF assms(1)]] show ?thesis by auto
  next
    case (queued p token parsed stream)
    with inv_queued [OF assms(1)] show ?thesis by (simp add: request_queued_def id_taken_def)
  qed
qed

lemma inv_http_pc:
  assumes "server_inv s" "http_load pc = http_load (sv_http s)" "case pc of Handling evs \<Rightarrow> list_all event_ok evs | _ \<Rightarrow> True"
  shows "server_inv (s\<lparr>sv_http := pc\<rparr>)"
  using assms unfolding server_inv_defs by (auto intro: delivery_ok_cong [of s])

lemma inv_route:
  assumes "server_inv s" "sv_http s = Routing (r # rs)" "route_response wobs r s = Done s'"
  shows "server_inv (s'\<lparr>sv_http := Routing rs\<rparr>)"
proof -
  have env: "env_ok s" using assms(1) by (simp add: server_inv_def)
  then have c: "conns_ok (sv_owners s) (sv_pool s)" and d: "date_ok (sv_date s)" by (simp_all add: env_ok_def)
  obtain consumed where con: "sv_answered s = consumed @ r # rs @ sv_responses s"
    "subseq (map fst (sv_delivered s)) (map qp_request_id consumed)"
    using assms(1,2) by (auto simp: server_inv_def routing_ok_def)
  from assms(3) c show ?thesis
  proof (cases rule: route_response_cases)
    case ignored
    have "subseq (map fst (sv_delivered s)) (map qp_request_id (consumed @ [r]))"
      using con(2) by (simp add: subseq_rev_drop_many)
    with con(1) have "routing_ok (s\<lparr>sv_http := Routing rs\<rparr>)"
      using assms(1) unfolding routing_ok_def server_inv_def
      by (auto intro: delivery_ok_cong [of s] exI [of _ "consumed @ [r]"])
    with ignored env assms(1) show ?thesis by (simp add: server_inv_def pipeline_ok_def ids_ok_def env_ok_def)
  next
    case (delivered p stream buf close json)
    let ?s = "s'\<lparr>sv_http := Routing rs\<rparr>"
    have "subseq (map fst (sv_delivered ?s)) (map qp_request_id (consumed @ [r]))"
      using con(2) unfolding delivered(1) by simp
    moreover have "delivery_ok ?s (qp_request_id r, stream, buf)"
      using delivered(3,4) con(1) d unfolding delivery_ok_def delivered(1) by auto
    moreover have "list_all (delivery_ok ?s) (sv_delivered s)"
      using assms(1) unfolding delivered(1) server_inv_def routing_ok_def by (auto intro: delivery_ok_cong [of s])
    ultimately have "routing_ok ?s"
      using con(1) unfolding routing_ok_def delivered(1)
      by (auto intro: exI [of _ "consumed @ [r]"])
    with delivered(1,2) env assms(1) show ?thesis by (simp add: server_inv_def pipeline_ok_def ids_ok_def env_ok_def)
  qed
qed

lemma inv_collect:
  assumes "server_inv s" "sv_http s = Collecting batch" "sv_responses s = r # rs"
  shows "server_inv (s\<lparr>sv_http := Collecting (batch @ [r]), sv_responses := rs\<rparr>)"
proof -
  have "routing_ok (s\<lparr>sv_http := Collecting (batch @ [r]), sv_responses := rs\<rparr>)"
    using assms unfolding server_inv_def routing_ok_def by (auto intro: delivery_ok_cong [of s])
  with assms show ?thesis by (simp add: server_inv_def pipeline_ok_def ids_ok_def env_ok_def)
qed

lemma inv_http_step:
  assumes "http_step sd s s'" "server_inv s"
  shows "server_inv s'"
  using assms
proof cases
  case (event e evs s1)
  from inv_event [OF assms(2) event(3)] event(2) assms(2) show ?thesis
    unfolding event(1) by (intro inv_http_pc) (auto simp: server_inv_def env_ok_def)
next
  case (failed e evs s1)
  from inv_event [OF assms(2) failed(3)] failed(2) show ?thesis
    unfolding failed(1) by (intro inv_http_pc) auto
next
  case (collect batch r rs)
  then show ?thesis using inv_collect assms(2) by blast
next
  case (route r rs wobs s1)
  then show ?thesis using inv_route assms(2) by blast
qed (use assms(2) in \<open>auto intro: inv_http_pc\<close>)

lemma inv_worker_pc:
  assumes "server_inv s" "worker_load pc = worker_load (sv_worker s)" "in_transit pc = in_transit (sv_worker s)"
  shows "server_inv (s\<lparr>sv_worker := pc\<rparr>)"
  using assms unfolding server_inv_defs by (auto intro: delivery_ok_cong [of s])

lemma inv_worker_step:
  assumes "worker_step s s'" "server_inv s"
  shows "server_inv s'"
  using assms
proof cases
  case (drain batch q qs)
  have "routing_ok s'" using assms(2) unfolding drain(1) server_inv_def routing_ok_def by (auto intro: delivery_ok_cong [of s])
  with assms(2) drain show ?thesis by (simp add: server_inv_def pipeline_ok_def ids_ok_def env_ok_def)
next
  case (answer q qs response call)
  have r: "response = fst (process_request q)" "snd (process_request q) = call" using answer(4) by simp_all
  obtain fin where fin: "sv_accepted s = fin @ (q # qs) @ sv_requests s" "sv_sent s = List.map_filter (snd \<circ> process_request) fin"
    "sv_answered s = map (fst \<circ> process_request) fin"
    using assms(2) answer(2) by (auto simp: server_inv_def pipeline_ok_def)
  have "pipeline_ok s'"
  proof (cases call)
    case None
    then show ?thesis unfolding pipeline_ok_def answer(1)
      using fin r by (intro conjI exI [of _ "fin @ [q]"]) (simp_all add: map_filter_def)
  next
    case (Some a)
    then show ?thesis unfolding pipeline_ok_def answer(1)
      using fin r by (intro conjI exI [of _ fin]) simp_all
  qed
  moreover have "routing_ok s'"
    using assms(2) unfolding answer(1) server_inv_def routing_ok_def by (auto intro: delivery_ok_cong [of s])
  ultimately show ?thesis using assms(2) answer by (simp add: server_inv_def ids_ok_def env_ok_def)
next
  case (transmit q qs call)
  obtain fin where "sv_accepted s = fin @ (q # qs) @ sv_requests s" "sv_sent s = List.map_filter (snd \<circ> process_request) fin"
    "sv_answered s = map (fst \<circ> process_request) (fin @ [q])"
    using assms(2) transmit(2) by (auto simp: server_inv_def pipeline_ok_def)
  then have "pipeline_ok s'" unfolding pipeline_ok_def transmit(1)
    using transmit(3) by (intro conjI exI [of _ "fin @ [q]"]) (simp_all add: map_filter_def)
  moreover have "routing_ok s'"
    using assms(2) unfolding transmit(1) server_inv_def routing_ok_def by (auto intro: delivery_ok_cong [of s])
  ultimately show ?thesis using assms(2) transmit by (simp add: server_inv_def ids_ok_def env_ok_def)
qed (use assms(2) in \<open>auto intro: inv_worker_pc\<close>)

lemma reachable_inv: "server_reachable sd cfg s \<Longrightarrow> server_inv s"
proof (induction rule: server_reachable.induct)
  case (init date s)
  then show ?case by (rule server_inv_init)
next
  case (step s s')
  from step.hyps(2) show ?case
  proof cases
    case http
    then show ?thesis using inv_http_step step.IH by blast
  next
    case worker
    then show ?thesis using inv_worker_step step.IH by blast
  next
    case shutdown
    then show ?thesis using step.IH by (auto simp: server_inv_defs intro: delivery_ok_cong [of s])
  next
    case (date secs d)
    have "date_ok d \<and> length (dc_formatted d) = 32"
      using update_date_ok [OF date(2)] step.IH by (simp add: server_inv_def env_ok_def)
    then show ?thesis using step.IH date(1) by (auto simp: server_inv_defs intro: delivery_ok_cong [of s])
  qed
qed

lemma of_nat_ids_distinct: "sorted_wrt (<) ns \<Longrightarrow> \<forall>n \<in> set ns. n < 2 ^ 64 \<Longrightarrow> distinct (map (of_nat :: nat \<Rightarrow> u64) ns)"
proof (induction ns)
  case (Cons n ns)
  have "(of_nat n :: u64) \<noteq> of_nat m" if "m \<in> set ns" for m
  proof
    assume "(of_nat n :: u64) = of_nat m"
    then have "unat (of_nat n :: u64) = unat (of_nat m :: u64)" by simp
    then have "n = m" using Cons.prems(2) that by (simp add: unat_of_nat)
    then show False using Cons.prems(1) that by auto
  qed
  with Cons show ?case by auto
qed simp

section \<open>Progress\<close>

lemma try_read_returns:
  "obs \<noteq> [] \<Longrightarrow> last obs = ReadWouldBlock \<Longrightarrow> \<exists>r c'. try_read obs c = (Done r, c')"
proof (induction obs c rule: try_read.induct)
  case (2 bs obs c)
  then show ?case by (cases "obs = []") (auto simp: Let_def)
qed auto

lemma try_write_would_block:
  "obs \<noteq> [] \<Longrightarrow> last obs = WriteWouldBlock \<Longrightarrow> \<exists>r sent c'. try_write obs c = (Done r, sent, c')"
proof (induction obs arbitrary: c)
  case (Cons ob obs)
  show ?case
  proof (cases "cn_send_pos c < length (cn_send_buf c)")
    case True
    show ?thesis
    proof (cases ob)
      case (WriteOk n)
      with Cons.prems have "obs \<noteq> []" "last obs = WriteWouldBlock" by (auto split: if_splits)
      from Cons.IH [OF this, of "c\<lparr>cn_send_pos := cn_send_pos c + n\<rparr>"] show ?thesis
        using WriteOk True by (auto simp: try_write_cases)
    qed (use True in \<open>simp_all add: try_write_cases\<close>)
  qed (simp add: try_write_cases)
qed simp

lemma client_write_returns:
  assumes "wobs \<noteq> []" "last wobs = WriteWouldBlock"
  shows "\<exists>remove c'. client_write wobs c = Done (remove, c')"
  using try_write_would_block [OF assms, of c] by (auto simp: client_write_def split: sum.split)

lemma handle_request_returns:
  "length (sv_requests s) < sv_capacity s \<or> sv_worker s = WorkerDone \<Longrightarrow> \<exists>r. handle_request sd buf token s = Done r"
  using handle_request_shape [of sd buf token s] by (auto simp: send_request_def id_taken_def)

lemma client_read_returns:
  assumes "robs \<noteq> []" "last robs = ReadWouldBlock" "date_ok (sv_date s)"
    and "length (sv_requests s) < sv_capacity s \<or> sv_worker s = WorkerDone"
  shows "\<exists>remove c s'. client_read sd token robs conn s = Done (remove, c, s')"
proof -
  obtain r c where t: "try_read robs conn = (Done r, c)" using try_read_returns [OF assms(1,2)] by blast
  obtain b c1 where q: "is_request_complete c = (b, c1)" by (cases "is_request_complete c")
  obtain res s1 where h: "handle_request sd (cn_recv_buf c1) token s = Done (res, s1)"
    using handle_request_returns [OF assms(4)] by (metis prod.exhaust)
  have "date_ok (sv_date s1)"
    using h by (cases rule: handle_request_cases) (use assms(3) in \<open>simp_all add: id_taken_def request_queued_def\<close>)
  then obtain buf where "res = Inl e \<Longrightarrow> error_response (sd_to_writer sd) (sv_date s1) (sd_null sd) e False = Done buf" for e
    using error_response_done by (cases res) fastforce+
  with t q h show ?thesis by (auto simp: client_read_def split: sum.split bool.split)
qed

lemma handle_event_returns:
  assumes "event_ok e" "env_ok s" "length (sv_requests s) < sv_capacity s \<or> sv_worker s = WorkerDone"
  shows "\<exists>b s'. handle_event sd e s = Done (b, s')"
proof (cases e)
  case (ListenerEvent obs)
  have "obs \<noteq> [] \<Longrightarrow> last obs = AcceptWouldBlock \<Longrightarrow> \<exists>b s'. accept_loop obs s = Done (b, s')" for s :: "'a rpc_server"
  proof (induction obs s rule: accept_loop.induct)
    case (4 stream addr registered obs s)
    then show ?case by (cases "obs = []") auto
  qed auto
  with ListenerEvent assms(1) show ?thesis by simp
next
  case (ClientEvent token readable writable robs wobs)
  have o: "robs \<noteq> []" "last robs = ReadWouldBlock" "wobs \<noteq> []" "last wobs = WriteWouldBlock" "date_ok (sv_date s)"
    using assms(1,2) ClientEvent by (simp_all add: env_ok_def)
  have "\<exists>s'. client_event sd token readable writable robs wobs s = Done s'"
  proof (cases "pool_get (token - 1) (sv_pool s)")
    case (Some conn)
    obtain rm c s1 where "(if readable \<and> cn_state conn = Reading then client_read sd token robs conn s else Done (False, conn, s)) = Done (rm, c, s1)"
      using client_read_returns [OF o(1,2,5) assms(3), of sd token conn] by (cases "readable \<and> cn_state conn = Reading") auto
    moreover obtain rm' c' where "(if \<not> rm \<and> writable \<and> cn_send_buf c \<noteq> [] then client_write wobs c else Done (rm, c)) = Done (rm', c')"
      using client_write_returns [OF o(3,4), of c] by (cases "\<not> rm \<and> writable \<and> cn_send_buf c \<noteq> []") auto
    ultimately show ?thesis using Some by (simp add: client_event_def)
  qed (simp add: client_event_def)
  with ClientEvent show ?thesis by auto
qed

lemma route_response_returns:
  assumes "date_ok (sv_date s)"
  shows "\<exists>s'. route_response [WriteWouldBlock] r s = Done s'"
proof (cases "pool_get (qp_token r - 1) (sv_pool s)")
  case (Some conn)
  obtain buf where "create_response (sv_date s) r (cn_should_close conn) (cn_json_buf conn) = Done (buf, write_json_response [] r)"
    using create_response_done [OF assms] by blast
  moreover obtain rm c where "client_write [WriteWouldBlock]
      ((queue_response buf (conn\<lparr>cn_json_buf := write_json_response [] r\<rparr>))\<lparr>cn_pending_request_id := None\<rparr>) = Done (rm, c)"
    using client_write_returns [of "[WriteWouldBlock]", simplified] by blast
  ultimately show ?thesis using Some by (simp add: route_response_def Let_def)
qed (simp add: route_response_def)

lemma http_progress:
  assumes "server_inv s" "sv_http s \<noteq> HttpDone"
  shows "(\<exists>s'. http_step sd s s') \<or> (length (sv_requests s) = sv_capacity s \<and> sv_worker s \<noteq> WorkerDone \<and> (\<exists>e evs. sv_http s = Handling (e # evs)))"
proof (cases "sv_http s")
  case Polling
  then have "\<exists>s'. http_step sd s s'"
    using http_step.poll [OF Polling, of "[]"] http_step.stop [OF Polling] by (cases "sv_shutdown s") auto
  then show ?thesis ..
next
  case (Handling evs)
  show ?thesis
  proof (cases evs)
    case Nil
    then show ?thesis using Handling http_step.events_done by blast
  next
    case (Cons e es)
    have env: "env_ok s" using assms(1) by (simp add: server_inv_def)
    then have "event_ok e" using Handling Cons by (simp add: env_ok_def)
    show ?thesis
    proof (cases "length (sv_requests s) < sv_capacity s \<or> sv_worker s = WorkerDone")
      case True
      then obtain b s' where "handle_event sd e s = Done (b, s')" using handle_event_returns [OF \<open>event_ok e\<close> env] by blast
      moreover have "sv_http s = Handling (e # es)" using Handling Cons by simp
      ultimately have "\<exists>s'. http_step sd s s'"
        using http_step.event [of s e es sd s'] http_step.failed [of s e es sd s'] by (cases b) auto
      then show ?thesis ..
    next
      case False
      then show ?thesis using env Handling Cons by (auto simp: env_ok_def)
    qed
  qed
next
  case (Collecting batch)
  then show ?thesis using http_step.collect [OF Collecting] http_step.collected [OF Collecting]
    by (cases "sv_responses s"; cases "length batch < 64") (auto simp: not_less)
next
  case (Routing batch)
  show ?thesis
  proof (cases batch)
    case Nil
    then show ?thesis using Routing http_step.routed by blast
  next
    case (Cons r rs)
    obtain s' where "route_response [WriteWouldBlock] r s = Done s'"
      using route_response_returns assms(1) by (auto simp: server_inv_def env_ok_def)
    then show ?thesis using Routing Cons http_step.route [of s r rs "[WriteWouldBlock]"] by auto
  qed
qed (use assms(2) in simp)

lemma worker_progress:
  assumes "server_inv s" "sv_worker s \<noteq> WorkerDone"
  shows "(\<exists>s'. worker_step s s') \<or> (length (sv_responses s) = sv_capacity s \<and> (\<exists>q qs. sv_worker s = Working (q # qs)))"
proof (cases "sv_worker s")
  case Idle
  then show ?thesis using worker_step.wake worker_step.stop by blast
next
  case (Draining batch)
  then show ?thesis using worker_step.drain [OF Draining] worker_step.drained [OF Draining]
    by (cases "sv_requests s"; cases "length batch < 64") (auto simp: not_less)
next
  case (Working batch)
  show ?thesis
  proof (cases batch)
    case Nil
    then show ?thesis using Working worker_step.batch_done by blast
  next
    case (Cons q qs)
    obtain response call where "process_request q = (response, call)" by (cases "process_request q")
    then show ?thesis
      using assms(1) Working Cons worker_step.answer [of s q qs response call]
      by (cases "length (sv_responses s) < sv_capacity s") (auto simp: server_inv_def env_ok_def)
  qed
next
  case (Transmitting q qs)
  then obtain call where "snd (process_request q) = Some call" using assms(1) by (auto simp: server_inv_def pipeline_ok_def)
  then show ?thesis using Transmitting worker_step.transmit by blast
qed (use assms(2) in simp)

section \<open>Both threads can wait for each other\<close>

text \<open>Bytes that the server takes as a request.\<close>

definition accepts :: "'v serde \<Rightarrow> bytes \<Rightarrow> 'v parsed_request \<Rightarrow> bool" where
  "accepts sd buf parsed \<longleftrightarrow> is_complete buf \<and> length buf \<le> MAX_REQUEST_SIZE \<and>
     (\<exists>r rq. http_parse buf = Inr r \<and> hr_method r = ''POST'' \<and> sd_from_slice sd (hr_body r) = Inr rq \<and>
        from_rpc_request (sd_from_value sd) rq = Inr parsed)"

definition request_event :: "bytes \<Rightarrow> nat \<Rightarrow> mio_event" where
  "request_event buf i = ClientEvent (i + 1) True False [ReadOk buf, ReadWouldBlock] [WriteWouldBlock]"

lemma handle_request_accepts:
  assumes "accepts sd buf parsed"
  obtains close where "\<And>token s. handle_request sd buf token s =
    run_bind (send_request (queued_of token parsed s) (id_taken s))
      (\<lambda>(sent, s2). Done (if sent then Inr (sv_next_id s, close) else Inl QueueFull, s2))"
proof -
  obtain r rq where r: "http_parse buf = Inr r" "hr_method r = ''POST''" "sd_from_slice sd (hr_body r) = Inr rq"
    "from_rpc_request (sd_from_value sd) rq = Inr parsed" using assms by (auto simp: accepts_def)
  show thesis
    by (rule that [of "hr_connection_close r"])
      (use r in \<open>simp add: handle_request_def generate_request_id_def queued_of_def id_taken_def Let_def\<close>)
qed

lemma fresh_request_read:
  assumes "accepts sd buf parsed" "conn = connection_new st ad"
  obtains c where "cn_recv_buf c = buf" "cn_stream c = st" "cn_send_buf c = []" "\<And>token s.
    client_read sd token [ReadOk buf, ReadWouldBlock] conn s =
      run_bind (handle_request sd buf token s) (\<lambda>(res, s1).
        case res of
          Inr (req_id, connection_close) \<Rightarrow>
            Done (False,
              clear_recv_buf (c\<lparr>cn_pending_request_id := Some req_id, cn_should_close := connection_close, cn_state := Processing\<rparr>),
              s1\<lparr>sv_owners := sv_owners s1 @ [(req_id, cn_stream c)]\<rparr>)
        | Inl e \<Rightarrow>
            run_bind (error_response (sd_to_writer sd) (sv_date s1) (sd_null sd) e False)
              (\<lambda>response. Done (False, queue_response response c, s1)))"
proof -
  let ?c = "conn\<lparr>cn_recv_buf := buf\<rparr>"
  have ne: "buf \<noteq> []" using assms(1) by (auto simp: accepts_def is_complete_def find_headers_end_def)
  have t: "try_read [ReadOk buf, ReadWouldBlock] conn = (Done (Inr True), ?c)"
    using assms ne by (simp add: accepts_def connection_new_def Let_def)
  have "scan_ok ?c" using scan_ok_extend [OF scan_ok_new [of st ad], of buf] by (simp add: assms(2)) (simp add: connection_new_def)
  obtain b c1 where q: "is_request_complete ?c = (b, c1)" by (cases "is_request_complete ?c")
  from is_request_complete_spec [OF \<open>scan_ok ?c\<close> q] assms
  have "b" "cn_recv_buf c1 = buf" "cn_stream c1 = st" "cn_send_buf c1 = []" "cn_pending_request_id c1 = None"
    by (auto simp: accepts_def connection_new_def)
  moreover from this(1) q have "is_request_complete ?c = (True, c1)" by simp
  note cr = client_read_request [OF t this \<open>cn_pending_request_id c1 = None\<close>, unfolded \<open>cn_recv_buf c1 = buf\<close>]
  ultimately show thesis using that cr by blast
qed

lemma request_event_outcome:
  assumes "accepts sd buf parsed" "pool_get i (sv_pool s) = Some (connection_new st ad)" "sv_worker s \<noteq> WorkerDone"
  shows "length (sv_requests s) < sv_capacity s \<Longrightarrow> \<exists>c. cn_pending_request_id c = Some (sv_next_id s) \<and>
      handle_event sd (request_event buf i) s =
      Done (True, (request_queued (i + 1) parsed s)\<lparr>sv_owners := sv_owners s @ [(sv_next_id s, st)], sv_pool := pool_set i c (sv_pool s)\<rparr>)"
    and "\<not> length (sv_requests s) < sv_capacity s \<Longrightarrow> handle_event sd (request_event buf i) s = Blocked"
proof -
  obtain close where h: "\<And>token s. handle_request sd buf token s =
    run_bind (send_request (queued_of token parsed s) (id_taken s))
      (\<lambda>(sent, s2). Done (if sent then Inr (sv_next_id s, close) else Inl QueueFull, s2))"
    using handle_request_accepts [OF assms(1)] by blast
  obtain c where c: "cn_recv_buf c = buf" "cn_stream c = st" "cn_send_buf c = []" "\<And>token s.
    client_read sd token [ReadOk buf, ReadWouldBlock] (connection_new st ad) s =
      run_bind (handle_request sd buf token s) (\<lambda>(res, s1).
        case res of
          Inr (req_id, connection_close) \<Rightarrow>
            Done (False,
              clear_recv_buf (c\<lparr>cn_pending_request_id := Some req_id, cn_should_close := connection_close, cn_state := Processing\<rparr>),
              s1\<lparr>sv_owners := sv_owners s1 @ [(req_id, cn_stream c)]\<rparr>)
        | Inl e \<Rightarrow>
            run_bind (error_response (sd_to_writer sd) (sv_date s1) (sd_null sd) e False)
              (\<lambda>response. Done (False, queue_response response c, s1)))"
    using fresh_request_read [OF assms(1) refl, of st ad] by blast
  have rd: "cn_state (connection_new st ad) = Reading" by (simp add: connection_new_def)
  let ?c = "clear_recv_buf (c\<lparr>cn_pending_request_id := Some (sv_next_id s), cn_should_close := close, cn_state := Processing\<rparr>)"
  show "\<exists>c. cn_pending_request_id c = Some (sv_next_id s) \<and> handle_event sd (request_event buf i) s =
      Done (True, (request_queued (i + 1) parsed s)\<lparr>sv_owners := sv_owners s @ [(sv_next_id s, st)], sv_pool := pool_set i c (sv_pool s)\<rparr>)"
    if "length (sv_requests s) < sv_capacity s"
    using that assms(2,3) c(2,3) rd
    by (intro exI [of _ ?c]) (simp add: request_event_def client_event_def c(4) h send_request_def id_taken_def request_queued_def
        store_or_remove_def clear_recv_buf_def)
  show "handle_event sd (request_event buf i) s = Blocked" if "\<not> length (sv_requests s) < sv_capacity s"
    using that assms(2,3) rd
    by (simp add: request_event_def client_event_def c(4) h send_request_def id_taken_def)
qed

text \<open>A server in the middle of a batch of events, one request on each connection from the \<open>k\<close>-th on.\<close>

definition stage :: "bytes \<Rightarrow> nat \<Rightarrow> nat \<Rightarrow> 'v rpc_server \<Rightarrow> bool" where
  "stage buf n k s \<longleftrightarrow> sv_http s = Handling (map (request_event buf) [k..<n]) \<and> \<not> sv_shutdown s \<and>
     (\<forall>i. k \<le> i \<and> i < n \<longrightarrow> (\<exists>st ad. pool_get i (sv_pool s) = Some (connection_new st ad)))"

lemma stage_event:
  assumes "stage buf n k s" "k < n" "accepts sd buf parsed" "sv_worker s \<noteq> WorkerDone"
    and "length (sv_requests s) < sv_capacity s" "pool_ok (sv_pool s)"
  shows "\<exists>s' c. http_step sd s s' \<and> stage buf n (Suc k) s' \<and> sv_requests s' = sv_requests s @ [queued_of (k + 1) parsed s] \<and>
    sv_responses s' = sv_responses s \<and> sv_worker s' = sv_worker s \<and> sv_capacity s' = sv_capacity s \<and>
    sv_generated s' = Suc (sv_generated s) \<and> pool_get k (sv_pool s') = Some c \<and> cn_pending_request_id c = Some (sv_next_id s)"
proof -
  obtain st ad where p: "pool_get k (sv_pool s) = Some (connection_new st ad)" using assms(1,2) by (auto simp: stage_def)
  have h: "sv_http s = Handling (request_event buf k # map (request_event buf) [Suc k..<n])"
    using assms(1,2) by (simp add: stage_def upt_conv_Cons)
  obtain c where pend: "cn_pending_request_id c = Some (sv_next_id s)" and e: "handle_event sd (request_event buf k) s =
      Done (True, (request_queued (k + 1) parsed s)\<lparr>sv_owners := sv_owners s @ [(sv_next_id s, st)], sv_pool := pool_set k c (sv_pool s)\<rparr>)"
    using request_event_outcome(1) [OF assms(3) p assms(4,5)] by blast
  have set: "pool_get i (pool_set k c (sv_pool s)) = (if i = k then Some c else pool_get i (sv_pool s))" for i
    using cp.replace_lookup [OF assms(6), of k i c] p by simp
  then have st: "stage buf n (Suc k) ((request_queued (k + 1) parsed s)\<lparr>sv_owners := sv_owners s @ [(sv_next_id s, st)],
      sv_pool := pool_set k c (sv_pool s), sv_http := Handling (map (request_event buf) [Suc k..<n])\<rparr>)" (is "stage buf n (Suc k) ?s")
    using assms(1) by (simp add: stage_def request_queued_def id_taken_def)
  have "sv_requests ?s = sv_requests s @ [queued_of (k + 1) parsed s]" "sv_responses ?s = sv_responses s"
    "sv_worker ?s = sv_worker s" "sv_capacity ?s = sv_capacity s" "sv_generated ?s = Suc (sv_generated s)"
    "pool_get k (sv_pool ?s) = Some c"
    using set by (simp_all add: request_queued_def id_taken_def)
  with st http_step.event [OF h e] pend show ?thesis by blast
qed

text \<open>The worker takes the only queued request; then it either finishes it, or waits for room for its answer.\<close>

lemma stage_take:
  assumes "stage buf n k s" "sv_worker s = Idle" "sv_requests s = [q]"
  shows "\<exists>s'. worker_step\<^sup>*\<^sup>* s s' \<and> stage buf n k s' \<and> sv_worker s' = Working [q] \<and> sv_requests s' = [] \<and>
    sv_responses s' = sv_responses s \<and> sv_capacity s' = sv_capacity s \<and> sv_pool s' = sv_pool s \<and> sv_generated s' = sv_generated s"
proof -
  let ?s1 = "s\<lparr>sv_worker := Draining []\<rparr>"
  let ?s2 = "s\<lparr>sv_worker := Draining [q], sv_requests := []\<rparr>"
  let ?s3 = "?s2\<lparr>sv_worker := Working [q]\<rparr>"
  have "worker_step s ?s1" using assms by (intro worker_step.wake) (simp_all add: stage_def)
  moreover have "worker_step ?s1 ?s2" using worker_step.drain [of ?s1 "[]" q "[]"] assms(3) by simp
  moreover have "worker_step ?s2 ?s3" using worker_step.drained [of ?s2 "[q]"] by simp
  ultimately have "worker_step\<^sup>*\<^sup>* s ?s3" by (meson rtranclp.rtrancl_into_rtrancl rtranclp.rtrancl_refl)
  moreover have "stage buf n k ?s3" using assms(1) by (simp add: stage_def)
  ultimately show ?thesis by (intro exI [of _ ?s3]) simp
qed

lemma stage_finish:
  assumes "stage buf n k s" "sv_worker s = Working [q]" "length (sv_responses s) < sv_capacity s"
    and "pr_transaction (qr_request q) \<noteq> []"
  shows "\<exists>s'. worker_step\<^sup>*\<^sup>* s s' \<and> stage buf n k s' \<and> sv_worker s' = Idle \<and> sv_requests s' = sv_requests s \<and>
    sv_responses s' = sv_responses s @ [fst (process_request q)] \<and> sv_capacity s' = sv_capacity s \<and> sv_pool s' = sv_pool s \<and>
    sv_generated s' = sv_generated s"
proof -
  obtain r call where pr: "process_request q = (r, Some call)" using assms(4) by (simp add: process_request_def)
  let ?s1 = "s\<lparr>sv_responses := sv_responses s @ [r], sv_answered := sv_answered s @ [r], sv_worker := Transmitting q []\<rparr>"
  let ?s2 = "?s1\<lparr>sv_sent := sv_sent s @ [call], sv_worker := Working []\<rparr>"
  let ?s3 = "?s2\<lparr>sv_worker := Idle\<rparr>"
  have "worker_step s ?s1" using worker_step.answer [OF assms(2,3) pr] by simp
  moreover have "worker_step ?s1 ?s2" using worker_step.transmit [of ?s1 q "[]" call] pr by simp
  moreover have "worker_step ?s2 ?s3" using worker_step.batch_done [of ?s2] by simp
  ultimately have "worker_step\<^sup>*\<^sup>* s ?s3" by (meson rtranclp.rtrancl_into_rtrancl rtranclp.rtrancl_refl)
  moreover have "stage buf n k ?s3" using assms(1) by (simp add: stage_def)
  ultimately show ?thesis using pr by (intro exI [of _ ?s3]) simp
qed

lemma reachable_worker: "worker_step\<^sup>*\<^sup>* s s' \<Longrightarrow> server_reachable sd cfg s \<Longrightarrow> server_reachable sd cfg s'"
  by (induction rule: rtranclp_induct) (auto intro: server_reachable.step server_step.worker)

lemma reachable_http: "server_reachable sd cfg s \<Longrightarrow> http_step sd s s' \<Longrightarrow> server_reachable sd cfg s'"
  by (auto intro: server_reachable.step server_step.http)

lemma reachable_pool_ok: "server_reachable sd cfg s \<Longrightarrow> pool_ok (sv_pool s)"
  using reachable_inv by (auto simp: server_inv_def env_ok_def conns_ok_def)

text \<open>All connections are accepted and have a request in the next batch of events.\<close>

definition fresh_pool :: "socket_addr \<Rightarrow> nat \<Rightarrow> connection_pool" where
  "fresh_pool ad k = \<lparr>cp_connections = map (\<lambda>i. Some (connection_new i ad)) [0..<k], cp_free_slots = [], cp_recycled = []\<rparr>"

lemma accept_fresh_pool: "snd (accept_connection (k, ad) (fresh_pool ad k)) = fresh_pool ad (Suc k)"
  by (simp add: accept_connection_def alloc_empty_def create_connection_def pool_set_def fresh_pool_def list_update_append)

lemma accept_loop_fresh:
  "k \<le> n \<Longrightarrow> sv_pool s = fresh_pool ad k \<Longrightarrow>
     accept_loop (map (\<lambda>i. Accepted i ad True) [k..<n] @ [AcceptWouldBlock]) s = Done (True, s\<lparr>sv_pool := fresh_pool ad n\<rparr>)"
proof (induction "n - k" arbitrary: k s)
  case 0
  then have "s = s\<lparr>sv_pool := fresh_pool ad n\<rparr>" by simp
  with 0 show ?case by simp
next
  case (Suc d)
  then have "[k..<n] = k # [Suc k..<n]" by (simp add: upt_conv_Cons)
  with Suc accept_fresh_pool [of k ad] show ?case by simp
qed

lemma stage_start:
  assumes "config_validate cfg = Inr ()" "n \<le> 1024"
  shows "\<exists>s. server_reachable sd cfg s \<and> stage buf n 0 s \<and> sv_worker s = Idle \<and> sv_requests s = [] \<and> sv_responses s = [] \<and>
    sv_capacity s = unat (sc_queue_size cfg) \<and> sv_generated s = 0"
proof -
  let ?ad = "V4 [127, 0, 0, 1] 8080"
  let ?acc = "ListenerEvent (map (\<lambda>i. Accepted i ?ad True) [0..<n] @ [AcceptWouldBlock])"
  obtain s :: "'a rpc_server" where s: "server_new cfg date_cache_new = Inr s" using assms(1) by (simp add: server_new_def)
  have f: "sv_capacity s = unat (sc_queue_size cfg)" "sv_pool s = pool_new" "sv_requests s = []" "sv_responses s = []"
    "\<not> sv_shutdown s" "sv_http s = Polling" "sv_worker s = Idle" "sv_generated s = 0"
    using s assms(1) by (auto simp: server_new_def)
  have r0: "server_reachable sd cfg s"
    by (rule server_reachable.init [OF s]) (simp_all add: date_ok_def date_text_def date_cache_new_def)
  let ?s1 = "s\<lparr>sv_http := Handling [?acc]\<rparr>"
  let ?s2 = "s\<lparr>sv_pool := fresh_pool ?ad n, sv_http := Handling []\<rparr>"
  let ?s3 = "s\<lparr>sv_pool := fresh_pool ?ad n, sv_http := Collecting []\<rparr>"
  let ?s4 = "s\<lparr>sv_pool := fresh_pool ?ad n, sv_http := Routing []\<rparr>"
  let ?s5 = "s\<lparr>sv_pool := fresh_pool ?ad n, sv_http := Polling\<rparr>"
  let ?s6 = "s\<lparr>sv_pool := fresh_pool ?ad n, sv_http := Handling (map (request_event buf) [0..<n])\<rparr>"
  have "http_step sd s ?s1" using f by (intro http_step.poll) simp_all
  moreover have "http_step sd ?s1 ?s2"
    using http_step.event [of ?s1 ?acc "[]" sd] accept_loop_fresh [of 0 n ?s1 ?ad] f(2) by (simp add: fresh_pool_def pool_new_def)
  moreover have "http_step sd ?s2 ?s3" using http_step.events_done [of ?s2 sd] by simp
  moreover have "http_step sd ?s3 ?s4" using http_step.collected [of ?s3 "[]" sd] f(4) by simp
  moreover have "http_step sd ?s4 ?s5" using http_step.routed [of ?s4 sd] by simp
  moreover have "http_step sd ?s5 ?s6"
    using http_step.poll [of ?s5 "map (request_event buf) [0..<n]" sd] f(5) assms(2) by (simp add: list_all_iff request_event_def)
  ultimately have "server_reachable sd cfg ?s6" using r0 reachable_http by blast
  moreover have "stage buf n 0 ?s6" using f(5) by (auto simp: stage_def fresh_pool_def pool_get_def)
  ultimately show ?thesis using f by (intro exI [of _ ?s6]) simp
qed

text \<open>The responses fill up while the event loop is still in its batch.\<close>

lemma stage_fill_responses:
  assumes "config_validate cfg = Inr ()" "n \<le> 1024" "accepts sd buf parsed" "pr_transaction parsed \<noteq> []"
  shows "k \<le> unat (sc_queue_size cfg) \<Longrightarrow> k < n \<Longrightarrow>
    \<exists>s. server_reachable sd cfg s \<and> stage buf n k s \<and> sv_worker s = Idle \<and> sv_requests s = [] \<and> length (sv_responses s) = k \<and>
      sv_capacity s = unat (sc_queue_size cfg)"
proof (induction k)
  case 0
  then show ?case using stage_start [OF assms(1,2), of sd buf] by auto
next
  case (Suc k)
  then obtain s where s: "server_reachable sd cfg s" "stage buf n k s" "sv_worker s = Idle" "sv_requests s = []"
    "length (sv_responses s) = k" "sv_capacity s = unat (sc_queue_size cfg)" by auto
  let ?q = "queued_of (k + 1) parsed s"
  obtain s1 where s1: "http_step sd s s1" "stage buf n (Suc k) s1" "sv_requests s1 = [?q]"
    "sv_responses s1 = sv_responses s" "sv_worker s1 = Idle" "sv_capacity s1 = sv_capacity s"
    using stage_event [OF s(2) _ assms(3) _ _ reachable_pool_ok [OF s(1)]] Suc.prems s by auto
  obtain s2 where s2: "worker_step\<^sup>*\<^sup>* s1 s2" "stage buf n (Suc k) s2" "sv_worker s2 = Working [?q]" "sv_requests s2 = []"
    "sv_responses s2 = sv_responses s1" "sv_capacity s2 = sv_capacity s1"
    using stage_take [OF s1(2,5,3)] by blast
  have ne: "pr_transaction (qr_request ?q) \<noteq> []" using assms(4) by (simp add: queued_of_def)
  obtain s3 where s3: "worker_step\<^sup>*\<^sup>* s2 s3" "stage buf n (Suc k) s3" "sv_worker s3 = Idle" "sv_requests s3 = []"
    "length (sv_responses s3) = Suc (length (sv_responses s2))" "sv_capacity s3 = sv_capacity s2"
    using stage_finish [OF s2(2,3) _ ne] s1 s2 s Suc.prems by auto
  have "server_reachable sd cfg s3"
    using reachable_worker [OF s3(1) reachable_worker [OF s2(1) reachable_http [OF s(1) s1(1)]]] .
  with s3 s2 s1 s show ?case by (intro exI [of _ s3]) simp
qed

text \<open>Then the requests fill up behind the one whose answer has no room.\<close>

lemma stage_fill_requests:
  assumes "server_reachable sd cfg s" "stage buf n k s" "sv_worker s = Working [q]" "sv_requests s = []"
    and "accepts sd buf parsed"
  shows "j \<le> sv_capacity s \<Longrightarrow> k + j < n \<Longrightarrow>
    \<exists>s'. server_reachable sd cfg s' \<and> stage buf n (k + j) s' \<and> sv_worker s' = Working [q] \<and> length (sv_requests s') = j \<and>
      sv_responses s' = sv_responses s \<and> sv_capacity s' = sv_capacity s"
proof (induction j)
  case 0
  then show ?case using assms by (intro exI [of _ s]) simp
next
  case (Suc j)
  then obtain t where t: "server_reachable sd cfg t" "stage buf n (k + j) t" "sv_worker t = Working [q]"
    "length (sv_requests t) = j" "sv_responses t = sv_responses s" "sv_capacity t = sv_capacity s" by auto
  obtain t1 x where "http_step sd t t1" "stage buf n (Suc (k + j)) t1" "sv_requests t1 = sv_requests t @ [x]"
    "sv_responses t1 = sv_responses t" "sv_worker t1 = sv_worker t" "sv_capacity t1 = sv_capacity t"
    using stage_event [OF t(2) _ assms(5) _ _ reachable_pool_ok [OF t(1)]] Suc.prems t by auto
  with t reachable_http [OF t(1)] show ?case by (intro exI [of _ t1]) simp
qed

text \<open>The threads wait for each other: the event loop for room in one queue, the worker for room in the other.\<close>

definition jammed :: "'v serde \<Rightarrow> 'v rpc_server \<Rightarrow> bool" where
  "jammed sd s \<longleftrightarrow>
     (\<exists>buf parsed i evs st ad. sv_http s = Handling (request_event buf i # evs) \<and> accepts sd buf parsed \<and>
        pool_get i (sv_pool s) = Some (connection_new st ad)) \<and>
     length (sv_requests s) = sv_capacity s \<and>
     (\<exists>q qs. sv_worker s = Working (q # qs)) \<and> length (sv_responses s) = sv_capacity s"

inductive_cases http_stepE: "http_step sd s s'"
inductive_cases worker_stepE: "worker_step s s'"
inductive_cases server_stepE: "server_step sd s s'"

lemma jammed_stuck:
  assumes "jammed sd s"
  shows "\<not> http_step sd s s' \<and> \<not> worker_step s s'"
proof -
  obtain buf parsed i evs st ad where j: "sv_http s = Handling (request_event buf i # evs)" "accepts sd buf parsed"
    "pool_get i (sv_pool s) = Some (connection_new st ad)" using assms by (auto simp: jammed_def)
  have "handle_event sd (request_event buf i) s = Blocked"
    by (rule request_event_outcome(2) [OF j(2,3)]) (use assms in \<open>auto simp: jammed_def\<close>)
  with j(1) assms show ?thesis by (auto simp: jammed_def elim: http_stepE worker_stepE)
qed

lemma jammed_forever: "(server_step sd)\<^sup>*\<^sup>* s s' \<Longrightarrow> jammed sd s \<Longrightarrow> jammed sd s'"
proof (induction rule: rtranclp_induct)
  case (step t u)
  then have "jammed sd t" by simp
  from step.hyps(2) show ?case
  proof cases
    case http
    then show ?thesis using \<open>jammed sd t\<close> jammed_stuck by blast
  next
    case worker
    then show ?thesis using \<open>jammed sd t\<close> jammed_stuck by blast
  qed (use \<open>jammed sd t\<close> in \<open>simp_all add: jammed_def\<close>)
qed simp

section \<open>A run with one request\<close>

definition demo_request :: bytes where
  "demo_request = build_request b64_encode ''h:80'' 1 [] 1 0"

definition demo_parsed :: "unit parsed_request" where
  "demo_parsed = \<lparr>pr_id = (), pr_transaction = [1, 2, 3], pr_fanout = 2, pr_target_slot = 0, pr_neighbor_fanout = None\<rparr>"

definition demo_serde :: "unit serde" where
  "demo_serde = \<lparr>sd_from_slice = (\<lambda>_. Inr \<lparr>rq_jsonrpc = ''2.0'', rq_id = (), rq_method = ''sendTransaction'', rq_params = ()\<rparr>),
     sd_from_value = (\<lambda>_. Inr \<lparr>sp_transaction = b64_encode [1, 2, 3], sp_fanout = 2, sp_target_slot = 0, sp_neighbor_fanout = None\<rparr>),
     sd_to_writer = (\<lambda>_. ''{}''), sd_null = ()\<rparr>"

definition demo_config :: server_config where
  "demo_config = config_default\<lparr>sc_queue_size := 64\<rparr>"

lemma demo_accepts: "accepts demo_serde demo_request demo_parsed"
proof -
  let ?body = "request_body b64_encode 1 [] 1 0"
  have h: "host_ok ''h:80''" by (simp add: host_ok_def is_graph_def)
  have len: "length ?body < 1000" "length demo_request \<le> MAX_REQUEST_SIZE"
    using length_show_nat_le [of 1] length_show_nat_le [of 0] length_show_nat_le [of "length ?body"]
    by (simp_all add: demo_request_def build_request_def request_body_def jstr_def Let_def CRLF_def MAX_REQUEST_SIZE_def)
  then have "length ?body < 2 ^ 64" by simp
  note C = client_request_complete [OF h this demo_request_def] and P = client_request_parsed [OF h this demo_request_def]
  have "decode_base64 (b64_encode [1, 2, 3]) = Inr [1, 2, 3]"
    unfolding decode_base64_def base64_decode_encode by simp
  then have "from_rpc_request (sd_from_value demo_serde)
      \<lparr>rq_jsonrpc = ''2.0'', rq_id = (), rq_method = ''sendTransaction'', rq_params = ()\<rparr> = Inr demo_parsed"
    by (simp add: from_rpc_request_def rq_validate_def demo_serde_def demo_parsed_def)
  then show ?thesis using C P len(2) by (simp add: accepts_def demo_serde_def)
qed

lemma demo_config_ok: "config_validate demo_config = Inr ()" "unat (sc_queue_size demo_config) = 64"
proof -
  have "is_power_of_two 64" by code_simp
  then show "config_validate demo_config = Inr ()" "unat (sc_queue_size demo_config) = 64"
    by (simp_all add: config_validate_def demo_config_def config_default_def)
qed

lemma route_delivers:
  assumes "route_response wobs response s = Done s'" "pool_get (qp_token response - 1) (sv_pool s) = Some conn"
    and "cn_pending_request_id conn = Some (qp_request_id response)"
  shows "\<exists>buf. (qp_request_id response, cn_stream conn, buf) \<in> set (sv_delivered s') \<and> sv_generated s' = sv_generated s"
  using assms by (auto simp: route_response_def store_or_remove_def Let_def run_bind_eq_Done)

text \<open>The request of the only connection is accepted, answered, transmitted and its response delivered.\<close>

lemma first_delivery:
  assumes "config_validate cfg = Inr ()" "accepts sd buf parsed" "pr_transaction parsed \<noteq> []"
  shows "\<exists>s r stream resp. server_reachable sd cfg s \<and> (r, stream, resp) \<in> set (sv_delivered s) \<and> sv_generated s = 1"
proof -
  obtain s where s: "server_reachable sd cfg s" "stage buf 1 0 s" "sv_worker s = Idle" "sv_requests s = []" "sv_responses s = []"
    "sv_capacity s = unat (sc_queue_size cfg)" "sv_generated s = 0"
    using stage_start [OF assms(1), of 1 sd buf] by auto
  let ?q = "queued_of (0 + 1) parsed s"
  have "unat (sc_queue_size cfg) \<noteq> 0"
    using assms(1) by (auto simp: config_validate_def is_power_of_two_def unat_eq_zero split: if_splits)
  then obtain s1 c where s1: "http_step sd s s1" "stage buf 1 (Suc 0) s1" "sv_requests s1 = [?q]" "sv_responses s1 = []"
    "sv_worker s1 = Idle" "sv_capacity s1 = sv_capacity s" "sv_generated s1 = 1" "pool_get 0 (sv_pool s1) = Some c"
    "cn_pending_request_id c = Some (sv_next_id s)" "0 < sv_capacity s"
    using stage_event [OF s(2) _ assms(2) _ _ reachable_pool_ok [OF s(1)]] s by auto
  obtain s2 where s2: "worker_step\<^sup>*\<^sup>* s1 s2" "stage buf 1 (Suc 0) s2" "sv_worker s2 = Working [?q]" "sv_responses s2 = []"
    "sv_capacity s2 = sv_capacity s" "sv_pool s2 = sv_pool s1" "sv_generated s2 = 1"
    using stage_take [OF s1(2,5,3)] s1 by auto
  have ne: "pr_transaction (qr_request ?q) \<noteq> []" using assms(3) by (simp add: queued_of_def)
  let ?r = "fst (process_request ?q)"
  obtain s3 where s3: "worker_step\<^sup>*\<^sup>* s2 s3" "stage buf 1 (Suc 0) s3" "sv_responses s3 = [?r]" "sv_pool s3 = sv_pool s1" "sv_generated s3 = 1"
    using stage_finish [OF s2(2,3) _ ne] s2 s1(10) by auto
  have r3: "server_reachable sd cfg s3"
    using reachable_worker [OF s3(1) reachable_worker [OF s2(1) reachable_http [OF s(1) s1(1)]]] .
  let ?s4 = "s3\<lparr>sv_http := Collecting []\<rparr>"
  let ?s5 = "s3\<lparr>sv_http := Collecting [?r], sv_responses := []\<rparr>"
  let ?s6 = "s3\<lparr>sv_responses := [], sv_http := Routing [?r]\<rparr>"
  have "http_step sd s3 ?s4" using http_step.events_done [of s3 sd] s3(2) by (simp add: stage_def)
  moreover have "http_step sd ?s4 ?s5" using http_step.collect [of ?s4 "[]" ?r "[]" sd] s3(3) by simp
  moreover have "http_step sd ?s5 ?s6" using http_step.collected [of ?s5 "[?r]" sd] by simp
  ultimately have r6: "server_reachable sd cfg ?s6" using r3 reachable_http by blast
  have "date_ok (sv_date ?s6)" using reachable_inv [OF r6] by (simp add: server_inv_def env_ok_def)
  then obtain t where t: "route_response [WriteWouldBlock] ?r ?s6 = Done t" using route_response_returns by blast
  have "qp_token ?r = 1" "qp_request_id ?r = sv_next_id s"
    by (simp_all add: process_request_def sender_response_def queued_of_def)
  then have "pool_get (qp_token ?r - 1) (sv_pool ?s6) = Some c" "cn_pending_request_id c = Some (qp_request_id ?r)"
    using s1(8,9) s3(4) by simp_all
  from route_delivers [OF t this] obtain resp where "(qp_request_id ?r, cn_stream c, resp) \<in> set (sv_delivered t)" "sv_generated t = 1"
    using s3(5) by auto
  moreover have "server_reachable sd cfg (t\<lparr>sv_http := Routing []\<rparr>)"
    using reachable_http [OF r6 http_step.route [of ?s6 ?r "[]" "[WriteWouldBlock]" t sd]] t by simp
  ultimately show ?thesis by (intro exI [of _ "t\<lparr>sv_http := Routing []\<rparr>"]) auto
qed

section \<open>The properties of the server\<close>

lemma subseq_distinct: "subseq xs ys \<Longrightarrow> distinct ys \<Longrightarrow> distinct xs"
  by (induction rule: list_emb.induct) (auto dest: list_emb_set)









end
