(* ===== verification/Wait_Strategy.thy ===== *)
theory Wait_Strategy
  imports Land_Prelude
begin

text \<open>
  Cursors, wait strategies and sequence barriers: \<open>src/cpu/src/cursor.rs\<close>,
  \<open>src/cpu/src/wait_strategy.rs\<close> and \<open>src/channel/src/barrier.rs\<close>. A waiting loop loads the cursor once
  per round; it is a function of the list of values it loads, and \<open>Blocked\<close> when the list is used up.
  The backoff strategy can loop without loading anything, so it is a partial function: \<open>None\<close> says
  that it never returns.
\<close>

section \<open>Cursors\<close>

definition INITIAL_CURSOR_VALUE :: i64 where "INITIAL_CURSOR_VALUE = - 1"

definition cursor_new :: i64 where "cursor_new = INITIAL_CURSOR_VALUE"

definition cursor_set :: "i64 \<Rightarrow> i64 \<Rightarrow> i64" where "cursor_set sequence c = sequence"

definition cursor_increment :: "i64 \<Rightarrow> i64 \<times> i64" where
  "cursor_increment c = (c + 1, c + 1)"

definition cursor_add :: "i64 \<Rightarrow> i64 \<Rightarrow> i64 \<times> i64" where
  "cursor_add delta c = (c + delta, c + delta)"

definition cursor_compare_exchange :: "i64 \<Rightarrow> i64 \<Rightarrow> i64 \<Rightarrow> (i64 + i64) \<times> i64" where
  "cursor_compare_exchange cur nw c = (if c = cur then (Inr c, nw) else (Inl c, c))"

text \<open>The weak variant may fail spuriously.\<close>

definition cursor_compare_exchange_weak :: "bool \<Rightarrow> i64 \<Rightarrow> i64 \<Rightarrow> i64 \<Rightarrow> (i64 + i64) \<times> i64" where
  "cursor_compare_exchange_weak spurious cur nw c =
     (if c = cur \<and> \<not> spurious then (Inr c, nw) else (Inl c, c))"

section \<open>Wait strategies\<close>

fun busy_spin_wait_for :: "i64 \<Rightarrow> i64 list \<Rightarrow> i64 run" where
  "busy_spin_wait_for target [] = Blocked"
| "busy_spin_wait_for target (cur # obs) = (if target \<le> cur then Done cur else busy_spin_wait_for target obs)"

fun spin_loop_hint_wait_for :: "i64 \<Rightarrow> i64 list \<Rightarrow> i64 run" where
  "spin_loop_hint_wait_for target [] = Blocked"
| "spin_loop_hint_wait_for target (cur # obs) =
     (if target \<le> cur then Done cur else spin_loop_hint_wait_for target obs)"

text \<open>The count of spins decides only between a hint to the processor and a yield.\<close>

fun yielding_loop :: "u32 \<Rightarrow> u32 \<Rightarrow> i64 \<Rightarrow> i64 list \<Rightarrow> i64 run" where
  "yielding_loop spin_tries spins target [] = Blocked"
| "yielding_loop spin_tries spins target (cur # obs) =
     (if target \<le> cur then Done cur
      else if spins < spin_tries then yielding_loop spin_tries (spins + 1) target obs
      else yielding_loop spin_tries 0 target obs)"

definition yielding_wait_for :: "u32 \<Rightarrow> i64 \<Rightarrow> i64 list \<Rightarrow> i64 run" where
  "yielding_wait_for spin_tries target obs = yielding_loop spin_tries 0 target obs"

definition yielding_default :: u32 where "yielding_default = 100"

definition backoff_default :: "u32 \<times> u32" where "backoff_default = (10, 1000)"

definition sat_mul2 :: "u32 \<Rightarrow> u32" where
  "sat_mul2 w = (if 2 ^ 32 \<le> 2 * unat w then - 1 else 2 * w)"

text \<open>The inner loop of \<open>n\<close> loads; \<open>Inr\<close> the value to return, \<open>Inl\<close> the observations left.\<close>

fun backoff_round :: "nat \<Rightarrow> i64 \<Rightarrow> i64 list \<Rightarrow> (i64 list + i64) run" where
  "backoff_round 0 target obs = Done (Inl obs)"
| "backoff_round (Suc n) target [] = Blocked"
| "backoff_round (Suc n) target (cur # obs) =
     (if target \<le> cur then Done (Inr cur) else backoff_round n target obs)"

partial_function (option) backoff_loop :: "u32 \<Rightarrow> u32 \<Rightarrow> i64 \<Rightarrow> i64 list \<Rightarrow> i64 run option" where
  "backoff_loop max_spins spins target obs =
     (case backoff_round (unat spins) target obs of
        Done (Inr cur) \<Rightarrow> Some (Done cur)
      | Done (Inl obs') \<Rightarrow> backoff_loop max_spins (min (sat_mul2 spins) max_spins) target obs'
      | Blocked \<Rightarrow> Some Blocked
      | Panicked \<Rightarrow> Some Panicked
      | Undefined \<Rightarrow> Some Undefined)"

definition backoff_wait_for :: "u32 \<Rightarrow> u32 \<Rightarrow> i64 \<Rightarrow> i64 list \<Rightarrow> i64 run option" where
  "backoff_wait_for initial_spins max_spins target obs = backoff_loop max_spins initial_spins target obs"

section \<open>Barriers\<close>

text \<open>A barrier over one cursor waits with its strategy; one over several cursors waits for the minimum.\<close>

definition barrier_wait_for :: "(i64 \<Rightarrow> i64 list \<Rightarrow> i64 run) \<Rightarrow> i64 \<Rightarrow> i64 list \<Rightarrow> i64 run" where
  "barrier_wait_for wait_strategy sequence obs = wait_strategy sequence obs"

definition barrier_is_available :: "i64 \<Rightarrow> i64 \<Rightarrow> bool" where
  "barrier_is_available sequence cursor \<longleftrightarrow> sequence \<le> cursor"

definition I64_MAX :: i64 where "I64_MAX = 2 ^ 63 - 1"

fun minimum_loop :: "i64 \<Rightarrow> i64 list \<Rightarrow> i64" where
  "minimum_loop m [] = m"
| "minimum_loop m (v # cursors) = (if v < m then minimum_loop v cursors else minimum_loop m cursors)"

definition get_minimum_sequence :: "i64 list \<Rightarrow> i64" where
  "get_minimum_sequence cursors = minimum_loop I64_MAX cursors"

fun multi_wait_for :: "i64 \<Rightarrow> i64 list list \<Rightarrow> i64 run" where
  "multi_wait_for sequence [] = Blocked"
| "multi_wait_for sequence (cursors # obs) =
     (let m = get_minimum_sequence cursors in if sequence \<le> m then Done m else multi_wait_for sequence obs)"

definition multi_is_available :: "i64 \<Rightarrow> i64 list \<Rightarrow> bool" where
  "multi_is_available sequence cursors \<longleftrightarrow> sequence \<le> get_minimum_sequence cursors"

section \<open>The contract of a wait strategy\<close>

text \<open>
  A strategy returns the first loaded value that reaches the target and loads on while there is none.
  Its clients rely on: a return is at or beyond the target, a later load never makes a difference,
  and the wait ends once the cursor has reached the target and stays there.
\<close>

locale wait_strategy =
  fixes wait_for :: "i64 \<Rightarrow> i64 list \<Rightarrow> i64 run"
  assumes first_reached: "wait_for target obs = (case find (\<lambda>c. target \<le> c) obs of Some c \<Rightarrow> Done c | None \<Rightarrow> Blocked)"
begin

lemma returns_reached: "wait_for target obs = Done c \<Longrightarrow> target \<le> c \<and> c \<in> set obs"
  by (auto simp: first_reached find_Some_iff split: option.splits)

lemma returns_iff: "(\<exists>c. wait_for target obs = Done c) \<longleftrightarrow> (\<exists>c \<in> set obs. target \<le> c)"
  by (auto simp: first_reached find_None_iff split: option.splits) (auto simp: find_Some_iff)

lemma more_observations: "wait_for target obs = Done c \<Longrightarrow> wait_for target (obs @ obs') = Done c"
proof -
  have "find P xs = Some y \<Longrightarrow> find P (xs @ ys) = Some y" for P :: "i64 \<Rightarrow> bool" and xs ys y by (induction xs) (auto split: if_splits)
  then show "wait_for target obs = Done c \<Longrightarrow> ?thesis" by (auto simp: first_reached split: option.splits)
qed

text \<open>On a cursor that only grows, the value returned is the one at the first moment it reaches the target.\<close>

lemma monotone_first:
  assumes "sorted obs" "wait_for target obs = Done c"
  shows "\<forall>d \<in> set obs. target \<le> d \<longrightarrow> c \<le> d"
proof -
  obtain i where i: "i < length obs" "target \<le> c" "obs ! i = c" "\<forall>j < i. \<not> target \<le> obs ! j"
    using assms(2) by (auto simp: first_reached find_Some_iff split: option.splits)
  show ?thesis
  proof (intro ballI impI)
    fix d assume "d \<in> set obs" "target \<le> d"
    then obtain j where j: "j < length obs" "obs ! j = d" by (auto simp: in_set_conv_nth)
    then have "i \<le> j" using i(4) \<open>target \<le> d\<close> by (meson not_le)
    then show "c \<le> d" using sorted_nth_mono [OF assms(1) _ j(1)] i(3) j(2) by blast
  qed
qed

end

interpretation busy: wait_strategy busy_spin_wait_for
proof
  show "busy_spin_wait_for target obs = (case find (\<lambda>c. target \<le> c) obs of Some c \<Rightarrow> Done c | None \<Rightarrow> Blocked)" for target obs
    by (induction obs) auto
qed

interpretation hint: wait_strategy spin_loop_hint_wait_for
proof
  show "spin_loop_hint_wait_for target obs = (case find (\<lambda>c. target \<le> c) obs of Some c \<Rightarrow> Done c | None \<Rightarrow> Blocked)" for target obs
    by (induction obs) auto
qed

lemma yielding_loop_first:
  "yielding_loop tries spins target obs = (case find (\<lambda>c. target \<le> c) obs of Some c \<Rightarrow> Done c | None \<Rightarrow> Blocked)"
  by (induction obs arbitrary: spins) auto

interpretation yielding: wait_strategy "yielding_wait_for tries" for tries
  by unfold_locales (simp add: yielding_wait_for_def yielding_loop_first)

section \<open>Backoff\<close>

lemma backoff_round_spec:
  "backoff_round n target obs =
     (case find (\<lambda>c. target \<le> c) (take n obs) of
        Some c \<Rightarrow> Done (Inr c)
      | None \<Rightarrow> if length obs < n then Blocked else Done (Inl (drop n obs)))"
  by (induction n target obs rule: backoff_round.induct) (auto split: option.split)

lemma find_take_drop:
  "find P xs = (case find P (take n xs) of Some c \<Rightarrow> Some c | None \<Rightarrow> find P (drop n xs))"
proof -
  have "find P (ys @ zs) = (case find P ys of Some c \<Rightarrow> Some c | None \<Rightarrow> find P zs)" for ys zs by (induction ys) auto
  from this [of "take n xs" "drop n xs"] show ?thesis by simp
qed

lemma next_spins: "0 < spins \<Longrightarrow> 0 < max_spins \<Longrightarrow> 0 < min (sat_mul2 spins) max_spins"
proof -
  assume s: "0 < spins" "0 < max_spins"
  have "sat_mul2 spins \<noteq> 0"
  proof (cases "2 ^ 32 \<le> 2 * unat spins")
    case False
    then have "unat (2 * spins) = 2 * unat spins" by (simp add: unat_word_ariths)
    moreover have "unat spins \<noteq> 0" using s(1) by (simp add: unat_eq_zero word_gt_0)
    ultimately show ?thesis using False by (auto simp: sat_mul2_def)
  qed (simp add: sat_mul2_def)
  with s show ?thesis by (simp add: min_def word_gt_0)
qed

lemma backoff_loop_first:
  "0 < spins \<Longrightarrow> 0 < max_spins \<Longrightarrow>
     backoff_loop max_spins spins target obs = Some (case find (\<lambda>c. target \<le> c) obs of Some c \<Rightarrow> Done c | None \<Rightarrow> Blocked)"
proof (induction "length obs" arbitrary: obs spins rule: less_induct)
  case less
  let ?n = "unat spins"
  have n: "0 < ?n" using less.prems(1) by (simp add: unat_gt_0 word_gt_0)
  note ft = find_take_drop [of "\<lambda>c. target \<le> c" obs ?n]
  show ?case
  proof (cases "find (\<lambda>c. target \<le> c) (take ?n obs)")
    case (Some c)
    then show ?thesis using ft by (subst backoff_loop.simps) (simp add: backoff_round_spec)
  next
    case None
    show ?thesis
    proof (cases "length obs < ?n")
      case True
      then show ?thesis using None by (subst backoff_loop.simps) (simp add: backoff_round_spec)
    next
      case False
      then have "length (drop ?n obs) < length obs" using n by simp
      from less.hyps [OF this next_spins [OF less.prems] less.prems(2)] show ?thesis
        using None False ft by (subst backoff_loop.simps) (simp add: backoff_round_spec)
    qed
  qed
qed

lemma backoff_loop_zero: "backoff_loop max_spins 0 target obs = None"
proof -
  have "spins \<noteq> 0" if "backoff_loop m spins t os = Some r" for m spins t os r
  proof (rule backoff_loop.raw_induct [OF _ that, where P = "\<lambda>m spins t os r. spins \<noteq> 0"])
    fix f m spins t os r
    assume IH: "\<And>m spins t os r. f m spins t os = Some r \<Longrightarrow> spins \<noteq> 0"
      and eq: "(case backoff_round (unat spins) t os of
          Done (Inr cur) \<Rightarrow> Some (Done cur) | Done (Inl obs') \<Rightarrow> f m (min (sat_mul2 spins) m) t obs'
        | Blocked \<Rightarrow> Some Blocked | Panicked \<Rightarrow> Some Panicked | Undefined \<Rightarrow> Some Undefined) = Some r"
    show "spins \<noteq> 0"
    proof
      assume z: "spins = 0"
      have "min (sat_mul2 0) m = 0" by (simp add: sat_mul2_def min_def)
      then have "f m 0 t os = Some r" using eq z by simp
      from IH [OF this] show False by simp
    qed
  qed
  from this [of max_spins 0 target obs] show ?thesis by (cases "backoff_loop max_spins 0 target obs") simp_all
qed

interpretation backoff: wait_strategy "\<lambda>target obs. the (backoff_wait_for (fst backoff_default) (snd backoff_default) target obs)"
  by unfold_locales (simp add: backoff_wait_for_def backoff_default_def backoff_loop_first)

lemma multi_wait_busy: "multi_wait_for sequence obs = busy_spin_wait_for sequence (map get_minimum_sequence obs)"
  by (induction obs) (simp_all add: Let_def)

lemma minimum_loop_Min: "minimum_loop m cs = Min (insert m (set cs))"
proof (induction cs arbitrary: m)
  case Nil
  then show ?case by simp
next
  case (Cons c cs)
  have "Min (insert m (insert c (set cs))) = Min (insert (min m c) (set cs))"
    by (cases "set cs = {}") (simp_all add: min.assoc)
  with Cons show ?case by (simp add: min_def not_less)
qed

lemma get_minimum_sequence_ge:
  "target \<le> I64_MAX \<Longrightarrow> target \<le> get_minimum_sequence cs \<longleftrightarrow> (\<forall>c \<in> set cs. target \<le> c)"
  by (simp add: get_minimum_sequence_def minimum_loop_Min)

lemma busy_first:
  "busy_spin_wait_for target obs = Done c \<longleftrightarrow>
     (\<exists>i < length obs. obs ! i = c \<and> target \<le> c \<and> (\<forall>j < i. obs ! j < target))"
proof (induction obs)
  case Nil
  then show ?case by simp
next
  case (Cons a obs)
  then show ?case by (cases "target \<le> a") (auto simp: Ex_less_Suc2 All_less_Suc2)
qed

lemma multi_first:
  assumes "target \<le> I64_MAX"
  shows "multi_wait_for target obss = Done m \<longleftrightarrow>
    (\<exists>i < length obss. m = Min (insert I64_MAX (set (obss ! i))) \<and> (\<forall>c \<in> set (obss ! i). target \<le> c) \<and>
       (\<forall>j < i. \<exists>c \<in> set (obss ! j). c < target))"
proof (induction obss)
  case Nil
  then show ?case by simp
next
  case (Cons cs obss)
  note ge = get_minimum_sequence_ge [OF assms, of cs]
  have m: "get_minimum_sequence cs = Min (insert I64_MAX (set cs))"
    by (simp add: get_minimum_sequence_def minimum_loop_Min)
  show ?case
  proof (cases "\<forall>c \<in> set cs. target \<le> c")
    case True
    then have "\<not> (\<exists>c \<in> set cs. c < target)" by (meson not_le)
    with True ge m show ?thesis by (auto simp add: Ex_less_Suc2 All_less_Suc2 simp del: Min_insert)
  next
    case False
    then have "\<exists>c \<in> set cs. c < target" by (meson not_le)
    with False ge Cons show ?thesis by (auto simp add: Ex_less_Suc2 All_less_Suc2 simp del: Min_insert)
  qed
qed

lemma backoff_max_zero:
  assumes "unat spins \<le> length obs" "\<forall>c \<in> set (take (unat spins) obs). c < target"
  shows "backoff_loop 0 spins target obs = None"
proof -
  have "find (\<lambda>c. target \<le> c) (take (unat spins) obs) = None"
    using assms(2) by (auto simp: find_None_iff not_le)
  with assms(1) show ?thesis
    by (subst backoff_loop.simps) (simp add: backoff_round_spec backoff_loop_zero min_def)
qed

text \<open>
  C39. All wait strategies mean the same. Every load is an element of \<open>obs\<close>, in order. The busy
  strategy, the one with a hint, the yielding one whatever its parameter, and the backoff strategy
  with positive parameters return the first loaded value that reaches the target, and return exactly
  when some load reaches it. A barrier over several cursors returns their minimum in the first round
  in which all of them have reached the target (the target being in the range of \<open>i64\<close>). A backoff
  strategy with no initial spins never returns, and neither does one whose maximum is zero once its
  first round has been in vain.
\<close>

theorem wait_strategies_agree:
  assumes "0 < initial_spins" "0 < max_spins" "target \<le> I64_MAX"
  shows "(\<forall>c. busy_spin_wait_for target obs = Done c \<longleftrightarrow>
       (\<exists>i < length obs. obs ! i = c \<and> target \<le> c \<and> (\<forall>j < i. obs ! j < target))) \<and>
    ((\<exists>c. busy_spin_wait_for target obs = Done c) \<longleftrightarrow> (\<exists>c \<in> set obs. target \<le> c)) \<and>
    spin_loop_hint_wait_for target obs = busy_spin_wait_for target obs \<and>
    yielding_wait_for spin_tries target obs = busy_spin_wait_for target obs \<and>
    backoff_wait_for initial_spins max_spins target obs = Some (busy_spin_wait_for target obs) \<and>
    (\<forall>m. multi_wait_for target obss = Done m \<longleftrightarrow>
       (\<exists>i < length obss. m = Min (insert I64_MAX (set (obss ! i))) \<and> (\<forall>c \<in> set (obss ! i). target \<le> c) \<and>
          (\<forall>j < i. \<exists>c \<in> set (obss ! j). c < target))) \<and>
    backoff_wait_for 0 max_spins target obs = None \<and>
    (unat initial_spins \<le> length obs \<and> (\<forall>c \<in> set (take (unat initial_spins) obs). c < target) \<longrightarrow>
       backoff_wait_for initial_spins 0 target obs = None)"
proof (intro conjI allI impI)
  show "busy_spin_wait_for target obs = Done c \<longleftrightarrow>
      (\<exists>i < length obs. obs ! i = c \<and> target \<le> c \<and> (\<forall>j < i. obs ! j < target))" for c
    by (rule busy_first)
  show "(\<exists>c. busy_spin_wait_for target obs = Done c) \<longleftrightarrow> (\<exists>c \<in> set obs. target \<le> c)"
    by (rule busy.returns_iff)
  show "spin_loop_hint_wait_for target obs = busy_spin_wait_for target obs"
    by (simp add: hint.first_reached busy.first_reached)
  show "yielding_wait_for spin_tries target obs = busy_spin_wait_for target obs"
    by (simp add: yielding.first_reached busy.first_reached)
  show "backoff_wait_for initial_spins max_spins target obs = Some (busy_spin_wait_for target obs)"
    using assms by (simp add: backoff_wait_for_def backoff_loop_first busy.first_reached)
  show "multi_wait_for target obss = Done m \<longleftrightarrow>
      (\<exists>i < length obss. m = Min (insert I64_MAX (set (obss ! i))) \<and> (\<forall>c \<in> set (obss ! i). target \<le> c) \<and>
         (\<forall>j < i. \<exists>c \<in> set (obss ! j). c < target))" for m
    by (rule multi_first [OF assms(3)])
  show "backoff_wait_for 0 max_spins target obs = None"
    by (simp add: backoff_wait_for_def backoff_loop_zero)
  show "backoff_wait_for initial_spins 0 target obs = None"
    if "unat initial_spins \<le> length obs \<and> (\<forall>c \<in> set (take (unat initial_spins) obs). c < target)"
    using that by (simp add: backoff_wait_for_def backoff_max_zero)
qed

theorem wait_strategies_agree_witness:
  "backoff_wait_for 10 1000 5 [1, 7, 9] = Some (Done 7) \<and> backoff_wait_for 0 1000 5 [1, 7, 9] = None"
  using wait_strategies_agree [of 10 1000 5 "[1, 7, 9]" 0 "[]"] by (simp add: I64_MAX_def)

end
