(* ===== verification/Spec2Isabelle.thy ===== *)
theory Spec2Isabelle
  imports Spsc_Interleaving Mpsc_Interleaving Leader_Tracker Latency_Histogram
    Rpc_Server Wait_Strategy
begin

text \<open>
  A verification of the land transaction service (\<open>src/\<close>, Rust), which takes Solana transactions over
  HTTP and forwards them over QUIC to the current and next leaders.

  \<^bold>\<open>The program.\<close> Clients (\<open>src/client\<close>) send JSON-RPC requests over HTTP. The server (\<open>src/server\<close>)
  parses them on one event loop and hands them through a single-producer queue to a worker thread;
  answers come back through a multi-producer queue (\<open>src/channel\<close>). The worker looks up the leaders
  in the leader buffer, which the tracker (\<open>src/leader\<close>) keeps in step with the slot and the
  leader schedule behind a sequence lock (\<open>src/sync\<close>), and sends over pooled QUIC connections
  (\<open>src/quic\<close>). Latencies are collected in histograms (\<open>src/timing\<close>).

  \<^bold>\<open>Conventions.\<close> Unsigned machine integers are words of their width; the \<open>i64\<close> sequence numbers of the
  channels are integers, with every cast to \<open>usize\<close> written out. A Rust \<open>Result\<close> is a sum with the
  error on the left. A call that can panic, have undefined behaviour or wait for ever returns a
  \<open>run\<close> (\<open>Land_Prelude\<close>). A loop that waits for another thread is a function of what it observes in
  each round: a list of loaded states, or of changes the environment makes. So the bound of such a
  loop is the length of that list, and a statement that the loop returns says which observation
  makes it return; \<open>Blocked\<close> means that it is still waiting after the last one. All other loops are
  total functions with a termination proof. Executions are sequentially consistent.

  \<^bold>\<open>Theories.\<close>
  \<^item> \<open>Land_Prelude\<close>: integer types, \<open>run\<close>, saturating arithmetic, powers of two, integer intervals.
  \<^item> \<open>Ring_Buffer\<close> (\<open>channel/src/ringbuffer.rs\<close>): cells that are initialised or not, masked indices, and
    the window of a ring between two sequences; reading, writing and zero-copy access.
  \<^item> \<open>Fifo_Spec\<close>: the contract of a bounded queue as the locale \<open>bounded_fifo\<close>, with its consequences
    for sequences of operations (order, bound, drain) proved once.
  \<^item> \<open>Channel_Error\<close> (\<open>error.rs\<close>, \<open>common.rs\<close>): the error types, backoff and cached disconnection.
  \<^item> \<open>Spsc_Channel\<close> (\<open>channel/src/spsc\<close>): every operation of both handles, the invariant that the cells
    between the cursors are the queue, and the interpretation of \<open>bounded_fifo\<close>; blocking and batch
    receives, zero-copy claims, polling, dropping; two behaviours that contradict the documentation.
  \<^item> \<open>Spsc_Interleaving\<close>: the memory accesses of \<open>try_send\<close> and \<open>try_recv\<close> as one step relation, safe in
    every interleaving.
  \<^item> \<open>Mpsc_Channel\<close> (\<open>channel/src/mpsc\<close>): every operation, the availability bitmap with one alternating
    bit per cell, batched publication and the word-wise scan.
  \<^item> \<open>Mpsc_Interleaving\<close>: any number of producers against the consumer, for capacities of at least 64;
    below 64 the bitmap is ambiguous, and a theorem shows the read of an uninitialised cell.
  \<^item> \<open>Seq_Lock\<close> (\<open>sync/src/seqlock.rs\<close>): the lock over a list of words that readers copy one at a time
    while the writer stores; readers return committed values only. Attempts are taken to end before
    the 64-bit version has gone round once.
  \<^item> \<open>Leader_Buffer\<close> (\<open>leader_entry.rs\<close>, \<open>leader_buffer.rs\<close>): entries, updates and shifts, the numbering
    invariant, lookups during writes, and the refinement of the sequence lock.
  \<^item> \<open>Leader_Schedule\<close> (\<open>schedule_fetcher.rs\<close>): building the table of an epoch from the answers of a
    node, and the lookups. The node and the parser of public keys are arguments; what is relied on is
    that the reported epoch starts before the current slot and ends in the range of \<open>u64\<close>.
  \<^item> \<open>Leader_Tracker\<close> (\<open>tracker.rs\<close>): start-up, refresh task and spin loop; the buffer follows the
    schedule as long as slots do not go back, and the gap between start-up and loop that breaks it.
  \<^item> \<open>Latency_Histogram\<close> (\<open>timing/src/histogram.rs\<close>): the statistics are those of the samples, and a
    percentile is the bucket of the exact order statistic.
  \<^item> \<open>Text_Bytes\<close>: byte strings, decimal numbers and white space.
  \<^item> \<open>Http_Date\<close> (\<open>server/src/date.rs\<close>): the calendar computation inverts counting days; the text fits.
  \<^item> \<open>Base64_Codec\<close>, \<open>Rpc_Request\<close> (\<open>server/src/request.rs\<close>, \<open>error.rs\<close>): decoding inverts the RFC 4648
    encoding; which requests are accepted. \<open>serde_json\<close> is an argument.
  \<^item> \<open>Http_Server\<close> (\<open>server/src/http.rs\<close>), \<open>Http_Client\<close> (\<open>client/src/request.rs\<close>, \<open>response.rs\<close>): the two
    ends of the wire, and \<open>Wire_Protocol\<close>: what one end builds the other understands.
  \<^item> \<open>Slab_Spec\<close>: the contract of a table of connections keyed by tokens, as the locale \<open>slab\<close>.
  \<^item> \<open>Server_Connection\<close> (\<open>server/src/server.rs\<close>): the buffers of a connection, incremental search for the end of a
    request, partial writes and the pool; the search finds what a search from the start finds.
  \<^item> \<open>Rpc_Response\<close> (\<open>server/src/worker.rs\<close>, \<open>queue.rs\<close>, \<open>server.rs\<close>): processing a request, and answers as bytes.
  \<^item> \<open>Rpc_Server\<close> (\<open>server/src/server.rs\<close>): accepting, reading, writing, the queues to and from the worker
    as one step relation; an answer reaches the connection that asked and no other, transactions
    are sent in the order of their arrival, and when the server can make progress.
  \<^item> \<open>Wait_Strategy\<close> (\<open>cpu/src/cursor.rs\<close>, \<open>wait_strategy.rs\<close>, \<open>channel/src/barrier.rs\<close>): the four wait
    strategies and the barriers over one and several cursors.

  \<^bold>\<open>Not modelled.\<close> Memory orderings weaker than sequential consistency, cache-line layout, CPU
  affinity and prefetching have no counterpart in the model. Socket, TLS, QUIC and websocket I/O
  (\<open>quic/src\<close>, \<open>pubsub\<close>, \<open>client/src/connection.rs\<close>) is calls into \<open>rustls\<close>, \<open>quiche\<close> and the kernel;
  of the event loop of \<open>server/src/server.rs\<close> the polling itself is left out. Formatting, logging,
  configuration presets, examples, benchmarks and tests are left out.
\<close>

end
